(* ===== verification/Cact_Prelude.thy ===== *)
theory Cact_Prelude
  imports Main "HOL-Library.Signed_Division"
begin

text \<open>
  The vocabulary shared by the component theories: bytes and their signed and unsigned
  readings, 32-bit wrap-around, a flat byte memory with NUL-terminated strings in it, and
  decimal notation. Every C \<open>char\<close> is an Isabelle \<open>char\<close>, which is exactly one byte;
  plain \<open>char\<close> is signed on the i686 target, so the library distinguishes \<open>schar\<close> (the
  value a \<open>char\<close> is promoted to) from \<open>uchar\<close> (the value after a cast to
  \<open>unsigned char\<close>). Addresses are natural numbers and \<open>0\<close> is the null pointer.
\<close>

named_theorems cmem "facts about memory contents and frames"

subsection \<open>Lists\<close>

lemma length_takeWhile_lt: "x \<in> set xs \<Longrightarrow> \<not> P x \<Longrightarrow> length (takeWhile P xs) < length xs"
  by (induction xs) auto

subsection \<open>Bytes\<close>

abbreviation NUL :: char where
  "NUL \<equiv> CHR 0x00"

definition uchar :: "char \<Rightarrow> int" where
  "uchar c = of_char c"

definition schar :: "char \<Rightarrow> int" where
  "schar c = (if uchar c < 128 then uchar c else uchar c - 256)"

lemma uchar_bounds [simp]: "0 \<le> uchar c" "uchar c < 256"
proof -
  have "uchar c = uchar c mod 256"
    using of_char_of [where 'a = int, of "of_char c"] by (simp add: uchar_def)
  then show "0 \<le> uchar c" "uchar c < 256"
    using pos_mod_bound [of 256 "uchar c"] pos_mod_sign [of 256 "uchar c"] by linarith+
qed

lemma uchar_inject [simp]: "uchar c = uchar d \<longleftrightarrow> c = d"
  by (simp add: uchar_def of_char_eq_iff)

lemma schar_inject [simp]: "schar c = schar d \<longleftrightarrow> c = d"
proof
  assume "schar c = schar d"
  then have "uchar c = uchar d"
    using uchar_bounds [of c] uchar_bounds [of d]
    by (simp add: schar_def split: if_splits del: uchar_bounds uchar_inject)
  then show "c = d" by simp
qed simp

lemma char_of_uchar [simp]: "char_of (uchar c) = c"
  by (simp add: uchar_def)

lemma uchar_char_of [simp]: "uchar (char_of n) = n mod 256"
  by (simp add: uchar_def of_char_of)

lemma char_of_schar [simp]: "char_of (schar c) = c"
proof -
  have "uchar (char_of (schar c)) = uchar c"
    by (simp add: schar_def mod_diff_right_eq [symmetric] del: uchar_inject)
  then show ?thesis by (simp only: uchar_inject)
qed

lemma schar_NUL [simp]: "schar NUL = 0" and uchar_NUL [simp]: "uchar NUL = 0"
  by (simp_all add: schar_def uchar_def)

lemma schar_eq_0 [simp]: "schar c = 0 \<longleftrightarrow> c = NUL"
  using schar_inject [of c NUL] by simp

lemma uchar_eq_0 [simp]: "uchar c = 0 \<longleftrightarrow> c = NUL"
  using uchar_inject [of c NUL] by simp

subsection \<open>Fixed-width integers\<close>

text \<open>
  An \<open>int\<close> or \<open>long\<close> is 32 bits wide. Where a computation can leave the range, the model
  wraps it: \<open>u32\<close> reads a value as \<open>unsigned\<close>, \<open>s32\<close> as two's complement.
\<close>

definition u32 :: "int \<Rightarrow> int" where
  "u32 x = x mod 4294967296"

definition s32 :: "int \<Rightarrow> int" where
  "s32 x = (x + 2147483648) mod 4294967296 - 2147483648"

lemma u32_id [simp]: "0 \<le> x \<Longrightarrow> x < 4294967296 \<Longrightarrow> u32 x = x"
  by (simp add: u32_def)

lemma s32_id [simp]: "-2147483648 \<le> x \<Longrightarrow> x < 2147483648 \<Longrightarrow> s32 x = x"
  by (simp add: s32_def)

lemma u32_bounds [simp]: "0 \<le> u32 x" "u32 x < 4294967296"
  by (simp_all add: u32_def)

lemma s32_bounds [simp]: "-2147483648 \<le> s32 x" "s32 x < 2147483648"
proof -
  have "0 \<le> (x + 2147483648) mod 4294967296" "(x + 2147483648) mod 4294967296 < 4294967296"
    by simp_all
  then show "-2147483648 \<le> s32 x" "s32 x < 2147483648" by (simp_all add: s32_def)
qed

text \<open>Addresses and sizes are natural numbers below \<open>2 ^ 32\<close>: the operators of
  \<open>unsigned int\<close>, \<open>size_t\<close> and \<open>uintptr_t\<close>, with their wrap-around.\<close>

definition add32 :: "nat \<Rightarrow> nat \<Rightarrow> nat" where
  "add32 x y = (x + y) mod 4294967296"

definition sub32 :: "nat \<Rightarrow> nat \<Rightarrow> nat" where
  "sub32 x y = (x + 4294967296 - y) mod 4294967296"

definition mul32 :: "nat \<Rightarrow> nat \<Rightarrow> nat" where
  "mul32 x y = (x * y) mod 4294967296"

lemma add32_id: "x + y < 4294967296 \<Longrightarrow> add32 x y = x + y"
  by (simp add: add32_def)

lemma sub32_id: "y \<le> x \<Longrightarrow> x < 4294967296 \<Longrightarrow> sub32 x y = x - y"
proof -
  assume "y \<le> x" "x < 4294967296"
  then have "x + 4294967296 - y = (x - y) + 4294967296" "x - y < 4294967296" by linarith+
  then show ?thesis by (simp only: sub32_def mod_add_self2 mod_less)
qed

lemma mul32_id: "x * y < 4294967296 \<Longrightarrow> mul32 x y = x * y"
  by (simp add: mul32_def)

lemma bounds32 [simp]:
  "add32 x y < 4294967296" "sub32 x y < 4294967296" "mul32 x y < 4294967296"
  by (simp_all add: add32_def sub32_def mul32_def)

lemma s32_shift: "s32 (x + k * 4294967296) = s32 x"
proof -
  have "x + k * 4294967296 + 2147483648 = x + 2147483648 + k * 4294967296" by simp
  then show ?thesis unfolding s32_def by (metis mod_mult_self1)
qed

lemma s32_obtain:
  obtains k where "s32 x = x + k * 4294967296"
proof
  show "s32 x = x + (- ((x + 2147483648) div 4294967296)) * 4294967296"
    using div_mult_mod_eq [of "x + 2147483648" 4294967296] unfolding s32_def by linarith
qed

lemma s32_s32 [simp]: "s32 (s32 x) = s32 x"
  by simp

lemma s32_mult_cong: "s32 (s32 a * c + b) = s32 (a * c + b)"
proof -
  obtain k where "s32 a = a + k * 4294967296" by (rule s32_obtain)
  then have "s32 a * c + b = (a * c + b) + (k * c) * 4294967296" by (simp add: algebra_simps)
  then show ?thesis by (simp only: s32_shift)
qed

subsection \<open>Memory\<close>

type_synonym mem = "nat \<Rightarrow> char"

text \<open>\<open>bytes m p xs\<close>: the bytes \<open>xs\<close> lie at \<open>p\<close>. \<open>cstr m p xs\<close>: a NUL-terminated string with
  the contents \<open>xs\<close> lies at \<open>p\<close>.\<close>

primrec bytes :: "mem \<Rightarrow> nat \<Rightarrow> string \<Rightarrow> bool" where
  "bytes m p [] = True"
| "bytes m p (x # xs) = (m p = x \<and> bytes m (Suc p) xs)"

primrec cstr :: "mem \<Rightarrow> nat \<Rightarrow> string \<Rightarrow> bool" where
  "cstr m p [] = (m p = NUL)"
| "cstr m p (x # xs) = (m p = x \<and> x \<noteq> NUL \<and> cstr m (Suc p) xs)"

definition unchanged :: "nat set \<Rightarrow> mem \<Rightarrow> mem \<Rightarrow> bool" where
  "unchanged A m m' \<longleftrightarrow> (\<forall>a\<in>A. m' a = m a)"

lemma bytes_nth: "bytes m p xs \<longleftrightarrow> (\<forall>i<length xs. m (p + i) = xs ! i)"
proof (induction xs arbitrary: p)
  case (Cons x xs)
  show ?case by (auto simp: Cons.IH less_Suc_eq_0_disj)
qed simp

lemma bytes_append [simp]: "bytes m p (xs @ ys) \<longleftrightarrow> bytes m p xs \<and> bytes m (p + length xs) ys"
  by (induction xs arbitrary: p) auto

lemma cstr_iff: "cstr m p xs \<longleftrightarrow> bytes m p xs \<and> m (p + length xs) = NUL \<and> NUL \<notin> set xs"
  by (induction xs arbitrary: p) auto

lemma cstr_bytes: "cstr m p xs \<Longrightarrow> bytes m p (xs @ [NUL])"
  by (simp add: cstr_iff)

lemma cstr_end: "cstr m p xs \<Longrightarrow> m (p + length xs) = NUL"
  by (simp add: cstr_iff)

lemma cstr_no_NUL: "cstr m p xs \<Longrightarrow> NUL \<notin> set xs"
  by (simp add: cstr_iff)

lemma cstr_nth: "cstr m p xs \<Longrightarrow> i < length xs \<Longrightarrow> m (p + i) = xs ! i"
  by (simp add: cstr_iff bytes_nth)

lemma cstr_drop: "cstr m p xs \<Longrightarrow> i \<le> length xs \<Longrightarrow> cstr m (p + i) (drop i xs)"
proof (induction i arbitrary: p xs)
  case (Suc i)
  then show ?case by (cases xs) force+
qed simp

lemma cstr_unique: "cstr m p xs \<Longrightarrow> cstr m p ys \<Longrightarrow> xs = ys"
proof (induction xs arbitrary: p ys)
  case Nil
  then show ?case by (cases ys) auto
next
  case (Cons x xs)
  then show ?case by (cases ys) auto
qed

lemma bytes_cong: "unchanged {p..<p + length xs} m m' \<Longrightarrow> bytes m' p xs \<longleftrightarrow> bytes m p xs"
  by (auto simp: bytes_nth unchanged_def)

lemma cstr_cong: "unchanged {p..p + length xs} m m' \<Longrightarrow> cstr m' p xs \<longleftrightarrow> cstr m p xs"
  by (auto simp: cstr_iff bytes_nth unchanged_def)

lemma unchanged_refl [simp]: "unchanged A m m"
  by (simp add: unchanged_def)

lemma unchanged_trans: "unchanged A m m' \<Longrightarrow> unchanged A m' m'' \<Longrightarrow> unchanged A m m''"
  by (simp add: unchanged_def)

lemma unchanged_mono: "unchanged A m m' \<Longrightarrow> B \<subseteq> A \<Longrightarrow> unchanged B m m'"
  by (auto simp: unchanged_def)

lemma unchanged_upd [simp]: "p \<notin> A \<Longrightarrow> unchanged A m (m(p := c))"
  by (auto simp: unchanged_def)

text \<open>Storing a list of bytes: what the byte-wise copying loops are compared with.\<close>

definition store :: "mem \<Rightarrow> nat \<Rightarrow> string \<Rightarrow> mem" where
  "store m p xs = (\<lambda>a. if p \<le> a \<and> a < p + length xs then xs ! (a - p) else m a)"

lemma store_Nil [simp]: "store m p [] = m"
  by (rule ext) (auto simp: store_def)

lemma store_Cons: "store m p (x # xs) = store (m(p := x)) (Suc p) xs"
  by (auto simp: store_def fun_eq_iff nth_Cons' Suc_diff_Suc)

lemma store_upd: "store (m(p := x)) (Suc p) xs = (store m (Suc p) xs)(p := x)"
  by (auto simp: store_def fun_eq_iff)

lemma store_append: "store m p (xs @ ys) = store (store m p xs) (p + length xs) ys"
  by (auto simp: store_def fun_eq_iff nth_append)

lemma store_snoc: "store m p (xs @ [x]) = store (m(p + length xs := x)) p xs"
  by (auto simp: store_def fun_eq_iff nth_append)

lemma store_snoc': "store m p (xs @ [x]) = (store m p xs)(p + length xs := x)"
  by (auto simp: store_def fun_eq_iff nth_append)

lemma store_outside [simp]: "a < p \<or> p + length xs \<le> a \<Longrightarrow> store m p xs a = m a"
  by (auto simp: store_def)

lemma bytes_store [simp]: "bytes (store m p xs) p xs"
  by (simp add: bytes_nth store_def)

lemma unchanged_store: "A \<inter> {p..<p + length xs} = {} \<Longrightarrow> unchanged A m (store m p xs)"
  by (auto simp: unchanged_def store_def)

lemma cstr_store: "NUL \<notin> set xs \<Longrightarrow> cstr (store m p (xs @ [NUL])) p xs"
  using bytes_store [of m p "xs @ [NUL]"] by (simp add: cstr_iff del: bytes_store)

text \<open>Reading a string held as a list: \<open>s[i]\<close>, with the terminator at its end.\<close>

definition at :: "string \<Rightarrow> nat \<Rightarrow> char" where
  "at s i = (if i < length s then s ! i else NUL)"

lemma at_simps [simp]: "at [] i = NUL" "at (x # xs) 0 = x" "at (x # xs) (Suc i) = at xs i"
  by (simp_all add: at_def)

lemma cstr_at: "cstr m p xs \<Longrightarrow> i \<le> length xs \<Longrightarrow> m (p + i) = at xs i"
  by (auto simp: at_def cstr_nth cstr_end)

subsection \<open>Digits\<close>

definition digit_char :: "nat \<Rightarrow> char" where
  "digit_char d = char_of (48 + int d)"

lemma uchar_digit_char [simp]: "d < 208 \<Longrightarrow> uchar (digit_char d) = 48 + int d"
  by (simp add: digit_char_def)

lemma schar_digit_char [simp]: "d < 80 \<Longrightarrow> schar (digit_char d) = 48 + int d"
  by (simp add: schar_def)

lemma digit_char_not_NUL [simp]: "d < 10 \<Longrightarrow> digit_char d \<noteq> NUL"
proof
  assume "d < 10" and "digit_char d = NUL"
  then have "48 + int d = 0" using uchar_digit_char [of d] by simp
  then show False by simp
qed

fun dec :: "nat \<Rightarrow> string" where
  "dec n = (if n < 10 then [digit_char n] else dec (n div 10) @ [digit_char (n mod 10)])"

declare dec.simps [simp del]

lemma dec_digits: "set (dec n) \<subseteq> digit_char ` {..<10}"
proof (induction n rule: dec.induct)
  case (1 n)
  then show ?case by (subst dec.simps) auto
qed

lemma NUL_notin_dec [simp]: "NUL \<notin> set (dec n)"
  using dec_digits [of n] by (auto dest: digit_char_not_NUL [THEN not_sym])

lemma dec_not_Nil [simp]: "dec n \<noteq> []"
  by (subst dec.simps) simp

end
