(* ===== verification/Cact_Div64.thy ===== *)
theory Cact_Div64
  imports Cact_Prelude "HOL-Library.Word"
begin

text \<open>
  The 64-bit division helpers of \<open>src/udivdi3.c\<close>, which the compiler calls on this target: a
  shift-and-subtract division, checked against the division of words and of integers.
\<close>

unbundle bit_operations_syntax

type_synonym u64 = "64 word"

section \<open>Definitions\<close>

text \<open>The scaling loop runs for ever on a zero divisor, so it is a partial function; \<open>udivdi3\<close>
  never calls it with one.\<close>

partial_function (option) udiv_scale :: "u64 \<Rightarrow> u64 \<Rightarrow> nat \<Rightarrow> (u64 \<times> nat) option" where
  "udiv_scale b r shift =
     (if b < r \<and> b AND 0x8000000000000000 = 0 then udiv_scale (push_bit 1 b) r (shift + 1)
      else Some (b, shift))"

text \<open>The subtracting loop, counted down: \<open>Suc shift\<close> iterations are left.\<close>

fun udiv_bits :: "u64 \<Rightarrow> u64 \<Rightarrow> u64 \<Rightarrow> nat \<Rightarrow> u64" where
  "udiv_bits b r q 0 = q"
| "udiv_bits b r q (Suc shift) =
     (if r \<ge> b then udiv_bits (drop_bit 1 b) (r - b) (q OR push_bit shift 1) shift
      else udiv_bits (drop_bit 1 b) r q shift)"

definition udivdi3 :: "u64 \<Rightarrow> u64 \<Rightarrow> u64 option" where
  "udivdi3 a b =
     (if b = 0 then Some 0
      else map_option (\<lambda>(b', shift). udiv_bits b' a 0 (shift + 1)) (udiv_scale b a 0))"

definition umoddi3 :: "u64 \<Rightarrow> u64 \<Rightarrow> u64 option" where
  "umoddi3 a b = (if b = 0 then Some 0 else map_option (\<lambda>q. a - q * b) (udivdi3 a b))"

text \<open>Signed operands are the same words, read with \<open>sint\<close>.\<close>

definition divdi3 :: "u64 \<Rightarrow> u64 \<Rightarrow> u64 option" where
  "divdi3 a b =
     (let neg = ((sint a < 0) \<noteq> (sint b < 0));
          ua = (if sint a < 0 then - (a + 1) + 1 else a);
          ub = (if sint b < 0 then - (b + 1) + 1 else b)
      in map_option (\<lambda>q. if neg then - q else q) (udivdi3 ua ub))"

definition moddi3 :: "u64 \<Rightarrow> u64 \<Rightarrow> u64 option" where
  "moddi3 a b = map_option (\<lambda>q. a - q * b) (divdi3 a b)"

section \<open>Correctness\<close>

lemma unat_lt64: "unat w < 2 ^ 64" for w :: u64
  by (rule order.strict_trans2 [OF unsigned_less]) simp

lemma top_bit_clear: "b AND 0x8000000000000000 = 0 \<longleftrightarrow> unat b < 2 ^ 63" for b :: u64
proof -
  have le: "unat b < 2 ^ 64" using unat_lt64 [of b] by simp
  have "(0x8000000000000000 :: u64) = 2 ^ 63" by simp
  then have "b AND 0x8000000000000000 = 0 \<longleftrightarrow> \<not> bit b 63"
    by (simp only: and_exp_eq_0_iff_not_bit)
  also have "bit b 63 \<longleftrightarrow> bit (unat b) 63"
    by (simp add: bit_unsigned_iff)
  also have "bit (unat b) 63 \<longleftrightarrow> odd (unat b div 2 ^ 63)"
    by (rule bit_iff_odd)
  also have "odd (unat b div 2 ^ 63) \<longleftrightarrow> \<not> unat b < 2 ^ 63"
  proof (cases "unat b < 2 ^ 63")
    case False
    with le have "unat b div 2 ^ 63 = 1" by (intro div_nat_eqI) simp_all
    with False show ?thesis by simp
  qed simp
  finally show ?thesis by blast
qed

lemma unat_double: "unat b < 2 ^ 63 \<Longrightarrow> unat (push_bit 1 b) = 2 * unat b" for b :: u64
  by (simp only: unsigned_push_bit_eq push_bit_nat_def take_bit_nat_def) (simp add: mult.commute)

lemma unat_half: "unat (drop_bit 1 b) = unat b div 2" for b :: u64
  by (simp only: unat_drop_bit_eq drop_bit_nat_def power_one_right)

lemma unat_or_bit:
  fixes q :: u64
  assumes "s < 64" "2 ^ Suc s dvd unat q"
  shows "unat (q OR push_bit s 1) = unat q + 2 ^ s"
proof -
  obtain k where k: "unat q = 2 ^ Suc s * k" using assms(2) by (elim dvdE)
  have "unat (push_bit s 1 :: u64) = 2 ^ s"
    using assms(1) power_strict_increasing [of s 64 "2 :: nat"]
    by (simp only: unsigned_push_bit_eq push_bit_nat_def take_bit_nat_def) simp
  moreover have "\<not> bit (unat q) s"
    by (simp add: k bit_iff_odd)
  moreover have "unat q AND 2 ^ s = 0"
    using calculation(2) by (simp only: and_exp_eq_0_iff_not_bit not_False_eq_True)
  ultimately show ?thesis
    by (simp only: unsigned_or_eq disjunctive_add_eq_or)
qed

text \<open>The scaling loop returns: the divisor is doubled until it exceeds the dividend or its top
  bit is set.\<close>

lemma udiv_scale_returns:
  assumes "b \<noteq> 0" "unat b = B * 2 ^ s"
  shows "\<exists>b' s'. udiv_scale b r s = Some (b', s') \<and> unat b' = B * 2 ^ s' \<and> unat r < B * 2 ^ Suc s'"
  using assms
proof (induction "2 ^ 64 - unat b" arbitrary: b s rule: less_induct)
  case less
  have pos: "0 < unat b" using less.prems(1) by (simp add: unat_gt_0)
  show ?case
  proof (cases "b < r \<and> b AND 0x8000000000000000 = 0")
    case True
    then have small: "unat b < 2 ^ 63" by (simp only: top_bit_clear)
    note dbl = unat_double [OF small]
    have "push_bit 1 b \<noteq> 0" using dbl pos by (metis mult_is_0 unat_0 zero_neq_numeral less_numeral_extra(3))
    moreover have "unat (push_bit 1 b) = B * 2 ^ (s + 1)" using dbl less.prems(2) by simp
    ultimately have "\<exists>b' s'. udiv_scale (push_bit 1 b) r (s + 1) = Some (b', s') \<and>
        unat b' = B * 2 ^ s' \<and> unat r < B * 2 ^ Suc s'"
      using dbl pos small by (intro less.hyps) simp_all
    moreover have "udiv_scale b r s = udiv_scale (push_bit 1 b) r (s + 1)"
      by (subst udiv_scale.simps) (simp only: True if_True simp_thms)
    ultimately show ?thesis by simp
  next
    case False
    have "unat r < 2 * unat b"
    proof (cases "b < r")
      case True
      with False have "2 ^ 63 \<le> unat b" using top_bit_clear [of b] by auto
      then show ?thesis using unat_lt64 [of r] by simp
    next
      case F: False
      then have "unat r \<le> unat b" by (simp add: word_le_nat_alt not_less)
      with pos show ?thesis by simp
    qed
    moreover have "udiv_scale b r s = Some (b, s)"
      by (subst udiv_scale.simps) (simp only: False if_False)
    ultimately show ?thesis using less.prems(2) by simp
  qed
qed

lemma div_step:
  assumes "(B :: nat) * 2 ^ s \<le> r" "0 < B"
  shows "r div B = 2 ^ s + (r - B * 2 ^ s) div B"
proof -
  have "r = (r - B * 2 ^ s) + 2 ^ s * B" using assms(1) by (simp add: mult.commute)
  then have "r div B = ((r - B * 2 ^ s) + 2 ^ s * B) div B" by simp
  also have "\<dots> = 2 ^ s + (r - B * 2 ^ s) div B" using assms(2) by (simp only: div_mult_self1 less_numeral_extra)
  finally show ?thesis .
qed

lemma udiv_bits_div:
  assumes "0 < B" "k \<le> 64" "k > 0 \<Longrightarrow> unat b = B * 2 ^ (k - 1)" "unat r < B * 2 ^ k" "2 ^ k dvd unat q"
  shows "unat (udiv_bits b r q k) = unat q + unat r div B"
  using assms
proof (induction b r q k rule: udiv_bits.induct)
  case (1 b r q)
  then show ?case by simp
next
  case (2 b r q s)
  have b: "unat b = B * 2 ^ s" using "2.prems"(3) by simp
  have half: "s > 0 \<Longrightarrow> unat (drop_bit 1 b) = B * 2 ^ (s - 1)"
    unfolding unat_half b by (cases s) simp_all
  show ?case
  proof (cases "b \<le> r")
    case True
    then have le: "B * 2 ^ s \<le> unat r" by (simp add: word_le_nat_alt b)
    have r': "unat (r - b) = unat r - B * 2 ^ s" using True by (simp add: unat_sub b)
    have q': "unat (q OR push_bit s 1) = unat q + 2 ^ s"
      using "2.prems"(2,5) by (intro unat_or_bit) simp_all
    have "2 ^ s dvd unat q" using "2.prems"(5) dvd_trans le_imp_power_dvd [of s "Suc s" 2] by auto
    then have "unat (udiv_bits (drop_bit 1 b) (r - b) (q OR push_bit s 1) s) =
        unat (q OR push_bit s 1) + unat (r - b) div B"
      using "2.prems" half r' q' True by (intro "2.IH"(1)) (simp_all)
    with True show ?thesis using div_step [OF le "2.prems"(1)] q' by (simp add: r')
  next
    case False
    then have "unat r < B * 2 ^ s" by (simp add: word_le_nat_alt b not_le)
    moreover have "2 ^ s dvd unat q" using "2.prems"(5) dvd_trans le_imp_power_dvd [of s "Suc s" 2] by auto
    ultimately have "unat (udiv_bits (drop_bit 1 b) r q s) = unat q + unat r div B"
      using False "2.prems" half by (intro "2.IH"(2)) simp_all
    with False show ?thesis by simp
  qed
qed

lemma udivdi3_div: "udivdi3 a b = Some (a div b)"
proof (cases "b = 0")
  case False
  then obtain b' s where sc: "udiv_scale b a 0 = Some (b', s)" and b': "unat b' = unat b * 2 ^ s"
    and lt: "unat a < unat b * 2 ^ Suc s"
    using udiv_scale_returns [of b "unat b" 0 a] by auto
  have pos: "0 < unat b" using False by (simp add: unat_gt_0)
  have "2 ^ s < (2 :: nat) ^ 64"
  proof -
    have "2 ^ s \<le> unat b * 2 ^ s" using pos by simp
    also have "\<dots> < 2 ^ 64" using b' unat_lt64 [of b'] by simp
    finally show ?thesis .
  qed
  then have "Suc s \<le> 64" using power_less_imp_less_exp [of "2 :: nat" s 64] by simp
  then have "unat (udiv_bits b' a 0 (Suc s)) = unat (0 :: u64) + unat a div unat b"
    using pos b' lt by (intro udiv_bits_div) simp_all
  then have "udiv_bits b' a 0 (Suc s) = a div b"
    by (simp add: word_unat_eq_iff unat_div_distrib)
  with False sc show ?thesis by (simp add: udivdi3_def)
qed (simp add: udivdi3_def)

lemma umoddi3_mod: "umoddi3 a b = Some (if b = 0 then 0 else a mod b)"
  by (simp add: umoddi3_def udivdi3_div minus_div_mult_eq_mod)

lemma uint_magnitude: "uint (if sint a < 0 then - (a + 1) + 1 else a) = \<bar>sint a\<bar>" for a :: u64
proof -
  have "- (2 ^ 63) \<le> sint a" "sint a < 2 ^ 63"
    using sint_ge [of a] sint_lt [of a] by simp_all
  moreover have "(if sint a < 0 then - (a + 1) + 1 else a) = word_of_int \<bar>sint a\<bar>"
    by simp
  ultimately show ?thesis
    by (simp only: uint_word_of_int) (simp add: abs_if)
qed

lemma divdi3_div: "divdi3 a b = Some (word_of_int (sint a sdiv sint b))"
proof -
  define ua where "ua = (if sint a < 0 then - (a + 1) + 1 else a)"
  define ub where "ub = (if sint b < 0 then - (b + 1) + 1 else b)"
  have "ua div ub = word_of_int (\<bar>sint a\<bar> div \<bar>sint b\<bar>)"
    by (simp only: word_div_def ua_def ub_def uint_magnitude)
  then show ?thesis
    by (auto simp: divdi3_def Let_def udivdi3_div signed_divide_int_def sgn_if
        simp flip: ua_def ub_def)
qed

lemma moddi3_mod: "moddi3 a b = Some (word_of_int (sint a smod sint b))"
  by (simp add: moddi3_def divdi3_div flip: minus_sdiv_mult_eq_smod)

end
