(* ===== verification/Cact_String_Lemmas.thy ===== *)
theory Cact_String_Lemmas
  imports Cact_String "HOL-Library.Sublist"
begin

text \<open>
  What the functions of \<open>Cact_String\<close> compute on terminated strings and on arrays, as plain
  definitions on lists.
\<close>

section \<open>Comparison\<close>

text \<open>Comparison byte by byte, with bytes ordered as signed characters.\<close>

fun str_cmp :: "string \<Rightarrow> string \<Rightarrow> int" where
  "str_cmp [] [] = 0"
| "str_cmp (x # xs) [] = schar x"
| "str_cmp [] (y # ys) = - schar y"
| "str_cmp (x # xs) (y # ys) = (if x = y then str_cmp xs ys else schar x - schar y)"

lemma compare_string_loop_str:
  "cstr m (s1 + i) xs \<Longrightarrow> cstr m (s2 + i) ys \<Longrightarrow>
   compare_string_loop m s1 s2 i = Some (str_cmp xs ys)"
proof (induction xs ys arbitrary: i rule: str_cmp.induct)
  case (4 x xs y ys)
  then show ?case
    using "4.IH" [of "Suc i"] by (subst compare_string_loop.simps) auto
qed (subst compare_string_loop.simps; auto)+

lemma strcmp_str [simp]: "cstr m s1 xs \<Longrightarrow> cstr m s2 ys \<Longrightarrow> strcmp m s1 s2 = Some (str_cmp xs ys)"
  using compare_string_loop_str [of m s1 0 xs s2 ys] by (simp add: strcmp_def compare_string_def)

lemma strcoll_str [simp]: "cstr m s1 xs \<Longrightarrow> cstr m s2 ys \<Longrightarrow> strcoll m s1 s2 = Some (str_cmp xs ys)"
  by (simp add: strcoll_def)

lemma str_cmp_refl [simp]: "str_cmp xs xs = 0"
  by (induction xs) auto

lemma str_cmp_eq_0:
  "NUL \<notin> set xs \<Longrightarrow> NUL \<notin> set ys \<Longrightarrow> str_cmp xs ys = 0 \<longleftrightarrow> xs = ys"
  by (induction xs ys rule: str_cmp.induct) auto

lemma str_cmp_swap: "str_cmp ys xs = - str_cmp xs ys"
  by (induction xs ys rule: str_cmp.induct) auto

lemma str_cmp_trans:
  assumes "str_cmp xs ys \<le> 0" "str_cmp ys zs \<le> 0"
    and "NUL \<notin> set xs" "NUL \<notin> set ys" "NUL \<notin> set zs"
  shows "str_cmp xs zs \<le> 0"
  using assms
proof (induction xs ys arbitrary: zs rule: str_cmp.induct)
  case (2 x xs)
  then show ?case by (cases zs) auto
next
  case (3 y ys)
  then show ?case by (cases zs) (auto split: if_splits)
next
  case (4 x xs y ys)
  then show ?case by (cases zs) (auto split: if_splits)
qed auto

lemma strncmp_str:
  "cstr m a xs \<Longrightarrow> cstr m b ys \<Longrightarrow> strncmp m a b n = str_cmp (take n xs) (take n ys)"
proof (induction n arbitrary: a b xs ys)
  case 0
  then show ?case by (simp add: strncmp.simps)
next
  case (Suc n)
  then show ?case
    by (cases xs; cases ys) (auto simp: strncmp.simps [of m a b "Suc n"])
qed

text \<open>Comparison of two arrays, with bytes ordered as unsigned characters.\<close>

fun mem_cmp :: "string \<Rightarrow> string \<Rightarrow> int" where
  "mem_cmp (x # xs) (y # ys) = (if x \<noteq> y then uchar x - uchar y else mem_cmp xs ys)"
| "mem_cmp _ _ = 0"

lemma memcmp_loop_bytes:
  "bytes m (p1 + i) xs \<Longrightarrow> bytes m (p2 + i) ys \<Longrightarrow> length xs = n - i \<Longrightarrow> length ys = n - i \<Longrightarrow>
   memcmp_loop m p1 p2 n i = mem_cmp xs ys"
proof (induction xs ys arbitrary: i rule: mem_cmp.induct)
  case (1 x xs y ys)
  then show ?case
    using "1.IH" [of "Suc i"] by (subst memcmp_loop.simps) auto
qed (subst memcmp_loop.simps; simp)+

lemma memcmp_bytes:
  "bytes m p1 xs \<Longrightarrow> bytes m p2 ys \<Longrightarrow> length xs = n \<Longrightarrow> length ys = n \<Longrightarrow>
   memcmp m p1 p2 n = mem_cmp xs ys"
  using memcmp_loop_bytes [of m p1 0 xs p2 ys n] by (simp add: memcmp_def)

lemma memory_compare_loop_memcmp:
  "0 \<le> i \<Longrightarrow> memory_compare_loop m p1 p2 n i = memcmp_loop m p1 p2 (nat n) (nat i)"
proof (induction m p1 p2 n i rule: memory_compare_loop.induct)
  case (1 m p1 p2 n i)
  have "nat (i + 1) = Suc (nat i)" using "1.prems" by simp
  with 1 show ?case
    by (subst memory_compare_loop.simps, subst memcmp_loop.simps) auto
qed

lemma memory_compare_memcmp: "memory_compare m p1 p2 n = memcmp m p1 p2 (nat n)"
  by (simp add: memory_compare_def memcmp_def memory_compare_loop_memcmp)

lemma mem_cmp_eq_0: "length xs = length ys \<Longrightarrow> mem_cmp xs ys = 0 \<longleftrightarrow> xs = ys"
  by (induction xs ys rule: mem_cmp.induct) auto

section \<open>Lengths\<close>

lemma strlen_loop_str: "cstr m (s + i) xs \<Longrightarrow> strlen_loop m s i = Some (i + length xs)"
proof (induction xs arbitrary: i)
  case (Cons x xs)
  then show ?case using Cons.IH [of "Suc i"] by (subst strlen_loop.simps) auto
qed (simp add: strlen_loop.simps)

lemma strlen_str [simp]: "cstr m s xs \<Longrightarrow> strlen m s = Some (length xs)"
  using strlen_loop_str [of m s 0 xs] by (simp add: strlen_def)

lemma strnlen_loop_str:
  "cstr m (s + i) xs \<Longrightarrow> strnlen_loop m s maxlen i = (if i \<le> maxlen then min (i + length xs) maxlen else i)"
proof (induction xs arbitrary: i)
  case (Cons x xs)
  then show ?case using Cons.IH [of "Suc i"] by (subst strnlen_loop.simps) auto
qed (simp add: strnlen_loop.simps)

lemma strnlen_str: "cstr m s xs \<Longrightarrow> strnlen m s maxlen = min (length xs) maxlen"
  using strnlen_loop_str [of m s 0 xs maxlen] by (simp add: strnlen_def)

section \<open>Searching\<close>

lemma strchr_str:
  "cstr m s xs \<Longrightarrow> strchr m s c =
     Some (if char_of c \<in> set xs then s + length (takeWhile (\<lambda>x. x \<noteq> char_of c) xs)
           else if c = 0 then s + length xs else 0)"
  unfolding strchr_def
proof (induction xs arbitrary: s)
  case (Cons x xs)
  then show ?case using Cons.IH [of "Suc s"] by (subst strchr_loop.simps) auto
qed (simp add: strchr_loop.simps)

lemma strchr_found:
  "cstr m s xs \<Longrightarrow> s \<noteq> 0 \<Longrightarrow> x \<noteq> NUL \<Longrightarrow> \<exists>r. strchr m s (schar x) = Some r \<and> (r \<noteq> 0 \<longleftrightarrow> x \<in> set xs)"
  by (simp add: strchr_str)

lemma strrchr_loop_str:
  "cstr m s xs \<Longrightarrow> strrchr_loop m s c lst =
     Some (if c = 0 then s + length xs
           else if char_of c \<in> set xs
           then s + length xs - Suc (length (takeWhile (\<lambda>x. x \<noteq> char_of c) (rev xs)))
           else lst)"
proof (induction xs arbitrary: s lst)
  case (Cons x xs)
  have *: "length (takeWhile (\<lambda>x. x \<noteq> char_of c) (rev xs)) < length xs" if "char_of c \<in> set xs"
    using that length_takeWhile_lt [of "char_of c" "rev xs" "\<lambda>x. x \<noteq> char_of c"] by auto
  show ?case
    using Cons by (subst strrchr_loop.simps) (auto simp: takeWhile_append dest: *)
qed (simp add: strrchr_loop.simps)

lemma strchrnul_str:
  "cstr m s xs \<Longrightarrow> strchrnul m s c = Some (s + length (takeWhile (\<lambda>x. schar x \<noteq> c) xs))"
proof (induction xs arbitrary: s)
  case (Cons x xs)
  then show ?case using Cons.IH [of "Suc s"] by (subst strchrnul.simps) auto
qed (simp add: strchrnul.simps)

lemma memchr_loop_bytes:
  "bytes m (p + i) xs \<Longrightarrow> length xs = n - i \<Longrightarrow> memchr_loop m p c n i =
     (if char_of c \<in> set xs then p + i + length (takeWhile (\<lambda>x. x \<noteq> char_of c) xs) else 0)"
proof (induction xs arbitrary: i)
  case (Cons x xs)
  then show ?case using Cons.IH [of "Suc i"] by (subst memchr_loop.simps) auto
qed (simp add: memchr_loop.simps)

lemma memchr_bytes:
  "bytes m p xs \<Longrightarrow> length xs = n \<Longrightarrow> memchr m p c n =
     (if char_of c \<in> set xs then p + length (takeWhile (\<lambda>x. x \<noteq> char_of c) xs) else 0)"
  using memchr_loop_bytes [of m p 0 xs n c] by (simp add: memchr_def)

lemma in_set_scan_str [simp]: "cstr m a xs \<Longrightarrow> in_set_scan m c a = Some (c \<in> set xs)"
proof (induction xs arbitrary: a)
  case (Cons x xs)
  then show ?case using Cons.IH [of "Suc a"] by (subst in_set_scan.simps) auto
qed (simp add: in_set_scan.simps)

lemma strspn_loop_str:
  "cstr m s xs \<Longrightarrow> cstr m a ys \<Longrightarrow>
   strspn_loop m s a n = Some (n + length (takeWhile (\<lambda>x. x \<in> set ys) xs))"
proof (induction xs arbitrary: s n)
  case (Cons x xs)
  then show ?case using Cons.IH [of "Suc s" "Suc n"] by (subst strspn_loop.simps) auto
qed (simp add: strspn_loop.simps)

lemma strcspn_loop_str:
  "cstr m s xs \<Longrightarrow> cstr m a ys \<Longrightarrow>
   strcspn_loop m s a n = Some (n + length (takeWhile (\<lambda>x. x \<notin> set ys) xs))"
proof (induction xs arbitrary: s n)
  case (Cons x xs)
  then show ?case using Cons.IH [of "Suc s" "Suc n"] by (subst strcspn_loop.simps) auto
qed (simp add: strcspn_loop.simps)

lemma strpbrk_str:
  "cstr m s xs \<Longrightarrow> cstr m a ys \<Longrightarrow> strpbrk m s a =
     Some (if \<exists>x\<in>set xs. x \<in> set ys then s + length (takeWhile (\<lambda>x. x \<notin> set ys) xs) else 0)"
proof (induction xs arbitrary: s)
  case (Cons x xs)
  then show ?case using Cons.IH [of "Suc s"] by (subst strpbrk.simps) auto
qed (simp add: strpbrk.simps)

subsection \<open>Substrings\<close>

text \<open>The first position at which \<open>needle\<close> occurs, relative to an equivalence of characters.\<close>

fun sub_index :: "(char \<Rightarrow> char \<Rightarrow> bool) \<Rightarrow> string \<Rightarrow> string \<Rightarrow> nat option" where
  "sub_index eq needle hay =
     (if list_all2 eq (take (length needle) hay) needle then Some 0
      else case hay of [] \<Rightarrow> None | h # hs \<Rightarrow> map_option Suc (sub_index eq needle hs))"

declare sub_index.simps [simp del]

lemma sub_index_Some:
  "sub_index eq needle hay = Some k \<longleftrightarrow>
     k \<le> length hay \<and> list_all2 eq (take (length needle) (drop k hay)) needle \<and>
     (\<forall>j<k. \<not> list_all2 eq (take (length needle) (drop j hay)) needle)"
proof (induction eq needle hay arbitrary: k rule: sub_index.induct)
  case (1 eq needle hay)
  show ?case
  proof (cases "list_all2 eq (take (length needle) hay) needle")
    case True
    then show ?thesis by (subst sub_index.simps) (cases k; force)
  next
    case False
    show ?thesis
    proof (cases hay)
      case Nil
      with False show ?thesis by (subst sub_index.simps) auto
    next
      case (Cons h hs)
      note IH = "1.IH" [OF False Cons]
      from False Cons show ?thesis
        by (subst sub_index.simps)
          (cases k; auto simp: IH All_less_Suc2)
    qed
  qed
qed

lemma sub_index_None:
  "sub_index eq needle hay = None \<longleftrightarrow>
     (\<forall>k\<le>length hay. \<not> list_all2 eq (take (length needle) (drop k hay)) needle)"
proof (induction eq needle hay rule: sub_index.induct)
  case (1 eq needle hay)
  show ?case
  proof (cases hay)
    case Nil
    then show ?thesis by (subst sub_index.simps) auto
  next
    case (Cons h hs)
    have *: "(\<forall>k\<le>length hay. P k) \<longleftrightarrow> P 0 \<and> (\<forall>k\<le>length hs. P (Suc k))" for P
      by (simp add: Cons) (metis Suc_le_mono not0_implies_Suc zero_le)
    show ?thesis
      using "1.IH" [OF _ Cons] by (subst sub_index.simps, subst *) (auto simp: Cons)
  qed
qed

lemma strstr_inner_str:
  "cstr m h xs \<Longrightarrow> cstr m n ys \<Longrightarrow>
   \<exists>n'. strstr_inner m h n = Some n' \<and> (m n' = NUL \<longleftrightarrow> list_all2 (=) (take (length ys) xs) ys)"
proof (induction ys arbitrary: h n xs)
  case Nil
  then show ?case by (subst strstr_inner.simps) auto
next
  case (Cons y ys)
  show ?case
  proof (cases xs)
    case Nil
    with Cons.prems show ?thesis by (subst strstr_inner.simps) auto
  next
    case (Cons x xs')
    with Cons.prems Cons.IH [of "Suc h" xs' "Suc n"] show ?thesis
      by (cases "x = y") (subst strstr_inner.simps; force)+
  qed
qed

lemma strstr_loop_str:
  "cstr m h xs \<Longrightarrow> cstr m n ys \<Longrightarrow> ys \<noteq> [] \<Longrightarrow>
   strstr_loop m h n = Some (case sub_index (=) ys xs of None \<Rightarrow> 0 | Some k \<Rightarrow> h + k)"
proof (induction xs arbitrary: h)
  case Nil
  then show ?case by (subst strstr_loop.simps, subst sub_index.simps) auto
next
  case (Cons x xs)
  from strstr_inner_str [OF Cons.prems(1,2)] obtain n' where n':
    "strstr_inner m h n = Some n'"
    "m n' = NUL \<longleftrightarrow> list_all2 (=) (take (length ys) (x # xs)) ys" by blast
  from Cons.prems Cons.IH [of "Suc h"] n' show ?case
    by (subst strstr_loop.simps, subst sub_index.simps) (auto split: option.splits)
qed

lemma strstr_str:
  "cstr m h xs \<Longrightarrow> cstr m n ys \<Longrightarrow>
   strstr m h n = Some (case sub_index (=) ys xs of None \<Rightarrow> 0 | Some k \<Rightarrow> h + k)"
  using strstr_loop_str [of m h xs n ys]
  by (cases ys) (auto simp: strstr_def sub_index.simps [of _ "[]"])

lemma memmem_loop_bytes:
  "bytes m h xs \<Longrightarrow> bytes m n ys \<Longrightarrow> ys \<noteq> [] \<Longrightarrow> i \<le> length xs \<Longrightarrow>
   memmem_loop m h (length xs) n (length ys) i =
     (case sub_index (=) ys (drop i xs) of None \<Rightarrow> 0 | Some k \<Rightarrow> h + i + k)"
proof (induction "length xs - i" arbitrary: i rule: less_induct)
  case less
  let ?hit = "list_all2 (=) (take (length ys) (drop i xs)) ys"
  show ?case
  proof (cases "i + length ys \<le> length xs")
    case False
    have "sub_index (=) ys (drop i xs) = None"
      unfolding sub_index_None
    proof (intro allI impI notI)
      fix k assume "list_all2 (=) (take (length ys) (drop k (drop i xs))) ys"
      from list_all2_lengthD [OF this] show False using False less.prems(3) by (cases ys) auto
    qed
    with False show ?thesis by (subst memmem_loop.simps) simp
  next
    case True
    have b: "bytes m (h + i) (take (length ys) (drop i xs))"
      using less.prems(1) True by (auto simp: bytes_nth add.assoc)
    have c: "memcmp m (h + i) n (length ys) = 0 \<longleftrightarrow> ?hit"
      using memcmp_bytes [OF b less.prems(2)] True
      by (simp add: mem_cmp_eq_0 list_all2_eq)
    have f: "m (h + i) = m n" if ?hit
    proof -
      from that have "take (length ys) (drop i xs) = ys" by (simp add: list_all2_eq)
      with b less.prems(2,3) show ?thesis by (cases ys) auto
    qed
    have i: "i < length xs" using True less.prems(3) by (cases ys) auto
    then have d: "drop i xs = xs ! i # drop (Suc i) xs" by (rule Cons_nth_drop_Suc [symmetric])
    have IH: "memmem_loop m h (length xs) n (length ys) (Suc i) =
        (case sub_index (=) ys (drop (Suc i) xs) of None \<Rightarrow> 0 | Some k \<Rightarrow> h + Suc i + k)"
      using less.hyps [of "Suc i"] less.prems i by simp
    show ?thesis
    proof (cases ?hit)
      case True
      with \<open>i + length ys \<le> length xs\<close> c f show ?thesis
        by (subst memmem_loop.simps, subst sub_index.simps) simp
    next
      case False
      then have "sub_index (=) ys (drop i xs) = map_option Suc (sub_index (=) ys (drop (Suc i) xs))"
        by (subst sub_index.simps) (simp add: d)
      moreover have "memmem_loop m h (length xs) n (length ys) i =
          memmem_loop m h (length xs) n (length ys) (Suc i)"
        using False \<open>i + length ys \<le> length xs\<close> c by (subst memmem_loop.simps) simp
      ultimately show ?thesis
        using IH by (simp split: option.splits)
    qed
  qed
qed

lemma memmem_bytes:
  assumes "bytes m h xs" "bytes m n ys"
  shows "memmem m h (length xs) n (length ys) =
     (case sub_index (=) ys xs of None \<Rightarrow> 0 | Some k \<Rightarrow> h + k)"
proof (cases "ys = [] \<or> length ys > length xs")
  case True
  have "sub_index (=) ys xs = None" if "length ys > length xs"
    using that by (auto simp: sub_index_None dest: list_all2_lengthD)
  with True show ?thesis by (auto simp: memmem_def sub_index.simps [of _ "[]"])
next
  case False
  with memmem_loop_bytes [OF assms, of 0] show ?thesis
    by (simp add: memmem_def split: option.splits)
qed

section \<open>Case-insensitive comparison\<close>

definition ci_eq :: "char \<Rightarrow> char \<Rightarrow> bool" where
  "ci_eq x y \<longleftrightarrow> lower (uchar x) = lower (uchar y)"

fun case_cmp :: "string \<Rightarrow> string \<Rightarrow> int" where
  "case_cmp [] [] = 0"
| "case_cmp (x # xs) [] = lower (uchar x)"
| "case_cmp [] (y # ys) = - lower (uchar y)"
| "case_cmp (x # xs) (y # ys) =
     (if ci_eq x y then case_cmp xs ys else lower (uchar x) - lower (uchar y))"

lemma uchar_letters: "uchar CHR ''A'' = 65" "uchar CHR ''Z'' = 90" "uchar CHR ''a'' = 97"
  by (simp_all add: uchar_def)

lemma lower_0 [simp]: "lower 0 = 0"
  by (simp add: lower_def uchar_letters)

lemma lower_uchar_eq_0 [simp]: "lower (uchar c) = 0 \<longleftrightarrow> c = NUL"
  using uchar_bounds [of c] uchar_eq_0 [of c]
  by (auto simp: lower_def uchar_letters simp del: uchar_bounds uchar_eq_0)

lemma lower_schar: "lower (schar c) = (if uchar c < 128 then lower (uchar c) else uchar c - 256)"
  using uchar_bounds [of c] by (auto simp: lower_def schar_def uchar_letters simp del: uchar_bounds)

lemma lower_uchar_ranges:
  "uchar c < 128 \<Longrightarrow> 0 \<le> lower (uchar c)" "uchar c < 128 \<Longrightarrow> lower (uchar c) < 128"
  "\<not> uchar c < 128 \<Longrightarrow> lower (uchar c) = uchar c"
  using uchar_bounds [of c] by (auto simp: lower_def uchar_letters simp del: uchar_bounds)

lemma lower_schar_eq: "lower (schar x) = lower (schar y) \<longleftrightarrow> ci_eq x y"
  using uchar_bounds [of x] uchar_bounds [of y] lower_uchar_ranges [of x] lower_uchar_ranges [of y]
  by (cases "uchar x < 128"; cases "uchar y < 128") (simp_all add: lower_schar ci_eq_def del: uchar_bounds)

lemma lower_schar_eq_0 [simp]: "lower (schar c) = 0 \<longleftrightarrow> c = NUL"
  using lower_schar_eq [of c NUL] by (simp add: ci_eq_def)

lemma ci_eq_NUL [simp]: "ci_eq NUL y \<longleftrightarrow> y = NUL" "ci_eq x NUL \<longleftrightarrow> x = NUL"
  using lower_uchar_eq_0 [of x] lower_uchar_eq_0 [of y] by (auto simp: ci_eq_def simp del: lower_uchar_eq_0)

lemma strcasecmp_str:
  "cstr m s1 xs \<Longrightarrow> cstr m s2 ys \<Longrightarrow> strcasecmp m s1 s2 = Some (case_cmp xs ys)"
proof (induction xs ys arbitrary: s1 s2 rule: case_cmp.induct)
  case (4 x xs y ys)
  then show ?case
    by (subst strcasecmp.simps) (auto simp: lower_schar_eq)
qed (subst strcasecmp.simps; simp add: lower_schar_eq)+

lemma strncasecmp_str:
  "cstr m s1 xs \<Longrightarrow> cstr m s2 ys \<Longrightarrow> strncasecmp m s1 s2 n = case_cmp (take n xs) (take n ys)"
proof (induction n arbitrary: s1 s2 xs ys)
  case (Suc n)
  then show ?case
    by (cases xs; cases ys) (auto simp: Let_def ci_eq_def)
qed simp

lemma case_cmp_eq_0:
  "NUL \<notin> set xs \<Longrightarrow> NUL \<notin> set ys \<Longrightarrow> case_cmp xs ys = 0 \<longleftrightarrow> list_all2 ci_eq xs ys"
  by (induction xs ys rule: case_cmp.induct) (auto simp: ci_eq_def)

lemma strcasestr_inner_str:
  "cstr m h xs \<Longrightarrow> cstr m n ys \<Longrightarrow>
   \<exists>n'. strcasestr_inner m h n = Some n' \<and> (m n' = NUL \<longleftrightarrow> list_all2 ci_eq (take (length ys) xs) ys)"
proof (induction ys arbitrary: h n xs)
  case Nil
  then show ?case by (subst strcasestr_inner.simps) auto
next
  case (Cons y ys)
  show ?case
  proof (cases xs)
    case Nil
    with Cons.prems show ?thesis
      by (subst strcasestr_inner.simps) (auto simp: ci_eq_def [symmetric])
  next
    case (Cons x xs')
    with Cons.prems Cons.IH [of "Suc h" xs' "Suc n"] show ?thesis
      by (cases "ci_eq x y") (subst strcasestr_inner.simps; force simp: ci_eq_def [symmetric])+
  qed
qed

lemma strcasestr_loop_str:
  "cstr m h xs \<Longrightarrow> cstr m n ys \<Longrightarrow> ys \<noteq> [] \<Longrightarrow>
   strcasestr_loop m h n = Some (case sub_index ci_eq ys xs of None \<Rightarrow> 0 | Some k \<Rightarrow> h + k)"
proof (induction xs arbitrary: h)
  case Nil
  then show ?case by (subst strcasestr_loop.simps, subst sub_index.simps) auto
next
  case (Cons x xs)
  from strcasestr_inner_str [OF Cons.prems(1,2)] obtain n' where n':
    "strcasestr_inner m h n = Some n'"
    "m n' = NUL \<longleftrightarrow> list_all2 ci_eq (take (length ys) (x # xs)) ys" by blast
  from Cons.prems(2,3) obtain y ys' where ys: "ys = y # ys'" "m n = y" by (cases ys) auto
  from Cons.prems Cons.IH [of "Suc h"] n' ys show ?case
    by (subst strcasestr_loop.simps, subst sub_index.simps)
      (auto simp: ci_eq_def [symmetric] split: option.splits)
qed

lemma strcasestr_str:
  "cstr m h xs \<Longrightarrow> cstr m n ys \<Longrightarrow>
   strcasestr m h n = Some (case sub_index ci_eq ys xs of None \<Rightarrow> 0 | Some k \<Rightarrow> h + k)"
  using strcasestr_loop_str [of m h xs n ys]
  by (cases ys) (auto simp: strcasestr_def sub_index.simps [of _ "[]"])

section \<open>Writing\<close>

lemma memory_set_loop_store: "memory_set_loop m p v n = store m p (replicate n (char_of v))"
  by (induction n arbitrary: m p) (simp_all add: store_Cons)

lemma memset_store: "memset m p v n = store m p (replicate n (char_of v))"
  by (simp add: memset_def memory_set_loop_store)

lemma memory_copy_loop_store:
  "d \<le> s \<or> s + n \<le> d \<Longrightarrow> memory_copy_loop m d s n = store m d (map m [s..<s + n])"
proof (induction n arbitrary: m d s)
  case (Suc n)
  define m' where m': "m' = m(d := m s)"
  have "map m' [Suc s..<Suc s + n] = map m [Suc s..<Suc s + n]"
    using Suc.prems by (auto simp: m')
  moreover have "memory_copy_loop m' (Suc d) (Suc s) n = store m' (Suc d) (map m' [Suc s..<Suc s + n])"
    using Suc.prems by (intro Suc.IH) auto
  moreover have "[s..<s + Suc n] = s # [Suc s..<Suc s + n]"
    by (simp add: upt_rec)
  ultimately show ?case by (simp add: store_Cons flip: m' del: upt_Suc map_eq_conv)
qed simp

lemma memcpy_store: "d \<le> s \<or> s + n \<le> d \<Longrightarrow> memcpy m d s n = store m d (map m [s..<s + n])"
  by (simp add: memcpy_def memory_copy_loop_store)

lemma map_bytes: "bytes m s xs \<Longrightarrow> map m [s..<s + length xs] = xs"
  by (auto simp: bytes_nth intro: nth_equalityI)

lemma memcpy_bytes:
  "bytes m s xs \<Longrightarrow> d \<le> s \<or> s + length xs \<le> d \<Longrightarrow> memcpy m d s (length xs) = store m d xs"
  by (simp add: memcpy_store map_bytes)

lemma memmove_up_store:
  "d < s \<Longrightarrow> i \<le> len \<Longrightarrow> memmove_up m d s len i = store m (d + i) (map m [s + i..<s + len])"
proof (induction "len - i" arbitrary: m i)
  case 0
  then show ?case by (subst memmove_up.simps) auto
next
  case (Suc k)
  let ?m = "m(d + i := m (s + i))"
  from Suc.hyps(2) have i: "i < len" by simp
  have "map ?m [s + Suc i..<s + len] = map m [s + Suc i..<s + len]"
    using Suc.prems by auto
  moreover have "[s + i..<s + len] = (s + i) # [s + Suc i..<s + len]"
    using i by (simp add: upt_conv_Cons)
  ultimately show ?case
    using i Suc.prems Suc.hyps(1) [of "Suc i" ?m] Suc.hyps(2)
    by (subst memmove_up.simps) (simp add: store_Cons del: upt_Suc)
qed

lemma memmove_down_store:
  "s < d \<Longrightarrow> memmove_down m d s n = store m d (map m [s..<s + n])"
proof (induction n arbitrary: m)
  case (Suc n)
  have "map (m(d + n := m (s + n))) [s..<s + n] = map m [s..<s + n]"
    using Suc.prems by auto
  with Suc show ?case by (simp add: store_snoc)
qed simp

lemma memmove_store: "memmove m d s n = store m d (map m [s..<s + n])"
proof -
  consider "d < s" | "d = s" | "s < d" by linarith
  then show ?thesis
  proof cases
    case 2
    have "store m s (map m [s..<s + n]) = m" by (auto simp: store_def fun_eq_iff)
    with 2 show ?thesis by (simp add: memmove_def)
  qed (simp_all add: memmove_def memmove_up_store memmove_down_store)
qed

lemma copy_until_nul_store:
  "cstr m s xs \<Longrightarrow> d \<le> s \<or> s + length xs < d \<Longrightarrow>
   copy_until_nul m d s = Some (store m d (xs @ [NUL]), d + length xs)"
proof (induction xs arbitrary: m d s)
  case Nil
  then show ?case by (subst copy_until_nul.simps) (simp add: store_Cons)
next
  case (Cons x xs)
  define m' where m': "m' = m(d := x)"
  have "cstr m' (Suc s) xs"
    using Cons.prems by (subst cstr_cong [of _ _ m]) (auto simp: m' unchanged_def)
  then have "copy_until_nul m' (Suc d) (Suc s) = Some (store m' (Suc d) (xs @ [NUL]), Suc d + length xs)"
    using Cons.prems(2) by (intro Cons.IH) auto
  with Cons.prems show ?case
    by (subst copy_until_nul.simps) (simp add: store_Cons m')
qed

lemma strcpy_store:
  "cstr m s xs \<Longrightarrow> d \<le> s \<or> s + length xs < d \<Longrightarrow> strcpy m d s = Some (store m d (xs @ [NUL]))"
  by (simp add: strcpy_def copy_until_nul_store)

lemma stpcpy_store:
  "cstr m s xs \<Longrightarrow> d \<le> s \<or> s + length xs < d \<Longrightarrow>
   stpcpy m d s = Some (store m d (xs @ [NUL]), d + length xs)"
  by (simp add: stpcpy_def copy_until_nul_store)

lemma cstr_store_append:
  "cstr m d xs \<Longrightarrow> NUL \<notin> set ys \<Longrightarrow> cstr (store m (d + length xs) (ys @ [NUL])) d (xs @ ys)"
  by (auto simp: cstr_iff bytes_nth nth_append store_def)

lemma strcat_store:
  "cstr m d xs \<Longrightarrow> cstr m s ys \<Longrightarrow> d + length xs \<le> s \<or> s + length ys < d + length xs \<Longrightarrow>
   strcat m d s = Some (store m (d + length xs) (ys @ [NUL]))"
  by (simp add: strcat_def copy_until_nul_store)

lemma strncpy_loop_store:
  "cstr m (s + i) xs \<Longrightarrow> d + i \<le> s + i \<or> s + i + length xs < d + i \<Longrightarrow>
   strncpy_loop m d s n i = store m (d + i) (take (nat (n - 1 - int i)) xs @ [NUL])"
proof (induction xs arbitrary: m i)
  case Nil
  then show ?case by (subst strncpy_loop.simps) (simp add: store_Cons)
next
  case (Cons x xs)
  define m' where m': "m' = m(d + i := x)"
  have "cstr m' (s + Suc i) xs"
    using Cons.prems by (subst cstr_cong [of _ _ m]) (auto simp: m' unchanged_def)
  then have "strncpy_loop m' d s n (Suc i) = store m' (d + Suc i) (take (nat (n - 1 - int (Suc i))) xs @ [NUL])"
    using Cons.prems(2) by (intro Cons.IH) auto
  moreover have "nat (n - 1 - int i) = Suc (nat (n - 1 - int (Suc i)))" if "int i < n - 1"
    using that by simp
  ultimately show ?case
    using Cons.prems by (subst strncpy_loop.simps) (auto simp: store_Cons m')
qed

lemma strncpy_store:
  "cstr m s xs \<Longrightarrow> d \<le> s \<or> s + length xs < d \<Longrightarrow>
   strncpy m d s n = store m d (take (nat (n - 1)) xs @ [NUL])"
  using strncpy_loop_store [of m s 0 xs d n] by (simp add: strncpy_def)

lemma find_end_str [simp]: "cstr m d xs \<Longrightarrow> find_end m d = Some (d + length xs)"
proof (induction xs arbitrary: d)
  case (Cons x xs)
  then show ?case using Cons.IH [of "Suc d"] by (subst find_end.simps) auto
qed (simp add: find_end.simps)

lemma strncat_copy_store:
  "cstr m s xs \<Longrightarrow> d \<le> s \<or> s + length xs < d \<Longrightarrow>
   strncat_copy m d s n = store m d (take n xs @ [NUL])"
proof (induction n arbitrary: m d s xs)
  case (Suc n)
  show ?case
  proof (cases xs)
    case (Cons x xs')
    define m' where m': "m' = m(d := x)"
    have "cstr m' (Suc s) xs'"
      using Suc.prems Cons by (subst cstr_cong [of _ _ m]) (auto simp: m' unchanged_def)
    then have "strncat_copy m' (Suc d) (Suc s) n = store m' (Suc d) (take n xs' @ [NUL])"
      using Suc.prems(2) Cons by (intro Suc.IH) auto
    with Suc.prems Cons show ?thesis by (simp add: store_Cons m')
  qed (use Suc.prems in \<open>simp add: store_Cons\<close>)
qed (simp add: store_Cons)

lemma strncat_store:
  "cstr m d xs \<Longrightarrow> cstr m s ys \<Longrightarrow> d + length xs \<le> s \<or> s + length ys < d + length xs \<Longrightarrow>
   strncat m d s n = Some (store m (d + length xs) (take n ys @ [NUL]))"
  by (simp add: strncat_def strncat_copy_store)

lemma strxfrm_store:
  assumes "cstr m s xs" "d \<le> s \<or> s + length xs \<le> d"
  shows "strxfrm m d s n =
    Some (if n = 0 then m else store m d (take (n - 1) xs @ [NUL]), length xs)"
proof -
  have b: "bytes m s (take c xs)" for c
    using assms(1) by (auto simp: cstr_iff bytes_nth)
  have *: "memcpy m d s c = store m d (take c xs)" if "c \<le> length xs" for c
    using memcpy_bytes [OF b, of d c] that assms(2) by auto
  show ?thesis
    using assms(1) by (auto simp: strxfrm_def Let_def * store_snoc')
qed

end
