(* ===== verification/Cact_Token.thy ===== *)
theory Cact_Token
  imports Cact_String_Lemmas
begin

text \<open>
  The tokenisers of \<open>src/string.c\<close>: \<open>strtok_r\<close>, \<open>strtok\<close> and \<open>strsep\<close>. They cut the string in
  place by storing terminators, and keep their position in a caller's pointer. The
  theorems run them until they return the null pointer and compare the pieces found in
  the final memory with a split of the original contents.
\<close>

section \<open>Definitions\<close>

text \<open>The two scanning loops of \<open>strtok_r\<close>: over delimiters, and up to the next one.\<close>

partial_function (option) skip_delims :: "mem \<Rightarrow> nat \<Rightarrow> nat \<Rightarrow> nat option" where
  "skip_delims m delim s =
     (if m s \<noteq> NUL then
        (case strchr m delim (schar (m s)) of
           None \<Rightarrow> None
         | Some r \<Rightarrow> if r \<noteq> 0 then skip_delims m delim (s + 1) else Some s)
      else Some s)"

partial_function (option) find_delim :: "mem \<Rightarrow> nat \<Rightarrow> nat \<Rightarrow> nat option" where
  "find_delim m delim s =
     (if m s \<noteq> NUL then
        (case strchr m delim (schar (m s)) of
           None \<Rightarrow> None
         | Some r \<Rightarrow> if r = 0 then find_delim m delim (s + 1) else Some s)
      else Some s)"

text \<open>The result is the new memory, the token and the new value of \<open>*saveptr\<close>.\<close>

definition strtok_r :: "mem \<Rightarrow> nat \<Rightarrow> nat \<Rightarrow> nat \<Rightarrow> (mem \<times> nat \<times> nat) option" where
  "strtok_r m str delim saveptr =
     (let s = (if str \<noteq> 0 then str else saveptr) in
      if s = 0 then Some (m, 0, saveptr)
      else case skip_delims m delim s of
        None \<Rightarrow> None
      | Some tok \<Rightarrow>
          if m tok = NUL then Some (m, 0, 0)
          else (case find_delim m delim tok of
                  None \<Rightarrow> None
                | Some e \<Rightarrow> if m e \<noteq> NUL then Some (m(e := NUL), tok, e + 1) else Some (m, tok, 0)))"

text \<open>\<open>strtok\<close> keeps the pointer in a static variable \<open>save\<close>.\<close>

definition strtok :: "mem \<Rightarrow> nat \<Rightarrow> nat \<Rightarrow> nat \<Rightarrow> (mem \<times> nat \<times> nat) option" where
  "strtok m save str delim = strtok_r m str delim save"

partial_function (option) strsep_loop :: "mem \<Rightarrow> nat \<Rightarrow> nat \<Rightarrow> nat \<Rightarrow> (mem \<times> nat \<times> nat) option" where
  "strsep_loop m delim tok p =
     (if m p \<noteq> NUL then
        (case strchr m delim (schar (m p)) of
           None \<Rightarrow> None
         | Some r \<Rightarrow> if r \<noteq> 0 then Some (m(p := NUL), tok, p + 1) else strsep_loop m delim tok (p + 1))
      else Some (m, tok, 0))"

definition strsep :: "mem \<Rightarrow> nat \<Rightarrow> nat \<Rightarrow> (mem \<times> nat \<times> nat) option" where
  "strsep m stringp delim =
     (if stringp = 0 then Some (m, 0, stringp) else strsep_loop m delim stringp stringp)"

text \<open>A caller that collects every token: the first call passes the string, the others the null
  pointer, until a null token comes back.\<close>

fun strtok_all :: "nat \<Rightarrow> mem \<Rightarrow> nat \<Rightarrow> nat \<Rightarrow> nat \<Rightarrow> (mem \<times> nat list) option" where
  "strtok_all 0 m str delim save = None"
| "strtok_all (Suc fuel) m str delim save =
     (case strtok_r m str delim save of
        None \<Rightarrow> None
      | Some (m', tok, save') \<Rightarrow>
          if tok = 0 then Some (m', [])
          else map_option (\<lambda>(m'', ts). (m'', tok # ts)) (strtok_all fuel m' 0 delim save'))"

fun strsep_all :: "nat \<Rightarrow> mem \<Rightarrow> nat \<Rightarrow> nat \<Rightarrow> (mem \<times> nat list) option" where
  "strsep_all 0 m stringp delim = None"
| "strsep_all (Suc fuel) m stringp delim =
     (case strsep m stringp delim of
        None \<Rightarrow> None
      | Some (m', tok, stringp') \<Rightarrow>
          if tok = 0 then Some (m', [])
          else map_option (\<lambda>(m'', ts). (m'', tok # ts)) (strsep_all fuel m' stringp' delim))"

section \<open>The scanning loops\<close>

lemma skip_delims_str:
  "cstr m s xs \<Longrightarrow> cstr m delim ds \<Longrightarrow> delim \<noteq> 0 \<Longrightarrow>
   skip_delims m delim s = Some (s + length (takeWhile (\<lambda>x. x \<in> set ds) xs))"
proof (induction xs arbitrary: s)
  case (Cons x xs)
  then show ?case using Cons.IH [of "Suc s"]
    by (subst skip_delims.simps) (auto simp: strchr_str)
qed (simp add: skip_delims.simps)

lemma find_delim_str:
  "cstr m s xs \<Longrightarrow> cstr m delim ds \<Longrightarrow> delim \<noteq> 0 \<Longrightarrow>
   find_delim m delim s = Some (s + length (takeWhile (\<lambda>x. x \<notin> set ds) xs))"
proof (induction xs arbitrary: s)
  case (Cons x xs)
  then show ?case using Cons.IH [of "Suc s"]
    by (subst find_delim.simps) (auto simp: strchr_str)
qed (simp add: find_delim.simps)

lemma strsep_loop_str:
  "cstr m p xs \<Longrightarrow> cstr m delim ds \<Longrightarrow> delim \<noteq> 0 \<Longrightarrow>
   strsep_loop m delim tok p =
     (let e = p + length (takeWhile (\<lambda>x. x \<notin> set ds) xs)
      in if dropWhile (\<lambda>x. x \<notin> set ds) xs = [] then Some (m, tok, 0) else Some (m(e := NUL), tok, e + 1))"
proof (induction xs arbitrary: p)
  case (Cons x xs)
  then show ?case using Cons.IH [of "Suc p"]
    by (subst strsep_loop.simps) (auto simp: strchr_str)
qed (simp add: strsep_loop.simps)

section \<open>Whole runs\<close>

text \<open>The maximal runs of characters outside \<open>D\<close>, and the fields between single characters of \<open>D\<close>.\<close>

function tokens :: "char set \<Rightarrow> string \<Rightarrow> string list" where
  "tokens D xs =
     (case dropWhile (\<lambda>x. x \<in> D) xs of
        [] \<Rightarrow> []
      | y # ys \<Rightarrow> (y # takeWhile (\<lambda>x. x \<notin> D) ys) # tokens D (dropWhile (\<lambda>x. x \<notin> D) ys))"
  by pat_completeness auto
termination
proof (relation "measure (\<lambda>(D, xs). length xs)")
  fix D :: "char set" and xs y ys
  assume "dropWhile (\<lambda>x. x \<in> D) xs = y # ys"
  then have "length (y # ys) \<le> length xs" by (metis length_dropWhile_le)
  moreover have "length (dropWhile (\<lambda>x. x \<notin> D) ys) \<le> length ys" by (rule length_dropWhile_le)
  ultimately show "((D, dropWhile (\<lambda>x. x \<notin> D) ys), (D, xs)) \<in> measure (\<lambda>(D, xs). length xs)" by simp
qed simp

declare tokens.simps [simp del]

function fields :: "char set \<Rightarrow> string \<Rightarrow> string list" where
  "fields D xs =
     (case dropWhile (\<lambda>x. x \<notin> D) xs of
        [] \<Rightarrow> [xs]
      | y # ys \<Rightarrow> takeWhile (\<lambda>x. x \<notin> D) xs # fields D ys)"
  by pat_completeness auto
termination
proof (relation "measure (\<lambda>(D, xs). length xs)")
  fix D :: "char set" and xs y ys
  assume "dropWhile (\<lambda>x. x \<notin> D) xs = y # ys"
  then have "length (y # ys) \<le> length xs" by (metis length_dropWhile_le)
  then show "((D, ys), (D, xs)) \<in> measure (\<lambda>(D, xs). length xs)" by simp
qed simp

declare fields.simps [simp del]

lemma cstr_dropWhile:
  "cstr m s xs \<Longrightarrow> cstr m (s + length (takeWhile P xs)) (dropWhile P xs)"
  using cstr_drop [of m s xs "length (takeWhile P xs)"] length_takeWhile_le [of P xs]
  by (simp add: dropWhile_eq_drop)

lemma cstr_hd: "cstr m s (y # ys) \<Longrightarrow> m s = y \<and> y \<noteq> NUL"
  by simp

text \<open>Cutting a string at the character that follows a prefix leaves that prefix.\<close>

lemma cstr_cut:
  "cstr m s (as @ b # bs) \<Longrightarrow> cstr (m(s + length as := NUL)) s as"
  by (auto simp: cstr_iff bytes_nth nth_append)

lemma cstr_append: "cstr m s (as @ bs) \<Longrightarrow> cstr m (s + length as) bs"
  using cstr_drop [of m s "as @ bs" "length as"] by simp

lemma strtok_r_step:
  assumes "cstr m s xs" "cstr m delim ds" "delim \<noteq> 0" "s \<noteq> 0"
    and s: "s = (if str \<noteq> 0 then str else save)"
  shows "strtok_r m str delim save =
    (let tok = s + length (takeWhile (\<lambda>x. x \<in> set ds) xs) in
     case dropWhile (\<lambda>x. x \<in> set ds) xs of
       [] \<Rightarrow> Some (m, 0, 0)
     | y # ys \<Rightarrow>
         let e = tok + Suc (length (takeWhile (\<lambda>x. x \<notin> set ds) ys))
         in if dropWhile (\<lambda>x. x \<notin> set ds) ys = [] then Some (m, tok, 0)
            else Some (m(e := NUL), tok, e + 1))"
proof -
  let ?tok = "s + length (takeWhile (\<lambda>x. x \<in> set ds) xs)"
  have sk: "skip_delims m delim s = Some ?tok"
    by (rule skip_delims_str [OF assms(1-3)])
  have tk: "cstr m ?tok (dropWhile (\<lambda>x. x \<in> set ds) xs)"
    by (rule cstr_dropWhile [OF assms(1)])
  show ?thesis
  proof (cases "dropWhile (\<lambda>x. x \<in> set ds) xs")
    case Nil
    with tk sk \<open>s \<noteq> 0\<close> show ?thesis
      unfolding strtok_r_def s [symmetric] Let_def by (simp del: dropWhile_eq_Nil_conv)
  next
    case (Cons y ys)
    then have y: "y \<notin> set ds" using hd_dropWhile [of "\<lambda>x. x \<in> set ds" xs] by simp
    let ?e = "?tok + Suc (length (takeWhile (\<lambda>x. x \<notin> set ds) ys))"
    have fd: "find_delim m delim ?tok = Some ?e"
      using find_delim_str [OF tk assms(2,3)] Cons y by simp
    have e: "cstr m ?e (dropWhile (\<lambda>x. x \<notin> set ds) ys)"
      using cstr_dropWhile [OF tk, of "\<lambda>x. x \<notin> set ds"] Cons y by simp
    have "m ?e = NUL \<longleftrightarrow> dropWhile (\<lambda>x. x \<notin> set ds) ys = []"
      using e by (cases "dropWhile (\<lambda>x. x \<notin> set ds) ys") auto
    moreover have "m ?tok \<noteq> NUL" using tk Cons by auto
    ultimately show ?thesis
      using Cons sk fd \<open>s \<noteq> 0\<close>
      unfolding strtok_r_def s [symmetric] Let_def by (simp del: dropWhile_eq_Nil_conv)
  qed
qed

lemma strtok_all_tokens:
  assumes "cstr m s xs" "cstr m delim ds" "delim \<noteq> 0" "s \<noteq> 0"
    and "s = (if str \<noteq> 0 then str else save)"
    and "{s..s + length xs} \<inter> {delim..delim + length ds} = {}"
    and "length xs + 1 < fuel"
  shows "\<exists>m' ps. strtok_all fuel m str delim save = Some (m', ps) \<and>
     list_all2 (cstr m') ps (tokens (set ds) xs) \<and> unchanged (- {s..s + length xs}) m m'"
  using assms
proof (induction "length xs" arbitrary: m s xs str save fuel rule: less_induct)
  case less
  obtain fuel' where f: "fuel = Suc fuel'" "length xs < fuel'" using less.prems(7) by (cases fuel) auto
  let ?D = "set ds"
  let ?tok = "s + length (takeWhile (\<lambda>x. x \<in> ?D) xs)"
  note step = strtok_r_step [OF less.prems(1-5)]
  show ?case
  proof (cases "dropWhile (\<lambda>x. x \<in> ?D) xs")
    case Nil
    with step f show ?thesis by (simp add: tokens.simps del: dropWhile_eq_Nil_conv)
  next
    case (Cons y ys)
    let ?t = "y # takeWhile (\<lambda>x. x \<notin> ?D) ys"
    have tokstr: "cstr m ?tok (y # ys)" using cstr_dropWhile [OF less.prems(1)] Cons by metis
    have len: "length (takeWhile (\<lambda>x. x \<in> ?D) xs) + Suc (length ys) = length xs"
      using takeWhile_dropWhile_id [of "\<lambda>x. x \<in> ?D" xs] Cons
      by (metis length_append length_Cons)
    have tok0: "?tok \<noteq> 0" using less.prems(4) by simp
    show ?thesis
    proof (cases "dropWhile (\<lambda>x. x \<notin> ?D) ys")
      case Nil
      then have tw: "takeWhile (\<lambda>x. x \<notin> ?D) ys = ys" by (simp add: dropWhile_eq_Nil_conv)
      obtain fuel'' where "fuel' = Suc fuel''" using f(2) by (cases fuel') auto
      with step Cons Nil f tok0 have "strtok_all fuel m str delim save = Some (m, [?tok])"
        by (simp add: strtok_r_def [of m 0])
      moreover have "tokens ?D xs = [y # ys]"
        using Cons Nil tw
        by (simp add: tokens.simps [of _ xs] tokens.simps [of _ "[]"] del: dropWhile_eq_Nil_conv)
      ultimately show ?thesis using tokstr by auto
    next
      case (Cons z zs)
      let ?e = "?tok + Suc (length (takeWhile (\<lambda>x. x \<notin> ?D) ys))"
      define m1 where m1: "m1 = m(?e := NUL)"
      have spl: "ys = takeWhile (\<lambda>x. x \<notin> ?D) ys @ z # zs"
        using takeWhile_dropWhile_id [of "\<lambda>x. x \<notin> ?D" ys] Cons by simp
      have z: "z \<in> ?D" using hd_dropWhile [of "\<lambda>x. x \<notin> ?D" ys] Cons by simp
      have len2: "length (takeWhile (\<lambda>x. x \<notin> ?D) ys) + Suc (length zs) = length ys"
        using spl by (metis length_append length_Cons)
      have whole: "cstr m ?tok (?t @ z # zs)" using tokstr spl by simp
      then have cut: "cstr m1 ?tok ?t" using cstr_cut [of m ?tok ?t z zs] by (simp add: m1)
      have "cstr m (?tok + length (?t @ [z])) zs"
        by (rule cstr_append) (use whole in simp)
      then have rest: "cstr m1 (?e + 1) zs"
        by (subst cstr_cong [of _ _ m]) (auto simp: m1 unchanged_def)
      have dl: "cstr m1 delim ds"
        using less.prems(2,6) len len2 by (subst cstr_cong [of _ _ m]) (auto simp: m1 unchanged_def)
      have "\<exists>m' ps. strtok_all fuel' m1 0 delim (?e + 1) = Some (m', ps) \<and>
         list_all2 (cstr m') ps (tokens ?D zs) \<and> unchanged (- {?e + 1..?e + 1 + length zs}) m1 m'"
        using less.prems(3,6) f(2) len len2 by (intro less.hyps [OF _ rest dl]) auto
      then obtain m' ps where r: "strtok_all fuel' m1 0 delim (?e + 1) = Some (m', ps)"
        "list_all2 (cstr m') ps (tokens ?D zs)" "unchanged (- {?e + 1..?e + 1 + length zs}) m1 m'"
        by blast
      have "strtok_all fuel m str delim save = Some (m', ?tok # ps)"
        using step \<open>dropWhile (\<lambda>x. x \<in> ?D) xs = y # ys\<close> Cons f tok0 r(1)
        by (simp add: m1 Let_def del: dropWhile_eq_Nil_conv)
      moreover have "tokens ?D xs = ?t # tokens ?D zs"
        using \<open>dropWhile (\<lambda>x. x \<in> ?D) xs = y # ys\<close> Cons z
        by (simp add: tokens.simps [of _ xs] tokens.simps [of _ "z # zs"] tokens.simps [of _ zs])
      moreover have "cstr m' ?tok ?t"
        using cut r(3) by (subst cstr_cong [of _ _ m1]) (auto elim!: unchanged_mono)
      moreover have "unchanged (- {s..s + length xs}) m m'"
        using r(3) len len2 by (auto simp: m1 unchanged_def)
      ultimately show ?thesis using r(2) by auto
    qed
  qed
qed

lemma strsep_all_fields:
  assumes "cstr m s xs" "cstr m delim ds" "delim \<noteq> 0" "s \<noteq> 0"
    and "{s..s + length xs} \<inter> {delim..delim + length ds} = {}"
    and "length xs + 1 < fuel"
  shows "\<exists>m' ps. strsep_all fuel m s delim = Some (m', ps) \<and>
     list_all2 (cstr m') ps (fields (set ds) xs) \<and> unchanged (- {s..s + length xs}) m m'"
  using assms
proof (induction "length xs" arbitrary: m s xs fuel rule: less_induct)
  case less
  obtain fuel' where f: "fuel = Suc fuel'" "length xs < fuel'" using less.prems(6) by (cases fuel) auto
  let ?D = "set ds" and ?t = "takeWhile (\<lambda>x. x \<notin> set ds) xs"
  note step = strsep_loop_str [OF less.prems(1-3), of s]
  show ?case
  proof (cases "dropWhile (\<lambda>x. x \<notin> ?D) xs")
    case Nil
    obtain fuel'' where "fuel' = Suc fuel''" using f(2) by (cases fuel') auto
    with step Nil f less.prems(1,4) show ?thesis
      by (simp add: strsep_def fields.simps [of _ xs] del: dropWhile_eq_Nil_conv)
  next
    case (Cons z zs)
    let ?e = "s + length ?t"
    define m1 where m1: "m1 = m(?e := NUL)"
    have spl: "xs = ?t @ z # zs"
      using takeWhile_dropWhile_id [of "\<lambda>x. x \<notin> ?D" xs] Cons by simp
    have len: "length ?t + Suc (length zs) = length xs"
      using spl by (metis length_append length_Cons)
    have whole: "cstr m s (?t @ z # zs)" using less.prems(1) spl by (simp only: flip: spl)
    have cut: "cstr m1 s ?t" using cstr_cut [OF whole] by (simp add: m1)
    have "cstr m (s + length (?t @ [z])) zs"
      by (rule cstr_append) (use whole in simp)
    then have rest: "cstr m1 (?e + 1) zs"
      by (subst cstr_cong [of _ _ m]) (auto simp: m1 unchanged_def)
    have dl: "cstr m1 delim ds"
      using less.prems(2,5) len by (subst cstr_cong [of _ _ m]) (auto simp: m1 unchanged_def)
    have "\<exists>m' ps. strsep_all fuel' m1 (?e + 1) delim = Some (m', ps) \<and>
       list_all2 (cstr m') ps (fields ?D zs) \<and> unchanged (- {?e + 1..?e + 1 + length zs}) m1 m'"
      using less.prems(3,5) f(2) len by (intro less.hyps [OF _ rest dl]) auto
    then obtain m' ps where r: "strsep_all fuel' m1 (?e + 1) delim = Some (m', ps)"
      "list_all2 (cstr m') ps (fields ?D zs)" "unchanged (- {?e + 1..?e + 1 + length zs}) m1 m'"
      by blast
    have "strsep_all fuel m s delim = Some (m', s # ps)"
      using step Cons f less.prems(4) r(1) by (simp add: strsep_def m1 Let_def)
    moreover have "fields ?D xs = ?t # fields ?D zs"
      using Cons by (simp add: fields.simps [of _ xs])
    moreover have "cstr m' s ?t"
      using cut r(3) by (subst cstr_cong [of _ _ m1]) (auto elim!: unchanged_mono)
    moreover have "unchanged (- {s..s + length xs}) m m'"
      using r(3) len by (auto simp: m1 unchanged_def)
    ultimately show ?thesis using r(2) by auto
  qed
qed

end
