(* ===== verification/Cact_Strnum.thy ===== *)
theory Cact_Strnum
  imports Cact_String_Lemmas
begin

text \<open>
  The number conversions and bounded appends of \<open>src/string.c\<close>: \<open>itoa\<close>, \<open>atoi\<close>,
  \<open>hex_to_ascii\<close>, \<open>buf_append\<close> and \<open>buf_append_int\<close>.
\<close>

section \<open>Definitions\<close>

subsection \<open>itoa and atoi\<close>

function itoa_digits :: "mem \<Rightarrow> nat \<Rightarrow> int \<Rightarrow> nat \<Rightarrow> mem \<times> nat" where
  "itoa_digits m str n i =
     (let m' = m(str + i := char_of (n smod 10 + 48)) in
      if n sdiv 10 > 0 then itoa_digits m' str (n sdiv 10) (i + 1) else (m', i + 1))"
  by pat_completeness auto
termination
proof (relation "measure (\<lambda>(m, str, n, i). nat n)")
  fix n :: int assume n: "0 < n sdiv 10"
  then have "0 < n" by (simp add: signed_divide_int_def sgn_if split: if_splits)
  with n show "((m', str, n sdiv 10, i'), (m, str, n, i)) \<in> measure (\<lambda>(m, str, n, i). nat n)"
    for m m' :: mem and str i i' :: nat
    by (simp add: signed_divide_int_def)
qed simp

declare itoa_digits.simps [simp del]

function reverse_loop :: "mem \<Rightarrow> nat \<Rightarrow> nat \<Rightarrow> nat \<Rightarrow> mem" where
  "reverse_loop m str j k =
     (if j < k
      then let temp = m (str + j)
           in reverse_loop (m(str + j := m (str + k), str + k := temp)) str (j + 1) (k - 1)
      else m)"
  by pat_completeness auto
termination by (relation "measure (\<lambda>(m, str, j, k). k - j)") auto

declare reverse_loop.simps [simp del]

definition itoa :: "mem \<Rightarrow> int \<Rightarrow> nat \<Rightarrow> mem" where
  "itoa m n str =
     (let sign = n;
          n1 = (if sign < 0 then s32 (- n) else n);
          (m1, i1) = itoa_digits m str n1 0;
          (m2, i2) = (if sign < 0 then (m1(str + i1 := CHR ''-''), i1 + 1) else (m1, i1));
          m3 = m2(str + i2 := NUL)
      in reverse_loop m3 str 0 (i2 - 1))"

partial_function (option) atoi_loop :: "mem \<Rightarrow> nat \<Rightarrow> nat \<Rightarrow> int \<Rightarrow> int option" where
  "atoi_loop m str i res =
     (if m (str + i) \<noteq> NUL then
        (if schar (m (str + i)) < 48 \<or> schar (m (str + i)) > 57 then Some res
         else atoi_loop m str (i + 1) (s32 (res * 10 + schar (m (str + i)) - 48)))
      else Some res)"

definition atoi :: "mem \<Rightarrow> nat \<Rightarrow> int option" where
  "atoi m str =
     (let sign = (if m str = CHR ''-'' then -1 else 1);
          i = (if m str = CHR ''-'' then 1 else 0)
      in map_option (\<lambda>res. s32 (sign * res)) (atoi_loop m str i 0))"

subsection \<open>hex_to_ascii\<close>

definition hex_nibble :: "nat \<Rightarrow> char" where
  "hex_nibble nibble = (if nibble < 10 then char_of (int nibble + 48) else char_of (int nibble - 10 + 65))"

fun hex_loop :: "mem \<Rightarrow> nat \<Rightarrow> nat \<Rightarrow> nat \<Rightarrow> mem" where
  "hex_loop m str n 0 = m"
| "hex_loop m str n (Suc i) =
     hex_loop (m(str + (9 - i) := hex_nibble (take_bit 4 (drop_bit (i * 4) n)))) str n i"

definition hex_to_ascii :: "mem \<Rightarrow> nat \<Rightarrow> nat \<Rightarrow> mem" where
  "hex_to_ascii m n str =
     (hex_loop (m(str := CHR ''0'', str + 1 := CHR ''x'')) str n 8)(str + 10 := NUL)"

subsection \<open>buf_append\<close>

function buf_append :: "mem \<Rightarrow> nat \<Rightarrow> int \<Rightarrow> int \<Rightarrow> nat \<Rightarrow> mem \<times> int" where
  "buf_append m buf pos mx s =
     (if m s \<noteq> NUL \<and> pos < mx - 1
      then buf_append (m(buf + nat pos := m s)) buf (pos + 1) mx (s + 1)
      else (m(buf + nat pos := NUL), pos))"
  by pat_completeness auto
termination by (relation "measure (\<lambda>(m, buf, pos, mx, s). nat (mx - pos))") auto

declare buf_append.simps [simp del]

text \<open>\<open>tmp\<close> is the address of the 32-byte stack buffer of \<open>buf_append_int\<close>.\<close>

definition buf_append_int :: "mem \<Rightarrow> nat \<Rightarrow> nat \<Rightarrow> int \<Rightarrow> int \<Rightarrow> int \<Rightarrow> mem \<times> int" where
  "buf_append_int m tmp buf pos mx n = buf_append (itoa m n tmp) buf pos mx tmp"

section \<open>Properties\<close>

subsection \<open>itoa\<close>

definition sdec :: "int \<Rightarrow> string" where
  "sdec n = (if n < 0 then CHR ''-'' # dec (nat (- n)) else dec (nat n))"

lemma itoa_digits_store:
  "itoa_digits m str (int k) i = (store m (str + i) (rev (dec k)), i + length (dec k))"
proof (induction k arbitrary: m i rule: dec.induct)
  case (1 k)
  have q: "int k sdiv 10 = int (k div 10)" and r: "int k smod 10 = int (k mod 10)"
    by (cases "k = 0"; simp add: signed_divide_int_def signed_modulo_int_def zdiv_int zmod_int
        minus_mult_div_eq_mod [symmetric])+
  define m' where m': "m' = m(str + i := digit_char (k mod 10))"
  have d: "char_of (int k smod 10 + 48) = digit_char (k mod 10)"
    by (simp add: r digit_char_def add.commute)
  show ?case
  proof (cases "k < 10")
    case True
    then show ?thesis
      by (subst itoa_digits.simps) (simp add: q d Let_def dec.simps [of k] store_Cons)
  next
    case False
    then have "0 < k div 10" by (simp add: div_greater_zero_iff)
    with "1.IH" [OF False, of m' "Suc i"] False show ?thesis
      by (subst itoa_digits.simps) (simp add: q d Let_def dec.simps [of k] store_Cons flip: m')
  qed
qed

lemma store_upd_inside:
  "i < length xs \<Longrightarrow> (store m p xs)(p + i := c) = store m p (xs[i := c])"
  by (auto simp: store_def fun_eq_iff)

lemma reverse_loop_store:
  "reverse_loop (store m p (as @ ms @ bs)) p (length as) (length as + length ms - 1) =
   store m p (as @ rev ms @ bs)"
proof (induction "length ms" arbitrary: as ms bs rule: less_induct)
  case less
  show ?case
  proof (cases "length ms < 2")
    case True
    then have "rev ms = ms" by (cases ms) auto
    with True show ?thesis by (subst reverse_loop.simps) auto
  next
    case False
    then obtain x ms1 where "ms = x # ms1" "ms1 \<noteq> []" by (cases ms) auto
    then obtain ms' y where ms: "ms = x # ms' @ [y]" by (cases ms1 rule: rev_cases) auto
    let ?j = "length as" and ?k = "length as + length ms - 1"
    let ?M = "store m p (as @ ms @ bs)"
    have vals: "?M (p + ?j) = x" "?M (p + ?k) = y"
      by (simp_all add: ms store_def nth_append)
    have upd: "?M(p + ?j := y, p + ?k := x) = store m p ((as @ [y]) @ ms' @ (x # bs))"
    proof -
      have "?M(p + ?j := y, p + ?k := x) = store m p ((as @ ms @ bs)[?j := y, ?k := x])"
        by (subst store_upd_inside, simp add: ms)+ simp
      then show ?thesis by (simp add: ms list_update_append)
    qed
    have "reverse_loop ?M p ?j ?k =
        reverse_loop (?M(p + ?j := y, p + ?k := x)) p (?j + 1) (?k - 1)"
    proof -
      have "?j < ?k" by (simp add: ms)
      then show ?thesis by (subst reverse_loop.simps) (simp only: vals Let_def if_True)
    qed
    also have "\<dots> = store m p ((as @ [y]) @ rev ms' @ (x # bs))"
      unfolding upd using less.hyps [of ms' "as @ [y]" "x # bs"] ms by simp
    finally show ?thesis by (simp add: ms)
  qed
qed

lemma itoa_store:
  assumes "- 2147483648 < n" "n < 2147483648"
  shows "itoa m n str = store m str (sdec n @ [NUL])"
proof -
  have *: "reverse_loop (store m str (xs @ [NUL])) str 0 (length xs - 1) = store m str (rev xs @ [NUL])" for xs
    using reverse_loop_store [of m str "[]" xs "[NUL]"] by simp
  show ?thesis
  proof (cases "n < 0")
    case True
    let ?k = "nat (- n)"
    have "itoa_digits m str (s32 (- n)) 0 = (store m str (rev (dec ?k)), length (dec ?k))"
      using True assms itoa_digits_store [of m str ?k 0] by simp
    with True show ?thesis
      using * [of "rev (dec ?k) @ [CHR ''-'']"]
      by (simp add: itoa_def sdec_def store_append store_Cons)
  next
    case False
    then have "itoa_digits m str n 0 = (store m str (rev (dec (nat n))), length (dec (nat n)))"
      using itoa_digits_store [of m str "nat n" 0] by simp
    with False show ?thesis
      using * [of "rev (dec (nat n))"] by (simp add: itoa_def sdec_def store_append store_Cons)
  qed
qed

lemma itoa_INT_MIN: "itoa m (- 2147483648) str = store m str (''-('' @ [NUL])"
proof -
  have c: "char_of (40::int) = CHR ''(''"
    using char_of_uchar [of "CHR ''(''"] by (simp add: uchar_def)
  have "itoa_digits m str (- 2147483648) 0 = (m(str := CHR ''(''), 1)"
    by (subst itoa_digits.simps) (simp add: c)
  moreover have "s32 2147483648 = - 2147483648" by (simp add: s32_def)
  ultimately show ?thesis
    by (simp add: itoa_def reverse_loop.simps store_Cons fun_upd_twist)
qed

lemma sdec_no_NUL [simp]: "NUL \<notin> set (sdec n)"
  by (auto simp: sdec_def)

lemma cstr_itoa:
  "- 2147483648 < n \<Longrightarrow> n < 2147483648 \<Longrightarrow> cstr (itoa m n str) str (sdec n)"
  by (simp add: itoa_store cstr_store)

subsection \<open>atoi\<close>

text \<open>The value of the longest prefix of digits, from an accumulator.\<close>

fun dec_val :: "int \<Rightarrow> string \<Rightarrow> int" where
  "dec_val acc [] = acc"
| "dec_val acc (x # xs) =
     (if 48 \<le> schar x \<and> schar x \<le> 57 then dec_val (acc * 10 + schar x - 48) xs else acc)"

lemma atoi_loop_str:
  "cstr m (str + i) xs \<Longrightarrow> \<exists>r. atoi_loop m str i (s32 acc) = Some r \<and> s32 (c * r) = s32 (c * dec_val acc xs)"
proof (induction xs arbitrary: i acc)
  case Nil
  then show ?case
    using s32_mult_cong [of acc c 0] by (simp add: atoi_loop.simps mult.commute)
next
  case (Cons x xs)
  have x: "m (str + i) = x" "x \<noteq> NUL" "cstr m (str + Suc i) xs" using Cons.prems by simp_all
  show ?case
  proof (cases "48 \<le> schar x \<and> schar x \<le> 57")
    case True
    have "s32 (s32 acc * 10 + schar x - 48) = s32 (acc * 10 + schar x - 48)"
      using s32_mult_cong [of acc 10 "schar x - 48"] by (simp add: add_diff_eq)
    with True x Cons.IH [of "Suc i" "acc * 10 + schar x - 48"] show ?thesis
      by (subst atoi_loop.simps) auto
  next
    case False
    with x show ?thesis
      using s32_mult_cong [of acc c 0] by (subst atoi_loop.simps) (auto simp: mult.commute)
  qed
qed

lemma atoi_str:
  assumes "cstr m str xs"
  shows "atoi m str = Some (case xs of [] \<Rightarrow> 0
      | x # ys \<Rightarrow> if x = CHR ''-'' then s32 (- dec_val 0 ys) else s32 (dec_val 0 xs))"
proof (cases xs)
  case Nil
  with assms show ?thesis by (simp add: atoi_def atoi_loop.simps)
next
  case (Cons x ys)
  show ?thesis
  proof (cases "x = CHR ''-''")
    case True
    with assms Cons atoi_loop_str [of m str 1 ys 0 "-1"] show ?thesis
      by (auto simp: atoi_def)
  next
    case False
    with assms Cons atoi_loop_str [of m str 0 xs 0 1] show ?thesis
      by (auto simp: atoi_def)
  qed
qed

lemma dec_val_digit [simp]: "d < 10 \<Longrightarrow> dec_val acc (digit_char d # xs) = dec_val (acc * 10 + int d) xs"
  by (simp add: algebra_simps)

lemma dec_val_dec_append:
  "dec_val acc (dec n @ xs) = dec_val (acc * 10 ^ length (dec n) + int n) xs"
proof (induction n arbitrary: acc xs rule: dec.induct)
  case (1 n)
  show ?case
  proof (cases "n < 10")
    case True
    then show ?thesis by (subst (1 2) dec.simps) simp
  next
    case False
    have "int n = int (n div 10) * 10 + int (n mod 10)"
      by (metis div_mult_mod_eq of_nat_add of_nat_mult of_nat_numeral)
    with "1.IH" [OF False, of acc "digit_char (n mod 10) # xs"] False show ?thesis
      by (subst (1 2) dec.simps) (simp add: algebra_simps del: dec_val.simps)
  qed
qed

lemma dec_hd_not_minus: "dec n = x # ys \<Longrightarrow> x \<noteq> CHR ''-''"
proof
  assume "dec n = x # ys" "x = CHR ''-''"
  then obtain d where "d < 10" "CHR ''-'' = digit_char d" using dec_digits [of n] by auto
  then have "uchar CHR ''-'' = 48 + int d" by simp
  then show False by (simp add: uchar_def)
qed

lemma atoi_sdec:
  assumes "cstr m str (sdec n)" "- 2147483648 \<le> n" "n < 2147483648"
  shows "atoi m str = Some n"
proof (cases "n < 0")
  case True
  then show ?thesis
    using atoi_str [OF assms(1)] assms(2,3) dec_val_dec_append [of 0 "nat (- n)" "[]"]
    by (simp add: sdec_def)
next
  case False
  obtain x ys where d: "dec (nat n) = x # ys" by (cases "dec (nat n)") auto
  with False show ?thesis
    using atoi_str [OF assms(1)] assms(2,3) dec_val_dec_append [of 0 "nat n" "[]"]
      dec_hd_not_minus [OF d]
    by (simp add: sdec_def)
qed

subsection \<open>hex_to_ascii\<close>

definition nibble :: "nat \<Rightarrow> nat \<Rightarrow> nat" where
  "nibble n i = take_bit 4 (drop_bit (i * 4) n)"

lemma nibble_lt [simp]: "nibble n i < 16"
  using take_bit_nat_less_exp [of 4 "drop_bit (i * 4) n"] by (simp add: nibble_def)

lemma hex_loop_store:
  "k \<le> 8 \<Longrightarrow> hex_loop m str n k = store m (str + (10 - k)) (map (\<lambda>i. hex_nibble (nibble n i)) (rev [0..<k]))"
proof (induction k arbitrary: m)
  case (Suc i)
  then have "str + (10 - i) = Suc (str + (9 - i))" "str + (10 - Suc i) = str + (9 - i)" by simp_all
  with Suc show ?case by (simp add: store_Cons nibble_def)
qed simp

definition hex8 :: "nat \<Rightarrow> string" where
  "hex8 n = map (\<lambda>i. hex_nibble (nibble n i)) [7, 6, 5, 4, 3, 2, 1, 0]"

lemma hex_to_ascii_store: "hex_to_ascii m n str = store m str (''0x'' @ hex8 n @ [NUL])"
proof -
  have "rev [0..<8] = [7, 6, 5, 4, 3, 2, 1, 0 :: nat]" by (simp add: upt_rec)
  then have "hex_loop m' str n 8 = store m' (str + 2) (hex8 n)" for m'
    by (simp add: hex_loop_store hex8_def)
  moreover have "length (hex8 n) = 8" by (simp add: hex8_def)
  ultimately show ?thesis
    by (simp add: hex_to_ascii_def store_Cons store_append add.commute [of str 10])
qed

subsection \<open>buf_append\<close>

lemma buf_append_store:
  "cstr m s xs \<Longrightarrow> 0 \<le> pos \<Longrightarrow> buf + nat pos \<le> s \<or> s + length xs < buf + nat pos \<Longrightarrow>
   buf_append m buf pos mx s =
     (let ys = take (nat (mx - 1 - pos)) xs
      in (store m (buf + nat pos) (ys @ [NUL]), pos + int (length ys)))"
proof (induction xs arbitrary: m pos s)
  case Nil
  then show ?case by (subst buf_append.simps) (simp add: store_Cons)
next
  case (Cons x xs)
  define m' where m': "m' = m(buf + nat pos := x)"
  have p: "nat (pos + 1) = Suc (nat pos)" using Cons.prems(2) by simp
  have "cstr m' (Suc s) xs"
    using Cons.prems by (subst cstr_cong [of _ _ m]) (auto simp: m' unchanged_def)
  then have IH: "buf_append m' buf (pos + 1) mx (Suc s) =
     (let ys = take (nat (mx - 1 - (pos + 1))) xs
      in (store m' (buf + nat (pos + 1)) (ys @ [NUL]), pos + 1 + int (length ys)))"
    using Cons.prems(2,3) p by (intro Cons.IH) auto
  have "nat (mx - 1 - pos) = Suc (nat (mx - 1 - (pos + 1)))" if "pos < mx - 1"
    using that by simp
  with IH Cons.prems p show ?case
    by (subst buf_append.simps) (auto simp: store_Cons Let_def m')
qed

lemma buf_append_bound:
  assumes "cstr m s xs" "0 \<le> pos" "pos < mx" "buf + nat pos \<le> s \<or> s + length xs < buf + nat pos"
  shows "snd (buf_append m buf pos mx s) < mx"
    and "unchanged (- {buf + nat pos..<buf + nat mx}) m (fst (buf_append m buf pos mx s))"
    and "cstr (fst (buf_append m buf pos mx s)) (buf + nat pos) (take (nat (mx - 1 - pos)) xs)"
proof -
  let ?ys = "take (nat (mx - 1 - pos)) xs"
  have eq: "buf_append m buf pos mx s = (store m (buf + nat pos) (?ys @ [NUL]), pos + int (length ?ys))"
    using buf_append_store [OF assms(1,2,4)] by (simp add: Let_def)
  have len: "nat pos + length ?ys < nat mx" using assms(2,3) by auto
  from eq len show "snd (buf_append m buf pos mx s) < mx" using assms(2,3) by simp
  show "unchanged (- {buf + nat pos..<buf + nat mx}) m (fst (buf_append m buf pos mx s))"
    unfolding eq using len by (auto intro!: unchanged_store)
  show "cstr (fst (buf_append m buf pos mx s)) (buf + nat pos) ?ys"
    unfolding eq using cstr_no_NUL [OF assms(1)] by (auto intro!: cstr_store dest: in_set_takeD)
qed

end
