(* ===== verification/Cact_Strto.thy ===== *)
theory Cact_Strto
  imports Cact_Strnum "HOL-Library.Monad_Syntax"
begin

text \<open>
  The integer parsers of \<open>src/stdlib.c\<close>: \<open>strtoul\<close>, \<open>strtol\<close>, \<open>strtoull\<close>, \<open>strtoll\<close>, \<open>atol\<close>,
  \<open>atoll\<close>, with the position they leave in \<open>*endptr\<close>, and the small arithmetic functions
  \<open>abs\<close>, \<open>div\<close>, \<open>rand\<close>.  The parsers are shown to read a number back from its digits in any base
  from two to sixteen.
\<close>

section \<open>Definitions\<close>

partial_function (option) skip_spaces :: "mem \<Rightarrow> nat \<Rightarrow> nat option" where
  "skip_spaces m p = (if m p = CHR '' '' then skip_spaces m (p + 1) else Some p)"

text \<open>The digit tests of the parsing loops.\<close>

definition digit_value :: "char \<Rightarrow> int option" where
  "digit_value c =
     (if 48 \<le> schar c \<and> schar c \<le> 57 then Some (schar c - 48)
      else if 97 \<le> schar c \<and> schar c \<le> 102 then Some (schar c - 97 + 10)
      else if 65 \<le> schar c \<and> schar c \<le> 70 then Some (schar c - 65 + 10)
      else None)"

text \<open>The loop shared by \<open>strtoul\<close> and \<open>strtoull\<close>; \<open>M\<close> is \<open>2 ^ 32\<close> or \<open>2 ^ 64\<close>.\<close>

partial_function (option) digits_loop :: "int \<Rightarrow> mem \<Rightarrow> int \<Rightarrow> nat \<Rightarrow> int \<Rightarrow> (int \<times> nat) option" where
  "digits_loop M m base p result =
     (if m p = NUL then Some (result, p)
      else case digit_value (m p) of
        None \<Rightarrow> Some (result, p)
      | Some d \<Rightarrow> if d \<ge> base then Some (result, p)
                  else digits_loop M m base (p + 1) ((result * base + d) mod M))"

definition is_x :: "char \<Rightarrow> bool" where
  "is_x c \<longleftrightarrow> c = CHR ''x'' \<or> c = CHR ''X''"

definition strtoul :: "mem \<Rightarrow> nat \<Rightarrow> int \<Rightarrow> (int \<times> nat) option" where
  "strtoul m str base0 = do {
     p0 \<leftarrow> skip_spaces m str;
     let (base, p1) =
       (if base0 = 0
        then if m p0 = CHR ''0''
             then if is_x (m (p0 + 1)) then (16, p0 + 2) else (8, p0)
             else (10, p0)
        else (base0, p0));
     let p = (if base = 16 \<and> m p1 = CHR ''0'' \<and> is_x (m (p1 + 1)) then p1 + 2 else p1);
     digits_loop (2 ^ 32) m base p 0
   }"

definition strtoull :: "mem \<Rightarrow> nat \<Rightarrow> int \<Rightarrow> (int \<times> nat) option" where
  "strtoull m str base = do {
     p1 \<leftarrow> skip_spaces m str;
     let p = (if base = 16 \<and> m p1 = CHR ''0'' \<and> is_x (m (p1 + 1)) then p1 + 2 else p1);
     digits_loop (2 ^ 64) m base p 0
   }"

text \<open>The optional sign in front of \<open>strtol\<close> and \<open>strtoll\<close>.\<close>

definition read_sign :: "mem \<Rightarrow> nat \<Rightarrow> int \<times> nat" where
  "read_sign m p = (if m p = CHR ''-'' then (-1, p + 1) else if m p = CHR ''+'' then (1, p + 1) else (1, p))"

definition strtol :: "mem \<Rightarrow> nat \<Rightarrow> int \<Rightarrow> (int \<times> nat) option" where
  "strtol m str base = do {
     p0 \<leftarrow> skip_spaces m str;
     let (sign, p) = read_sign m p0;
     (v, e) \<leftarrow> strtoul m p base;
     Some (s32 (s32 v * sign), e)
   }"

definition s64 :: "int \<Rightarrow> int" where
  "s64 x = (x + 2 ^ 63) mod 2 ^ 64 - 2 ^ 63"

definition strtoll :: "mem \<Rightarrow> nat \<Rightarrow> int \<Rightarrow> (int \<times> nat) option" where
  "strtoll m str base = do {
     p0 \<leftarrow> skip_spaces m str;
     let (sign, p) = read_sign m p0;
     (v, e) \<leftarrow> strtoull m p base;
     Some (s64 (s64 v * sign), e)
   }"

definition atol :: "mem \<Rightarrow> nat \<Rightarrow> int option" where
  "atol m str = map_option fst (strtol m str 10)"

definition atoll :: "mem \<Rightarrow> nat \<Rightarrow> int option" where
  "atoll m str = map_option fst (strtoll m str 10)"

definition cabs :: "int \<Rightarrow> int" where
  "cabs x = (if x < 0 then s32 (- x) else x)"

definition labs :: "int \<Rightarrow> int" where
  "labs x = (if x < 0 then s32 (- x) else x)"

definition llabs :: "int \<Rightarrow> int" where
  "llabs x = (if x < 0 then s64 (- x) else x)"

text \<open>\<open>None\<close> stands for the two divisions the processor traps.\<close>

definition cdiv :: "int \<Rightarrow> int \<Rightarrow> (int \<times> int) option" where
  "cdiv numer denom =
     (if denom = 0 \<or> numer = - (2 ^ 31) \<and> denom = -1 then None else Some (numer sdiv denom, numer smod denom))"

definition cldiv :: "int \<Rightarrow> int \<Rightarrow> (int \<times> int) option" where
  "cldiv numer denom =
     (if denom = 0 \<or> numer = - (2 ^ 31) \<and> denom = -1 then None else Some (numer sdiv denom, numer smod denom))"

text \<open>\<open>rand\<close> maps its state to the new state and the number returned.\<close>

definition rand :: "int \<Rightarrow> int \<times> int" where
  "rand rand_state =
     (let s = u32 (u32 (rand_state * 1103515245) + 12345) in (s, (s div 2 ^ 16) mod 2 ^ 15))"

definition srand :: "int \<Rightarrow> int" where
  "srand seed = (if seed \<noteq> 0 then seed else 1)"

section \<open>The value of a run of digits\<close>

fun run_val :: "int \<Rightarrow> int \<Rightarrow> string \<Rightarrow> int" where
  "run_val base acc [] = acc"
| "run_val base acc (x # xs) =
     (case digit_value x of None \<Rightarrow> acc | Some d \<Rightarrow> if d \<ge> base then acc else run_val base (acc * base + d) xs)"

fun run_len :: "int \<Rightarrow> string \<Rightarrow> nat" where
  "run_len base [] = 0"
| "run_len base (x # xs) =
     (case digit_value x of None \<Rightarrow> 0 | Some d \<Rightarrow> if d \<ge> base then 0 else Suc (run_len base xs))"

lemma digits_loop_str:
  "cstr m p xs \<Longrightarrow> digits_loop M m base p (acc mod M) = Some (run_val base acc xs mod M, p + run_len base xs)"
proof (induction xs arbitrary: p acc)
  case Nil
  then show ?case by (subst digits_loop.simps) simp
next
  case (Cons x xs)
  then have x: "m p = x" "x \<noteq> NUL" "cstr m (Suc p) xs" by simp_all
  show ?case
  proof (cases "digit_value x")
    case None
    then show ?thesis using x by (subst digits_loop.simps) simp
  next
    case (Some d)
    have "(acc mod M * base + d) mod M = (acc * base + d) mod M" by (metis mod_add_left_eq mod_mult_left_eq)
    then show ?thesis using x Some Cons.IH [of "Suc p" "acc * base + d"]
      by (subst digits_loop.simps) simp
  qed
qed

lemma skip_spaces_str:
  "cstr m p xs \<Longrightarrow> skip_spaces m p = Some (p + length (takeWhile (\<lambda>c. c = CHR '' '') xs))"
proof (induction xs arbitrary: p)
  case (Cons x xs)
  then have "skip_spaces m (Suc p) = Some (Suc p + length (takeWhile (\<lambda>c. c = CHR '' '') xs))" by simp
  then show ?case using Cons.prems by (subst skip_spaces.simps) simp
qed (simp add: skip_spaces.simps)

section \<open>Printing in a base and reading back\<close>

definition dig :: "nat \<Rightarrow> char" where
  "dig d = ''0123456789abcdef'' ! d"

fun radix :: "nat \<Rightarrow> nat \<Rightarrow> string" where
  "radix b n = (if n < b \<or> b < 2 then [dig n] else radix b (n div b) @ [dig (n mod b)])"

declare radix.simps [simp del]

lemma dig_table:
  "list_all (\<lambda>d. digit_value (dig d) = Some (int d) \<and> dig d \<noteq> NUL \<and> dig d \<noteq> CHR '' '' \<and> dig d \<noteq> CHR ''-'' \<and>
     dig d \<noteq> CHR ''+'' \<and> \<not> is_x (dig d)) [0..<16]"
  by code_simp

lemma dig_props:
  assumes "d < 16"
  shows "digit_value (dig d) = Some (int d)" "dig d \<noteq> NUL" "dig d \<noteq> CHR '' ''" "dig d \<noteq> CHR ''-''"
    "dig d \<noteq> CHR ''+''" "\<not> is_x (dig d)"
  using dig_table assms by (simp_all only: list_all_iff set_upt ball_simps) (auto simp: Ball_def)

lemma radix_digits: "2 \<le> b \<Longrightarrow> b \<le> 16 \<Longrightarrow> c \<in> set (radix b n) \<Longrightarrow> \<exists>d<16. c = dig d"
proof (induction b n rule: radix.induct)
  case (1 b n)
  show ?case
  proof (cases "n < b")
    case True
    then have "radix b n = [dig n]" by (subst radix.simps) simp
    with True "1.prems" show ?thesis by (intro exI [of _ n]) simp
  next
    case False
    then have "radix b n = radix b (n div b) @ [dig (n mod b)]"
      using "1.prems"(1) by (subst radix.simps) simp
    moreover have "n mod b < b" using "1.prems"(1) by simp
    then have "n mod b < 16" using "1.prems"(2) by linarith
    ultimately consider "c \<in> set (radix b (n div b))" | "c = dig (n mod b)" using "1.prems"(3) by auto
    then show ?thesis
    proof cases
      case 1
      with "1.IH" False "1.prems" show ?thesis by simp
    next
      case 2
      with \<open>n mod b < 16\<close> show ?thesis by blast
    qed
  qed
qed

lemma radix_not_Nil [simp]: "radix b n \<noteq> []"
  by (subst radix.simps) simp

lemma radix_chars:
  assumes "2 \<le> b" "b \<le> 16"
  shows "NUL \<notin> set (radix b n)" "CHR '' '' \<notin> set (radix b n)"
    "\<exists>d xs. d < 16 \<and> radix b n = dig d # xs" "\<And>i. \<not> is_x (at (radix b n) i)"
proof -
  show "NUL \<notin> set (radix b n)" "CHR '' '' \<notin> set (radix b n)"
    using radix_digits [OF assms] dig_props(2,3) by metis+
  show "\<exists>d xs. d < 16 \<and> radix b n = dig d # xs"
    using radix_digits [OF assms, of _ n] by (cases "radix b n") auto
  fix i
  show "\<not> is_x (at (radix b n) i)"
  proof (cases "i < length (radix b n)")
    case True
    then show ?thesis using radix_digits [OF assms, of "radix b n ! i" n] dig_props(6) by (auto simp: at_def)
  qed (simp add: at_def is_x_def)
qed

lemma dec_radix: "dec n = radix 10 n"
proof (induction n rule: dec.induct)
  case (1 n)
  have "list_all (\<lambda>d. digit_char d = dig d) [0..<10]" by code_simp
  then have d: "d < 10 \<Longrightarrow> digit_char d = dig d" for d by (simp add: list_all_iff)
  show ?case using 1 d by (subst dec.simps, subst radix.simps) auto
qed

lemma run_digit:
  assumes "d < b" "b \<le> 16"
  shows "run_val (int b) acc (dig d # ys) = run_val (int b) (acc * int b + int d) ys"
    "run_len (int b) (dig d # ys) = Suc (run_len (int b) ys)"
  using dig_props(1) [of d] assms by simp_all

lemma run_radix:
  assumes "2 \<le> b" "b \<le> 16"
  shows "run_val (int b) acc (radix b n @ ys) = run_val (int b) (acc * int b ^ length (radix b n) + int n) ys \<and>
    run_len (int b) (radix b n @ ys) = length (radix b n) + run_len (int b) ys"
  using assms
proof (induction b n arbitrary: acc ys rule: radix.induct)
  case (1 b n)
  show ?case
  proof (cases "n < b")
    case True
    then have "radix b n = [dig n]" by (subst radix.simps) simp
    then show ?thesis using run_digit [OF True "1.prems"(2)] by simp
  next
    case False
    then have r: "radix b n = radix b (n div b) @ [dig (n mod b)]"
      using "1.prems"(1) by (subst radix.simps) simp
    have d: "n mod b < b" using "1.prems"(1) by simp
    have n: "int n = int (n div b) * int b + int (n mod b)" by (simp flip: of_nat_mult of_nat_add)
    show ?thesis
      using "1.IH" [of acc "dig (n mod b) # ys"] False "1.prems" run_digit [OF d "1.prems"(2)]
      unfolding r by (simp add: n algebra_simps del: run_val.simps run_len.simps)
  qed
qed

lemma cstr_run:
  assumes "2 \<le> b" "b \<le> 16" "cstr m p (radix b n)"
  shows "digits_loop M m (int b) p 0 = Some (int n mod M, p + length (radix b n))"
  using digits_loop_str [OF assms(3), of M "int b" 0] run_radix [OF assms(1,2), of 0 n "[]"] by simp

lemma skip_no_spaces: "m p \<noteq> CHR '' '' \<Longrightarrow> skip_spaces m p = Some p"
  by (simp add: skip_spaces.simps)

text \<open>A string that starts with the digits of \<open>n\<close> in base \<open>b\<close>.\<close>

lemma radix_start:
  assumes "2 \<le> b" "b \<le> 16" "cstr m p (radix b n)"
  shows "\<not> is_x (m (Suc p))" "m p \<noteq> CHR '' ''" "m p \<noteq> CHR ''-''" "m p \<noteq> CHR ''+''"
proof -
  obtain d xs where d: "d < 16" "radix b n = dig d # xs" using radix_chars(3) [OF assms(1,2)] by blast
  then have "m p = dig d" using assms(3) by simp
  then show "m p \<noteq> CHR '' ''" "m p \<noteq> CHR ''-''" "m p \<noteq> CHR ''+''" using dig_props [OF d(1)] by simp_all
  have "m (p + 1) = at (radix b n) 1" using assms(3) by (rule cstr_at) (simp add: d(2))
  then show "\<not> is_x (m (Suc p))" using radix_chars(4) [OF assms(1,2), of n 1] by simp
qed

lemma strtoul_radix:
  assumes "2 \<le> b" "b \<le> 16" "cstr m p (radix b n)"
  shows "strtoul m p (int b) = Some (int n mod 2 ^ 32, p + length (radix b n))"
    and "strtoull m p (int b) = Some (int n mod 2 ^ 64, p + length (radix b n))"
  using radix_start [OF assms] cstr_run [OF assms] assms(1)
  by (auto simp: strtoul_def strtoull_def skip_no_spaces)

text \<open>Base zero: the prefix decides.\<close>

lemma strtoul_hex_prefix:
  assumes "cstr m p (CHR ''0'' # CHR ''x'' # radix 16 n)" "base = 0 \<or> base = 16"
  shows "strtoul m p base = Some (int n mod 2 ^ 32, p + 2 + length (radix 16 n))"
proof -
  have p: "m p = CHR ''0''" "m (Suc p) = CHR ''x''" "cstr m (p + 2) (radix 16 n)" using assms(1) by simp_all
  have "\<not> is_x (m (Suc (Suc (Suc p))))" using radix_start(1) [OF _ _ p(3)] by simp
  then show ?thesis using p cstr_run [OF _ _ p(3)] assms(2) by (auto simp: strtoul_def skip_no_spaces is_x_def)
qed

lemma s64_id: "- (2 ^ 63) \<le> x \<Longrightarrow> x < 2 ^ 63 \<Longrightarrow> s64 x = x"
  by (simp add: s64_def)

lemma signed_run:
  assumes "cstr m p (sdec n)"
  obtains q where "read_sign m p = (if n < 0 then -1 else 1, q)" "m p \<noteq> CHR '' ''" "cstr m q (radix 10 (nat \<bar>n\<bar>))"
    "q + length (radix 10 (nat \<bar>n\<bar>)) = p + length (sdec n)"
proof (cases "n < 0")
  case True
  then have "m p = CHR ''-''" "cstr m (Suc p) (radix 10 (nat \<bar>n\<bar>))"
    using assms by (simp_all add: sdec_def dec_radix)
  then show thesis using that [of "Suc p"] True by (simp add: read_sign_def sdec_def dec_radix)
next
  case False
  then have c: "cstr m p (radix 10 (nat \<bar>n\<bar>))" using assms by (simp add: sdec_def dec_radix)
  then show thesis using that [of p] False radix_start [OF _ _ c] by (simp add: read_sign_def sdec_def dec_radix)
qed

lemma strtol_sdec:
  assumes "cstr m p (sdec n)" "- (2 ^ 31) \<le> n" "n < 2 ^ 31"
  shows "strtol m p 10 = Some (n, p + length (sdec n))"
proof -
  obtain q where q: "read_sign m p = (if n < 0 then -1 else 1, q)" "m p \<noteq> CHR '' ''" "cstr m q (radix 10 (nat \<bar>n\<bar>))"
    "q + length (radix 10 (nat \<bar>n\<bar>)) = p + length (sdec n)" using signed_run [OF assms(1)] by blast
  have "strtoul m q 10 = Some (\<bar>n\<bar>, p + length (sdec n))"
    using strtoul_radix(1) [OF _ _ q(3)] q(4) assms(2,3) by simp
  moreover have "s32 (s32 \<bar>n\<bar> * (if n < 0 then -1 else 1)) = n"
  proof (cases "n = - (2 ^ 31)")
    case False
    then show ?thesis using assms(2,3) by (auto simp: abs_if)
  qed (simp add: s32_def)
  ultimately show ?thesis using q(1,2) by (simp add: strtol_def skip_no_spaces)
qed

lemma strtoll_sdec:
  assumes "cstr m p (sdec n)" "- (2 ^ 63) \<le> n" "n < 2 ^ 63"
  shows "strtoll m p 10 = Some (n, p + length (sdec n))"
proof -
  obtain q where q: "read_sign m p = (if n < 0 then -1 else 1, q)" "m p \<noteq> CHR '' ''" "cstr m q (radix 10 (nat \<bar>n\<bar>))"
    "q + length (radix 10 (nat \<bar>n\<bar>)) = p + length (sdec n)" using signed_run [OF assms(1)] by blast
  have "strtoull m q 10 = Some (\<bar>n\<bar>, p + length (sdec n))"
    using strtoul_radix(2) [OF _ _ q(3)] q(4) assms(2,3) by simp
  moreover have "s64 (s64 \<bar>n\<bar> * (if n < 0 then -1 else 1)) = n"
  proof (cases "n = - (2 ^ 63)")
    case False
    then show ?thesis using assms(2,3) by (auto simp: abs_if s64_id)
  qed (simp add: s64_def)
  ultimately show ?thesis using q(1,2) by (simp add: strtoll_def skip_no_spaces)
qed

text \<open>\<open>strtoull\<close> has no base detection: with base zero it never reads a digit.\<close>

lemma strtoull_base_0:
  assumes "cstr m p xs"
  shows "\<exists>e. strtoull m p 0 = Some (0, e)"
proof -
  let ?k = "length (takeWhile (\<lambda>c. c = CHR '' '') xs)"
  have "cstr m (p + ?k) (drop ?k xs)" using assms by (intro cstr_drop) (simp_all add: length_takeWhile_le)
  moreover have "run_val 0 0 ys = 0" for ys
    by (cases ys) (auto split: option.split simp: digit_value_def)
  ultimately show ?thesis
    using skip_spaces_str [OF assms] digits_loop_str [of m "p + ?k" _ "2 ^ 64" 0 0]
    by (auto simp: strtoull_def)
qed

end
