(* ===== verification/Cact_Qsort.thy ===== *)
theory Cact_Qsort
  imports Cact_String_Lemmas "HOL-Library.Multiset"
begin

text \<open>
  \<open>qsort\<close>, \<open>qsort_r\<close> and \<open>bsearch\<close> of \<open>src/stdlib.c\<close>, on byte memory.  The comparison function is
  an argument; the \<open>arg\<close> pointer of \<open>qsort_r\<close> is part of it.  Element addresses are natural
  numbers: an array lies inside the address space, so \<open>arr + i * size\<close> does not wrap.
\<close>

section \<open>Definitions\<close>

definition rd :: "mem \<Rightarrow> nat \<Rightarrow> nat \<Rightarrow> string" where
  "rd m p n = map m [p..<p + n]"

text \<open>\<open>_qsort_swap\<close> exchanges two elements through a buffer of 64 bytes.\<close>

function qsort_swap_loop :: "mem \<Rightarrow> nat \<Rightarrow> nat \<Rightarrow> nat \<Rightarrow> nat \<Rightarrow> mem" where
  "qsort_swap_loop m pa pb sz i =
     (if i < sz
      then let chunk = (if sz - i > 64 then 64 else sz - i);
               tmp = rd m (pa + i) chunk;
               m1 = memory_copy_loop m (pa + i) (pb + i) chunk
           in qsort_swap_loop (store m1 (pb + i) tmp) pa pb sz (i + 64)
      else m)"
  by pat_completeness auto
termination by (relation "measure (\<lambda>(m, pa, pb, sz, i). sz - i)") auto

declare qsort_swap_loop.simps [simp del]

definition qsort_swap :: "mem \<Rightarrow> nat \<Rightarrow> nat \<Rightarrow> nat \<Rightarrow> mem" where
  "qsort_swap m a b sz = qsort_swap_loop m a b sz 0"

text \<open>The partition loop of \<open>_qsort_r\<close>; the last element is the pivot value.\<close>

function qsort_partition ::
  "(mem \<Rightarrow> nat \<Rightarrow> nat \<Rightarrow> int) \<Rightarrow> mem \<Rightarrow> nat \<Rightarrow> nat \<Rightarrow> nat \<Rightarrow> nat \<Rightarrow> nat \<Rightarrow> mem \<times> nat" where
  "qsort_partition compar m arr sz lst i pivot =
     (if i < lst
      then if compar m (arr + i * sz) (arr + lst * sz) < 0
           then qsort_partition compar (qsort_swap m (arr + i * sz) (arr + pivot * sz) sz) arr sz lst (i + 1) (pivot + 1)
           else qsort_partition compar m arr sz lst (i + 1) pivot
      else (m, pivot))"
  by pat_completeness auto
termination by (relation "measure (\<lambda>(compar, m, arr, sz, lst, i, pivot). lst - i)") auto

declare qsort_partition.simps [simp del]

lemma qsort_partition_bound:
  "i \<le> lst \<Longrightarrow> pivot \<le> i \<Longrightarrow> snd (qsort_partition compar m arr sz lst i pivot) \<le> lst"
proof (induction compar m arr sz lst i pivot rule: qsort_partition.induct)
  case (1 compar m arr sz lst i pivot)
  show ?case
    by (subst qsort_partition.simps) (use 1 in auto)
qed

function qsort_r :: "(mem \<Rightarrow> nat \<Rightarrow> nat \<Rightarrow> int) \<Rightarrow> mem \<Rightarrow> nat \<Rightarrow> nat \<Rightarrow> nat \<Rightarrow> mem" where
  "qsort_r compar m base nmemb sz =
     (if nmemb \<le> 1 then m
      else let arr = base;
               lst = nmemb - 1;
               (m1, pivot) = qsort_partition compar m arr sz lst 0 0;
               m2 = qsort_swap m1 (arr + pivot * sz) (arr + lst * sz) sz;
               m3 = (if pivot > 1 then qsort_r compar m2 arr pivot sz else m2)
           in if pivot < nmemb - 1
              then qsort_r compar m3 (arr + (pivot + 1) * sz) (nmemb - pivot - 1) sz
              else m3)"
  by pat_completeness auto
termination
proof (relation "measure (\<lambda>(compar, m, base, nmemb, sz). nmemb)", goal_cases)
  case (2 compar m base nmemb sz arr lst p m1 pivot m2)
  then show ?case
    using qsort_partition_bound [of 0 "nmemb - 1" 0 compar m base sz] by (auto simp: prod_eq_iff)
qed auto

declare qsort_r.simps [simp del]

definition qsort :: "(mem \<Rightarrow> nat \<Rightarrow> nat \<Rightarrow> int) \<Rightarrow> mem \<Rightarrow> nat \<Rightarrow> nat \<Rightarrow> nat \<Rightarrow> mem" where
  "qsort compar m base nmemb sz = qsort_r compar m base nmemb sz"

function bsearch_loop :: "(mem \<Rightarrow> nat \<Rightarrow> nat \<Rightarrow> int) \<Rightarrow> mem \<Rightarrow> nat \<Rightarrow> nat \<Rightarrow> nat \<Rightarrow> nat \<Rightarrow> nat \<Rightarrow> nat" where
  "bsearch_loop compar m key p sz lo hi =
     (if lo < hi
      then let mid = lo + (hi - lo) div 2;
               c = compar m key (p + mid * sz)
           in if c = 0 then p + mid * sz
              else if c < 0 then bsearch_loop compar m key p sz lo mid
              else bsearch_loop compar m key p sz (mid + 1) hi
      else 0)"
  by pat_completeness auto
termination by (relation "measure (\<lambda>(compar, m, key, p, sz, lo, hi). hi - lo)") auto

declare bsearch_loop.simps [simp del]

definition bsearch :: "(mem \<Rightarrow> nat \<Rightarrow> nat \<Rightarrow> int) \<Rightarrow> mem \<Rightarrow> nat \<Rightarrow> nat \<Rightarrow> nat \<Rightarrow> nat \<Rightarrow> nat" where
  "bsearch compar m key base nmemb sz = bsearch_loop compar m key base sz 0 nmemb"

section \<open>The exchange\<close>

text \<open>The exchange, address by address.\<close>

definition swapped :: "mem \<Rightarrow> nat \<Rightarrow> nat \<Rightarrow> nat \<Rightarrow> nat \<Rightarrow> mem" where
  "swapped m pa pb i sz = (\<lambda>a. if pa + i \<le> a \<and> a < pa + sz then m (pb + (a - pa))
     else if pb + i \<le> a \<and> a < pb + sz then m (pa + (a - pb)) else m a)"

lemma swapped_same [simp]: "swapped m p p i sz = m"
  by (auto simp: swapped_def fun_eq_iff)

lemma store_rd_same [simp]: "store m p (rd m p n) = m"
  by (auto simp: store_def rd_def fun_eq_iff)

lemma swap_chunk:
  assumes "pa + sz \<le> pb \<or> pb + sz \<le> pa" "i < sz" "c = (if sz - i > 64 then 64 else sz - i)"
  shows "swapped (store (store m (pa + i) (rd m (pb + i) c)) (pb + i) (rd m (pa + i) c)) pa pb (i + 64) sz =
    swapped m pa pb i sz" (is "swapped ?m' _ _ _ _ = _")
proof
  fix a
  have c: "i + c \<le> sz" "i + 64 < sz \<Longrightarrow> c = 64" "sz \<le> i + 64 \<Longrightarrow> i + c = sz" using assms(2,3) by auto
  have m': "?m' x = (if pb + i \<le> x \<and> x < pb + i + c then m (pa + (x - pb))
      else if pa + i \<le> x \<and> x < pa + i + c then m (pb + (x - pa)) else m x)" for x
    by (auto simp: store_def rd_def)
  consider "pa + i \<le> a" "a < pa + sz" | "pb + i \<le> a" "a < pb + sz" "\<not> (pa + i \<le> a \<and> a < pa + sz)"
    | "\<not> (pa + i \<le> a \<and> a < pa + sz)" "\<not> (pb + i \<le> a \<and> a < pb + sz)" by blast
  then show "swapped ?m' pa pb (i + 64) sz a = swapped m pa pb i sz a"
  proof cases
    case 1
    show ?thesis
    proof (cases "pa + i + 64 \<le> a")
      case True
      then show ?thesis using 1 assms(1) c unfolding swapped_def m' by auto
    next
      case False
      then have "a < pa + i + c" using 1 c by linarith
      then show ?thesis using 1 False assms(1) c unfolding swapped_def m' by auto
    qed
  next
    case 2
    show ?thesis
    proof (cases "pb + i + 64 \<le> a")
      case True
      then show ?thesis using 2 assms(1) c unfolding swapped_def m' by auto
    next
      case False
      then have "a < pb + i + c" using 2 c by linarith
      then show ?thesis using 2 False assms(1) c unfolding swapped_def m' by auto
    qed
  next
    case 3
    then show ?thesis using c unfolding swapped_def m' by auto
  qed
qed

lemma qsort_swap_loop_swapped:
  assumes "pa = pb \<or> pa + sz \<le> pb \<or> pb + sz \<le> pa"
  shows "qsort_swap_loop m pa pb sz i = swapped m pa pb i sz"
  using assms
proof (induction m pa pb sz i rule: qsort_swap_loop.induct)
  case (1 m pa pb sz i)
  show ?case
  proof (cases "i < sz")
    case False
    then show ?thesis by (subst qsort_swap_loop.simps) (auto simp: swapped_def fun_eq_iff)
  next
    case True
    define c where "c = (if sz - i > 64 then 64 else sz - i)"
    have c: "i + c \<le> sz" using True by (cases "sz - i > 64") (simp_all add: c_def)
    define m1 where "m1 = memory_copy_loop m (pa + i) (pb + i) c"
    have m1: "m1 = store m (pa + i) (rd m (pb + i) c)"
      unfolding m1_def rd_def using "1.prems" c by (intro memory_copy_loop_store) auto
    define m2 where "m2 = store m1 (pb + i) (rd m (pa + i) c)"
    have "qsort_swap_loop m2 pa pb sz (i + 64) = swapped m2 pa pb (i + 64) sz"
      unfolding m2_def by (rule "1.IH" [OF True c_def refl m1_def "1.prems"])
    moreover have "qsort_swap_loop m pa pb sz i = qsort_swap_loop m2 pa pb sz (i + 64)"
      by (subst qsort_swap_loop.simps) (use True in \<open>simp add: c_def [symmetric] m1_def [symmetric] m2_def Let_def\<close>)
    moreover have "swapped m2 pa pb (i + 64) sz = swapped m pa pb i sz"
    proof (cases "pa = pb")
      case True
      then show ?thesis by (simp add: m2_def m1)
    next
      case False
      then show ?thesis using swap_chunk [OF _ True c_def] "1.prems" by (simp add: m2_def m1)
    qed
    ultimately show ?thesis by simp
  qed
qed

section \<open>Arrays of elements\<close>

text \<open>The elements of an array, as a list of byte strings.\<close>

definition elems :: "mem \<Rightarrow> nat \<Rightarrow> nat \<Rightarrow> nat \<Rightarrow> string list" where
  "elems m arr sz n = map (\<lambda>i. rd m (arr + i * sz) sz) [0..<n]"

lemma length_elems [simp]: "length (elems m arr sz n) = n"
  by (simp add: elems_def)

lemma nth_elems [simp]: "i < n \<Longrightarrow> elems m arr sz n ! i = rd m (arr + i * sz) sz"
  by (simp add: elems_def)

definition swap_elts :: "'a list \<Rightarrow> nat \<Rightarrow> nat \<Rightarrow> 'a list" where
  "swap_elts xs i j = xs[i := xs ! j, j := xs ! i]"

lemma length_swap_elts [simp]: "length (swap_elts xs i j) = length xs"
  by (simp add: swap_elts_def)

lemma nth_swap_elts:
  "i < length xs \<Longrightarrow> j < length xs \<Longrightarrow> k < length xs \<Longrightarrow>
   swap_elts xs i j ! k = (if k = j then xs ! i else if k = i then xs ! j else xs ! k)"
  by (simp add: swap_elts_def nth_list_update)

lemma mset_swap_elts [simp]:
  "i < length xs \<Longrightarrow> j < length xs \<Longrightarrow> mset (swap_elts xs i j) = mset xs"
  by (simp add: swap_elts_def mset_swap)

lemma slots_apart:
  assumes "i < j"
  shows "arr + i * sz + sz \<le> arr + j * (sz :: nat)"
proof -
  have "Suc i * sz \<le> j * sz" using assms by (intro mult_le_mono1) simp
  then show ?thesis by simp
qed

lemma slots_apart_cases: "i = j \<or> arr + i * sz + sz \<le> arr + j * sz \<or> arr + j * sz + sz \<le> arr + i * (sz :: nat)"
  using slots_apart [of i j] slots_apart [of j i] by (metis linorder_cases)

lemma qsort_swap_swapped:
  "qsort_swap m (arr + i * sz) (arr + j * sz) sz = swapped m (arr + i * sz) (arr + j * sz) 0 sz"
  unfolding qsort_swap_def using slots_apart_cases [of i j arr sz] by (intro qsort_swap_loop_swapped) auto

lemma elems_qsort_swap:
  assumes "i < n" "j < n"
  shows "elems (qsort_swap m (arr + i * sz) (arr + j * sz) sz) arr sz n = swap_elts (elems m arr sz n) i j"
proof (rule nth_equalityI)
  fix k
  assume "k < length (elems (qsort_swap m (arr + i * sz) (arr + j * sz) sz) arr sz n)"
  then have k: "k < n" by simp
  have "rd (swapped m (arr + i * sz) (arr + j * sz) 0 sz) (arr + k * sz) sz =
      rd m (arr + (if k = j then i else if k = i then j else k) * sz) sz"
  proof (rule nth_equalityI)
    fix x
    assume "x < length (rd (swapped m (arr + i * sz) (arr + j * sz) 0 sz) (arr + k * sz) sz)"
    then have x: "x < sz" by (simp add: rd_def)
    show "rd (swapped m (arr + i * sz) (arr + j * sz) 0 sz) (arr + k * sz) sz ! x =
        rd m (arr + (if k = j then i else if k = i then j else k) * sz) sz ! x"
      using x slots_apart_cases [of i j arr sz] slots_apart_cases [of i k arr sz] slots_apart_cases [of j k arr sz]
      by (auto simp: rd_def swapped_def add.assoc)
  qed (simp add: rd_def)
  then show "elems (qsort_swap m (arr + i * sz) (arr + j * sz) sz) arr sz n ! k = swap_elts (elems m arr sz n) i j ! k"
    using k assms by (simp add: qsort_swap_swapped nth_swap_elts)
qed simp

lemma qsort_swap_unchanged:
  assumes "i < n" "j < n"
  shows "unchanged (- {arr..<arr + n * sz}) m (qsort_swap m (arr + i * sz) (arr + j * sz) sz)"
  using slots_apart [OF assms(1), of arr sz] slots_apart [OF assms(2), of arr sz]
  unfolding qsort_swap_swapped by (auto simp: unchanged_def swapped_def)

section \<open>The algorithm on lists\<close>

function list_part :: "('a \<Rightarrow> 'a \<Rightarrow> int) \<Rightarrow> 'a list \<Rightarrow> nat \<Rightarrow> nat \<Rightarrow> nat \<Rightarrow> 'a list \<times> nat" where
  "list_part cmp xs lst i pivot =
     (if i < lst
      then if cmp (xs ! i) (xs ! lst) < 0
           then list_part cmp (swap_elts xs i pivot) lst (i + 1) (pivot + 1)
           else list_part cmp xs lst (i + 1) pivot
      else (xs, pivot))"
  by pat_completeness auto
termination by (relation "measure (\<lambda>(cmp, xs, lst, i, pivot). lst - i)") auto

declare list_part.simps [simp del]

lemma list_part_inv:
  assumes "list_part cmp xs lst i pivot = (ys, pv)" "pivot \<le> i" "i \<le> lst" "lst < length xs"
    and "\<forall>k<pivot. cmp (xs ! k) (xs ! lst) < 0" "\<forall>k. pivot \<le> k \<and> k < i \<longrightarrow> \<not> cmp (xs ! k) (xs ! lst) < 0"
  shows "length ys = length xs \<and> mset ys = mset xs \<and> ys ! lst = xs ! lst \<and> pv \<le> lst \<and>
    (\<forall>k<pv. cmp (ys ! k) (ys ! lst) < 0) \<and> (\<forall>k. pv \<le> k \<and> k < lst \<longrightarrow> \<not> cmp (ys ! k) (ys ! lst) < 0)"
  using assms
proof (induction cmp xs lst i pivot rule: list_part.induct)
  case (1 cmp xs lst i pivot)
  show ?case
  proof (cases "i < lst")
    case False
    then show ?thesis using "1.prems" by (subst (asm) list_part.simps) auto
  next
    case True
    show ?thesis
    proof (cases "cmp (xs ! i) (xs ! lst) < 0")
      case lt: True
      have nth: "swap_elts xs i pivot ! k = (if k = pivot then xs ! i else if k = i then xs ! pivot else xs ! k)"
        if "k < length xs" for k
        using that True "1.prems"(2,4) by (intro nth_swap_elts) auto
      have run: "list_part cmp (swap_elts xs i pivot) lst (i + 1) (pivot + 1) = (ys, pv)"
        using "1.prems"(1) True lt by (subst (asm) list_part.simps) simp
      have lst: "swap_elts xs i pivot ! lst = xs ! lst" using nth [OF "1.prems"(4)] True "1.prems"(2) by simp
      have lo: "\<forall>k<pivot + 1. cmp (swap_elts xs i pivot ! k) (swap_elts xs i pivot ! lst) < 0"
        unfolding lst using "1.prems"(2,4,5) True lt by (auto simp: nth less_Suc_eq)
      have hi: "\<forall>k. pivot + 1 \<le> k \<and> k < i + 1 \<longrightarrow> \<not> cmp (swap_elts xs i pivot ! k) (swap_elts xs i pivot ! lst) < 0"
        unfolding lst using "1.prems"(2,4,6) True by (auto simp: nth less_Suc_eq)
      have "mset (swap_elts xs i pivot) = mset xs" using "1.prems"(2,4) True by (intro mset_swap_elts) auto
      then show ?thesis
        using "1.IH"(1) [OF True lt run _ _ _ lo hi] True "1.prems"(2,4) lst by auto
    next
      case ge: False
      have "list_part cmp xs lst (i + 1) pivot = (ys, pv)"
        using "1.prems"(1) True ge by (subst (asm) list_part.simps) simp
      then show ?thesis using "1.IH"(2) [OF True ge] True ge "1.prems"(2-6) by (auto simp: less_Suc_eq)
    qed
  qed
qed

lemma list_part_bound: "i \<le> lst \<Longrightarrow> pivot \<le> i \<Longrightarrow> snd (list_part cmp xs lst i pivot) \<le> lst"
proof (induction cmp xs lst i pivot rule: list_part.induct)
  case (1 cmp xs lst i pivot)
  show ?case by (subst list_part.simps) (use 1 in auto)
qed

lemma list_part_length: "length (fst (list_part cmp xs lst i pivot)) = length xs"
proof (induction cmp xs lst i pivot rule: list_part.induct)
  case (1 cmp xs lst i pivot)
  show ?case by (subst list_part.simps) (use 1 in auto)
qed

text \<open>The whole sort: partition, put the pivot in its place, sort both sides.\<close>

function list_qsort :: "('a \<Rightarrow> 'a \<Rightarrow> int) \<Rightarrow> 'a list \<Rightarrow> 'a list" where
  "list_qsort cmp xs =
     (if length xs \<le> 1 then xs
      else let lst = length xs - 1;
               (ys, pivot) = list_part cmp xs lst 0 0;
               zs = swap_elts ys pivot lst
           in list_qsort cmp (take pivot zs) @ [zs ! pivot] @ list_qsort cmp (drop (pivot + 1) zs))"
  by pat_completeness auto
termination
proof (relation "measure (\<lambda>(cmp, xs). length xs)", goal_cases)
  case (2 cmp xs lst p ys pivot zs)
  then have "pivot \<le> lst" "length ys = length xs"
    using list_part_bound [of 0 "length xs - 1" 0 cmp xs] list_part_length [of cmp xs "length xs - 1" 0 0]
    by (auto simp: prod_eq_iff)
  with 2 show ?case by auto
next
  case (3 cmp xs lst p ys pivot zs)
  then have "length ys = length xs"
    using list_part_length [of cmp xs "length xs - 1" 0 0] by (auto simp: prod_eq_iff)
  with 3 show ?case by auto
qed simp

declare list_qsort.simps [simp del]

lemma list_qsort_short: "length xs \<le> 1 \<Longrightarrow> list_qsort cmp xs = xs"
  by (simp add: list_qsort.simps)

lemma list_qsort_step:
  assumes "1 < length xs"
  obtains zs pivot where "list_qsort cmp xs = list_qsort cmp (take pivot zs) @ zs ! pivot # list_qsort cmp (drop (Suc pivot) zs)"
    "length zs = length xs" "pivot < length xs" "mset zs = mset xs"
    "\<forall>k<pivot. cmp (zs ! k) (zs ! pivot) < 0"
    "\<forall>k. pivot < k \<and> k < length xs \<longrightarrow> \<not> cmp (zs ! k) (zs ! pivot) < 0"
    "snd (list_part cmp xs (length xs - 1) 0 0) = pivot"
    "zs = swap_elts (fst (list_part cmp xs (length xs - 1) 0 0)) pivot (length xs - 1)"
proof -
  define lst where "lst = length xs - 1"
  obtain ys pivot where lp: "list_part cmp xs lst 0 0 = (ys, pivot)" by (cases "list_part cmp xs lst 0 0")
  note inv = list_part_inv [OF lp, simplified]
  have lst: "lst < length xs" using assms by (simp add: lst_def)
  have ys: "length ys = length xs" "mset ys = mset xs" "pivot \<le> lst" "\<forall>k<pivot. cmp (ys ! k) (ys ! lst) < 0"
    "\<forall>k. pivot \<le> k \<and> k < lst \<longrightarrow> \<not> cmp (ys ! k) (ys ! lst) < 0"
    using inv lst by auto
  define zs where "zs = swap_elts ys pivot lst"
  have nth: "zs ! k = (if k = lst then ys ! pivot else if k = pivot then ys ! lst else ys ! k)" if "k < length xs" for k
    unfolding zs_def using that ys lst by (intro nth_swap_elts) auto
  show thesis
  proof (rule that [of pivot zs])
    show "list_qsort cmp xs = list_qsort cmp (take pivot zs) @ zs ! pivot # list_qsort cmp (drop (Suc pivot) zs)"
      by (subst list_qsort.simps) (use assms lp in \<open>simp add: lst_def zs_def Let_def\<close>)
    show "\<forall>k<pivot. cmp (zs ! k) (zs ! pivot) < 0" using ys lst by (auto simp: nth)
    show "\<forall>k. pivot < k \<and> k < length xs \<longrightarrow> \<not> cmp (zs ! k) (zs ! pivot) < 0"
    proof (intro allI impI)
      fix k assume k: "pivot < k \<and> k < length xs"
      show "\<not> cmp (zs ! k) (zs ! pivot) < 0"
      proof (cases "k = lst")
        case True
        then show ?thesis using k ys(3,5) lst by (simp add: nth)
      next
        case False
        then have "k < lst" using k unfolding lst_def by linarith
        then show ?thesis using k ys(5) lst by (simp add: nth)
      qed
    qed
  qed (use ys lst lp lst_def zs_def in auto)
qed

lemma mset_list_qsort: "mset (list_qsort cmp xs) = mset xs"
proof (induction "length xs" arbitrary: xs rule: less_induct)
  case less
  show ?case
  proof (cases "1 < length xs")
    case True
    then obtain zs pivot where
      q: "list_qsort cmp xs = list_qsort cmp (take pivot zs) @ zs ! pivot # list_qsort cmp (drop (Suc pivot) zs)"
      and z: "length zs = length xs" "pivot < length xs" "mset zs = mset xs"
      by (rule list_qsort_step)
    have "mset (list_qsort cmp xs) = mset (take pivot zs) + {#zs ! pivot#} + mset (drop (Suc pivot) zs)"
      using less [of "take pivot zs"] less [of "drop (Suc pivot) zs"] z by (simp add: q)
    also have "\<dots> = mset (take pivot zs @ zs ! pivot # drop (Suc pivot) zs)" by simp
    also have "\<dots> = mset zs" using z by (simp add: id_take_nth_drop [symmetric])
    finally show ?thesis using z(3) by simp
  qed (simp add: list_qsort_short)
qed

section \<open>Comparison functions\<close>

text \<open>What \<open>qsort\<close> and \<open>bsearch\<close> ask of a comparison function, on the values it is used on: it
  orders them, up to ties.\<close>

locale comparator =
  fixes A :: "'a set" and cmp :: "'a \<Rightarrow> 'a \<Rightarrow> int"
  assumes flip: "x \<in> A \<Longrightarrow> y \<in> A \<Longrightarrow> cmp x y < 0 \<longleftrightarrow> 0 < cmp y x"
    and chain: "x \<in> A \<Longrightarrow> y \<in> A \<Longrightarrow> z \<in> A \<Longrightarrow> cmp x y \<le> 0 \<Longrightarrow> cmp y z \<le> 0 \<Longrightarrow> cmp x z \<le> 0"

definition ascending :: "('a \<Rightarrow> 'a \<Rightarrow> int) \<Rightarrow> 'a list \<Rightarrow> bool" where
  "ascending cmp xs \<longleftrightarrow> sorted_wrt (\<lambda>x y. cmp x y \<le> 0) xs"

text \<open>Binary search on a list.\<close>

function list_bsearch :: "('a \<Rightarrow> int) \<Rightarrow> 'a list \<Rightarrow> nat \<Rightarrow> nat \<Rightarrow> nat option" where
  "list_bsearch f xs lo hi =
     (if lo < hi
      then let mid = lo + (hi - lo) div 2; c = f (xs ! mid)
           in if c = 0 then Some mid
              else if c < 0 then list_bsearch f xs lo mid else list_bsearch f xs (mid + 1) hi
      else None)"
  by pat_completeness auto
termination by (relation "measure (\<lambda>(f, xs, lo, hi). hi - lo)") auto

declare list_bsearch.simps [simp del]

context comparator
begin

lemma ties: "x \<in> A \<Longrightarrow> y \<in> A \<Longrightarrow> cmp x y = 0 \<longleftrightarrow> cmp y x = 0"
  using flip [of x y] flip [of y x] by linarith

lemma not_less: "x \<in> A \<Longrightarrow> y \<in> A \<Longrightarrow> \<not> cmp x y < 0 \<Longrightarrow> cmp y x \<le> 0"
  using flip [of x y] by linarith

lemma list_qsort_ascending: "set xs \<subseteq> A \<Longrightarrow> ascending cmp (list_qsort cmp xs)"
proof (induction "length xs" arbitrary: xs rule: less_induct)
  case less
  show ?case
  proof (cases "1 < length xs")
    case True
    then obtain zs pivot where
      q: "list_qsort cmp xs = list_qsort cmp (take pivot zs) @ zs ! pivot # list_qsort cmp (drop (Suc pivot) zs)"
      and z: "length zs = length xs" "pivot < length xs" "mset zs = mset xs"
        "\<forall>k<pivot. cmp (zs ! k) (zs ! pivot) < 0"
        "\<forall>k. pivot < k \<and> k < length xs \<longrightarrow> \<not> cmp (zs ! k) (zs ! pivot) < 0"
      by (rule list_qsort_step)
    have zA: "set zs \<subseteq> A" using z(3) less.prems by (metis set_mset_mset)
    then have pA: "zs ! pivot \<in> A" using z by auto
    let ?l = "list_qsort cmp (take pivot zs)" and ?r = "list_qsort cmp (drop (Suc pivot) zs)"
    have set: "set ?l = set (take pivot zs)" "set ?r = set (drop (Suc pivot) zs)"
      by (metis mset_list_qsort set_mset_mset)+
    have sub: "set (take pivot zs) \<subseteq> A" "set (drop (Suc pivot) zs) \<subseteq> A"
      using zA set_take_subset set_drop_subset by fast+
    have srt: "ascending cmp ?l" "ascending cmp ?r"
      using less.hyps [of "take pivot zs"] less.hyps [of "drop (Suc pivot) zs"] sub z by simp_all
    have lo: "cmp x (zs ! pivot) \<le> 0" if "x \<in> set ?l" for x
      using that z(1,2,4) unfolding set by (auto simp: in_set_conv_nth intro!: less_imp_le)
    have hi: "cmp (zs ! pivot) x \<le> 0" if x: "x \<in> set ?r" for x
    proof -
      obtain k where k: "k < length xs - Suc pivot" "x = zs ! (Suc pivot + k)"
        using x z(1,2) unfolding set by (auto simp: in_set_conv_nth)
      then have "\<not> cmp x (zs ! pivot) < 0" using z(5) by auto
      then show ?thesis using x sub(2) set pA by (intro not_less) auto
    qed
    have "cmp x y \<le> 0" if "x \<in> set ?l" "y \<in> set ?r" for x y
      using chain [OF _ pA _ lo [OF that(1)] hi [OF that(2)]] that sub set by blast
    then show ?thesis using srt lo hi by (auto simp: q ascending_def sorted_wrt_append)
  next
    case False
    then have "xs = [] \<or> (\<exists>x. xs = [x])" by (cases xs; cases "tl xs") auto
    then show ?thesis by (auto simp: list_qsort_short ascending_def)
  qed
qed

lemma list_bsearch_sound:
  "list_bsearch (cmp key) xs lo hi = Some i \<Longrightarrow> lo \<le> i \<and> i < hi \<and> cmp key (xs ! i) = 0"
proof (induction "cmp key" xs lo hi rule: list_bsearch.induct)
  case (1 xs lo hi)
  define mid where "mid = lo + (hi - lo) div 2"
  have lh: "lo < hi" using "1.prems" by (subst (asm) list_bsearch.simps) (simp split: if_splits)
  then have mid: "lo \<le> mid" "mid < hi" by (auto simp: mid_def)
  note def = list_bsearch.simps [of _ _ lo hi] Let_def mid_def [symmetric]
  consider "cmp key (xs ! mid) = 0" | "cmp key (xs ! mid) < 0" | "0 < cmp key (xs ! mid)" by linarith
  then show ?case
  proof cases
    case 1
    then show ?thesis using "1.prems" mid lh by (simp add: def)
  next
    case 2
    then have "list_bsearch (cmp key) xs lo mid = Some i" using "1.prems" lh by (simp add: def)
    then show ?thesis using "1.hyps"(1) [OF lh mid_def refl] 2 mid by auto
  next
    case 3
    then have "list_bsearch (cmp key) xs (mid + 1) hi = Some i" using "1.prems" lh by (simp add: def)
    then show ?thesis using "1.hyps"(2) [OF lh mid_def refl] 3 mid by auto
  qed
qed

lemma list_bsearch_complete:
  assumes "ascending cmp xs" "set xs \<subseteq> A" "key \<in> A" "lo \<le> i" "i < hi" "hi \<le> length xs" "cmp key (xs ! i) = 0"
  shows "list_bsearch (cmp key) xs lo hi \<noteq> None"
  using assms
proof (induction "cmp key" xs lo hi rule: list_bsearch.induct)
  case (1 xs lo hi)
  define mid where "mid = lo + (hi - lo) div 2"
  have lh: "lo < hi" using "1.prems" by simp
  then have mid: "lo \<le> mid" "mid < hi" by (auto simp: mid_def)
  have A: "xs ! k \<in> A" if "k < hi" for k using that "1.prems"(2,6) nth_mem by fastforce
  have le: "cmp (xs ! j) (xs ! k) \<le> 0" if "j < k" "k < hi" for j k
    using "1.prems"(1,6) that by (auto simp: ascending_def sorted_wrt_iff_nth_less)
  have tie: "cmp (xs ! i) key = 0" using ties [OF A "1.prems"(3)] "1.prems"(5,7) by blast
  note def = list_bsearch.simps [of _ _ lo hi] Let_def mid_def [symmetric]
  consider "cmp key (xs ! mid) = 0" | "cmp key (xs ! mid) < 0" | "0 < cmp key (xs ! mid)" by linarith
  then show ?case
  proof cases
    case 1
    then show ?thesis using lh by (simp add: def)
  next
    case 2
    have "i < mid"
    proof (rule ccontr)
      assume "\<not> i < mid"
      then have "cmp (xs ! mid) (xs ! i) \<le> 0"
        using le [of mid i] "1.prems"(5,7) 2 by (cases "i = mid") auto
      then have "cmp (xs ! mid) key \<le> 0" using chain [OF A A "1.prems"(3), of mid i] mid tie "1.prems"(5) by auto
      then show False using 2 flip [OF "1.prems"(3) A, of mid] mid by linarith
    qed
    then show ?thesis using "1.hyps"(1) [OF lh mid_def refl] 2 "1.prems" mid lh by (simp add: def)
  next
    case 3
    have "mid < i"
    proof (rule ccontr)
      assume "\<not> mid < i"
      then have "cmp (xs ! i) (xs ! mid) \<le> 0"
        using le [of i mid] "1.prems"(5,7) 3 mid by (cases "i = mid") auto
      then have "cmp key (xs ! mid) \<le> 0" using chain [OF "1.prems"(3) A A, of i mid] mid "1.prems"(5,7) by auto
      then show False using 3 by linarith
    qed
    then show ?thesis using "1.hyps"(2) [OF lh mid_def refl] 3 "1.prems" mid lh by (simp add: def)
  qed
qed

end

text \<open>The comparison functions of \<open>string.c\<close> are such functions: \<open>strcmp\<close> on strings, \<open>memcmp\<close>
  on arrays of one length.\<close>

interpretation strcmp_order: comparator "{xs. NUL \<notin> set xs}" str_cmp
proof
  show "str_cmp x y < 0 \<longleftrightarrow> 0 < str_cmp y x" for x y using str_cmp_swap [of x y] by linarith
qed (use str_cmp_trans in blast)

lemma mem_cmp_swap: "mem_cmp ys xs = - mem_cmp xs ys"
proof (induction xs arbitrary: ys)
  case (Cons x xs)
  then show ?case by (cases ys) auto
next
  case Nil
  then show ?case by (cases ys) auto
qed

lemma mem_cmp_trans:
  "length xs = n \<Longrightarrow> length ys = n \<Longrightarrow> length zs = n \<Longrightarrow> mem_cmp xs ys \<le> 0 \<Longrightarrow> mem_cmp ys zs \<le> 0 \<Longrightarrow>
   mem_cmp xs zs \<le> 0"
proof (induction n arbitrary: xs ys zs)
  case (Suc n)
  then obtain x xs' y ys' z zs' where "xs = x # xs'" "ys = y # ys'" "zs = z # zs'"
    by (metis Suc_length_conv)
  then show ?case using Suc.prems Suc.IH [of xs' ys' zs'] uchar_inject [of x y] uchar_inject [of y z]
    by (cases "x = y"; cases "y = z"; cases "x = z") auto
qed simp

interpretation memcmp_order: comparator "{xs. length xs = n}" mem_cmp for n
proof
  show "mem_cmp x y < 0 \<longleftrightarrow> 0 < mem_cmp y x" for x y using mem_cmp_swap [of x y] by linarith
qed (use mem_cmp_trans in blast)

section \<open>The memory version refines the list version\<close>

text \<open>\<open>compar\<close> reads nothing but the two elements it is handed.\<close>

definition compares :: "(mem \<Rightarrow> nat \<Rightarrow> nat \<Rightarrow> int) \<Rightarrow> (string \<Rightarrow> string \<Rightarrow> int) \<Rightarrow> nat \<Rightarrow> bool" where
  "compares compar cmp sz \<longleftrightarrow> (\<forall>m p q. compar m p q = cmp (rd m p sz) (rd m q sz))"

lemma compares_memcmp: "compares (\<lambda>m p q. memcmp m p q sz) mem_cmp sz"
proof -
  have "bytes m p (rd m p sz)" "length (rd m p sz) = sz" for m p by (simp_all add: bytes_nth rd_def)
  then show ?thesis by (auto simp: compares_def intro!: memcmp_bytes)
qed

lemma partition_refines:
  assumes "compares compar cmp sz" "lst < n" "pivot \<le> i" "i \<le> lst"
    and "qsort_partition compar m arr sz lst i pivot = (m', pv)"
  shows "list_part cmp (elems m arr sz n) lst i pivot = (elems m' arr sz n, pv) \<and>
    unchanged (- {arr..<arr + n * sz}) m m'"
  using assms
proof (induction compar m arr sz lst i pivot rule: qsort_partition.induct)
  case (1 compar m arr sz lst i pivot)
  show ?case
  proof (cases "i < lst")
    case False
    then show ?thesis using "1.prems"(5)
      by (subst (asm) qsort_partition.simps) (simp add: list_part.simps unchanged_def)
  next
    case True
    have cmp: "compar m (arr + i * sz) (arr + lst * sz) = cmp (elems m arr sz n ! i) (elems m arr sz n ! lst)"
      using "1.prems"(1,2) True by (simp add: compares_def)
    show ?thesis
    proof (cases "compar m (arr + i * sz) (arr + lst * sz) < 0")
      case lt: True
      define m1 where "m1 = qsort_swap m (arr + i * sz) (arr + pivot * sz) sz"
      have run: "qsort_partition compar m1 arr sz lst (i + 1) (pivot + 1) = (m', pv)"
        using "1.prems"(5) True lt by (subst (asm) qsort_partition.simps) (simp add: m1_def)
      have b: "i < n" "pivot < n" using True "1.prems"(2,3) by simp_all
      have "elems m1 arr sz n = swap_elts (elems m arr sz n) i pivot"
        "unchanged (- {arr..<arr + n * sz}) m m1"
        unfolding m1_def using elems_qsort_swap [OF b] qsort_swap_unchanged [OF b] by simp_all
      moreover have "list_part cmp (elems m1 arr sz n) lst (i + 1) (pivot + 1) = (elems m' arr sz n, pv) \<and>
          unchanged (- {arr..<arr + n * sz}) m1 m'"
        unfolding m1_def using "1.prems" True run m1_def by (intro "1.IH"(1) [OF True lt]) simp_all
      ultimately show ?thesis using True lt cmp
        by (subst list_part.simps) (auto simp: unchanged_def)
    next
      case ge: False
      have run: "qsort_partition compar m arr sz lst (i + 1) pivot = (m', pv)"
        using "1.prems"(5) True ge by (subst (asm) qsort_partition.simps) simp
      then show ?thesis using "1.IH"(2) [OF True ge "1.prems"(1,2) _ _ run] "1.prems"(3) True ge cmp
        by (subst list_part.simps) simp
    qed
  qed
qed

lemma elems_cong: "unchanged {arr..<arr + n * sz} m m' \<Longrightarrow> elems m' arr sz n = elems m arr sz n"
proof (rule nth_equalityI)
  fix i
  assume un: "unchanged {arr..<arr + n * sz} m m'" and "i < length (elems m' arr sz n)"
  then have i: "i < n" by simp
  from slots_apart [OF i, of arr sz] un i show "elems m' arr sz n ! i = elems m arr sz n ! i"
    by (auto simp: rd_def unchanged_def)
qed simp

lemma elems_take: "k \<le> n \<Longrightarrow> take k (elems m arr sz n) = elems m arr sz k"
  by (simp add: elems_def take_map)

lemma elems_drop: "drop k (elems m arr sz n) = elems m (arr + k * sz) sz (n - k)"
  by (rule nth_equalityI) (simp_all add: algebra_simps)

lemma elems_split:
  assumes "k < n"
  shows "elems m arr sz n = elems m arr sz k @ rd m (arr + k * sz) sz # elems m (arr + Suc k * sz) sz (n - Suc k)"
  using id_take_nth_drop [of k "elems m arr sz n"] assms by (simp add: elems_take elems_drop)

lemma rd_cong: "unchanged {p..<p + n} m m' \<Longrightarrow> rd m' p n = rd m p n"
  by (auto simp: rd_def unchanged_def)

text \<open>Sorting the slots below and above a slot \<open>k\<close>, one after the other.\<close>

lemma sides_sorted:
  assumes k: "k < n"
    and L: "elems m3 arr sz k = f (elems m2 arr sz k)" "unchanged (- {arr..<arr + k * sz}) m2 m3"
    and R: "elems m4 (arr + Suc k * sz) sz (n - Suc k) = g (elems m3 (arr + Suc k * sz) sz (n - Suc k))"
      "unchanged (- {arr + Suc k * sz..<arr + Suc k * sz + (n - Suc k) * sz}) m3 m4"
  shows "elems m4 arr sz n =
      f (take k (elems m2 arr sz n)) @ elems m2 arr sz n ! k # g (drop (Suc k) (elems m2 arr sz n))"
    "unchanged (- {arr..<arr + n * sz}) m2 m4"
proof -
  have n: "Suc k * sz + (n - Suc k) * sz = n * sz"
    using k by (metis Suc_leI add_mult_distrib le_add_diff_inverse)
  have l: "elems m4 arr sz k = elems m3 arr sz k"
    by (rule elems_cong, rule unchanged_mono [OF R(2)]) auto
  have c: "rd m4 (arr + k * sz) sz = rd m2 (arr + k * sz) sz"
  proof -
    have "unchanged {arr + k * sz..<arr + k * sz + sz} m2 m3" by (rule unchanged_mono [OF L(2)]) auto
    moreover have "unchanged {arr + k * sz..<arr + k * sz + sz} m3 m4" by (rule unchanged_mono [OF R(2)]) auto
    ultimately show ?thesis by (rule rd_cong [OF unchanged_trans])
  qed
  have r: "elems m3 (arr + Suc k * sz) sz (n - Suc k) = elems m2 (arr + Suc k * sz) sz (n - Suc k)"
    by (rule elems_cong, rule unchanged_mono [OF L(2)]) auto
  show "elems m4 arr sz n =
      f (take k (elems m2 arr sz n)) @ elems m2 arr sz n ! k # g (drop (Suc k) (elems m2 arr sz n))"
    using elems_split [OF k, of m4 arr sz] k unfolding l L(1) c R(1) r by (simp add: elems_take elems_drop)
  have kn: "k * sz \<le> n * sz" using k by simp
  have "unchanged (- {arr..<arr + n * sz}) m2 m3"
    using L(2) by (rule unchanged_mono) (use kn in auto)
  moreover have "unchanged (- {arr..<arr + n * sz}) m3 m4"
    using R(2) by (rule unchanged_mono) (use n in auto)
  ultimately show "unchanged (- {arr..<arr + n * sz}) m2 m4" by (rule unchanged_trans)
qed

lemma qsort_r_refines:
  assumes "compares compar cmp sz"
  shows "elems (qsort_r compar m arr n sz) arr sz n = list_qsort cmp (elems m arr sz n) \<and>
    unchanged (- {arr..<arr + n * sz}) m (qsort_r compar m arr n sz)"
proof (induction n arbitrary: m arr rule: less_induct)
  case (less n)
  show ?case
  proof (cases "n \<le> 1")
    case True
    then show ?thesis by (simp add: qsort_r.simps list_qsort_short unchanged_def)
  next
    case False
    obtain m1 k where p: "qsort_partition compar m arr sz (n - 1) 0 0 = (m1, k)"
      by (cases "qsort_partition compar m arr sz (n - 1) 0 0")
    have lp: "list_part cmp (elems m arr sz n) (n - 1) 0 0 = (elems m1 arr sz n, k)"
      and u1: "unchanged (- {arr..<arr + n * sz}) m m1"
      using partition_refines [OF assms _ _ _ p, of n] False by simp_all
    have k: "k < n" using qsort_partition_bound [of 0 "n - 1" 0 compar m arr sz] p False by simp
    define m2 where "m2 = qsort_swap m1 (arr + k * sz) (arr + (n - 1) * sz) sz"
    have e2: "elems m2 arr sz n = swap_elts (elems m1 arr sz n) k (n - 1)"
      and u2: "unchanged (- {arr..<arr + n * sz}) m1 m2"
      unfolding m2_def using elems_qsort_swap qsort_swap_unchanged k by simp_all
    define m3 where "m3 = (if k > 1 then qsort_r compar m2 arr k sz else m2)"
    have L: "elems m3 arr sz k = list_qsort cmp (elems m2 arr sz k)" "unchanged (- {arr..<arr + k * sz}) m2 m3"
      using less.IH [OF k, of m2 arr] by (auto simp: m3_def list_qsort_short unchanged_def)
    define m4 where "m4 = (if k < n - 1 then qsort_r compar m3 (arr + (k + 1) * sz) (n - k - 1) sz else m3)"
    have R: "elems m4 (arr + Suc k * sz) sz (n - Suc k) = list_qsort cmp (elems m3 (arr + Suc k * sz) sz (n - Suc k))"
      "unchanged (- {arr + Suc k * sz..<arr + Suc k * sz + (n - Suc k) * sz}) m3 m4"
      using less.IH [of "n - Suc k" m3 "arr + Suc k * sz"] k by (auto simp: m4_def list_qsort_short unchanged_def)
    have "qsort_r compar m arr n sz = m4"
      by (subst qsort_r.simps) (use False p in \<open>simp add: m2_def m3_def m4_def Let_def\<close>)
    moreover have "list_qsort cmp (elems m arr sz n) = list_qsort cmp (take k (elems m2 arr sz n)) @
        elems m2 arr sz n ! k # list_qsort cmp (drop (Suc k) (elems m2 arr sz n))"
      by (subst list_qsort.simps) (use False lp e2 in \<open>simp add: Let_def\<close>)
    ultimately show ?thesis
      using sides_sorted [where f = "list_qsort cmp" and g = "list_qsort cmp", OF k L R] unchanged_trans [OF unchanged_trans [OF u1 u2]] by simp
  qed
qed

lemma bsearch_refines:
  assumes "\<forall>i<n. compar m key (p + i * sz) = f (elems m p sz n ! i)" "hi \<le> n"
  shows "bsearch_loop compar m key p sz lo hi =
    (case list_bsearch f (elems m p sz n) lo hi of None \<Rightarrow> 0 | Some i \<Rightarrow> p + i * sz)"
  using assms
proof (induction compar m key p sz lo hi rule: bsearch_loop.induct)
  case (1 compar m key p sz lo hi)
  show ?case
  proof (cases "lo < hi")
    case True
    define mid where "mid = lo + (hi - lo) div 2"
    have "mid < hi" using True by (auto simp: mid_def)
    then have "compar m key (p + mid * sz) = f (elems m p sz n ! mid)" using "1.prems" by auto
    then show ?thesis
      using "1.IH" [OF True mid_def refl] "1.prems" \<open>mid < hi\<close> True
      by (simp add: bsearch_loop.simps [of compar m key p sz lo hi] list_bsearch.simps [of f _ lo hi]
          Let_def mid_def [symmetric])
  qed (simp add: bsearch_loop.simps list_bsearch.simps)
qed

end
