(* ===== verification/Cact_Heap.thy ===== *)
theory Cact_Heap
  imports Cact_String "HOL-Library.Word" "HOL-Library.Monad_Syntax"
begin

text \<open>
  The heap of \<open>src/stdlib.c\<close>: \<open>malloc\<close>, \<open>free\<close>, \<open>calloc\<close>, \<open>realloc\<close> and the aligned
  allocators, over the \<open>brk\<close> area of the kernel.  This theory holds the definitions only; the
  lemmas are in \<open>Cact_Heap_Lemmas\<close>.

  The block headers are a typed store, one header per address; the payload bytes are the byte
  memory \<open>dat\<close>.  That the two never overlap is what the invariant of the lemma theory shows: the
  blocks of the chain tile the heap.  The kernel is a parameter, a record of its system calls over
  a kernel state of any type.
\<close>

unbundle bit_operations_syntax

section \<open>State\<close>

text \<open>\<open>struct block_header\<close>: six words, 24 bytes.\<close>

record block_header =
  magic :: nat
  bsize :: nat
  is_free :: nat
  next_block :: nat
  mbase :: nat
  mlen :: nat

definition BLOCK_MAGIC :: nat where "BLOCK_MAGIC = 0xA110CA7E"

definition MMAP_MAGIC :: nat where "MMAP_MAGIC = 0xA110CA7F"

definition BLOCK_SIZE :: nat where "BLOCK_SIZE = 24"

definition UINTPTR_MAX :: nat where "UINTPTR_MAX = 0xFFFFFFFF"

definition ENOMEM :: int where "ENOMEM = 12"

definition EINVAL :: int where "EINVAL = 22"

definition CACT_PAGE_SIZE :: nat where "CACT_PAGE_SIZE = 4096"

text \<open>The system calls the heap makes: \<open>SYS_BRK\<close> with an address (0 asks for the break), an
  anonymous private \<open>SYS_MMAP\<close> of a length, \<open>SYS_MUNMAP\<close> of a mapping.\<close>

record 'k kernel =
  sys_brk :: "'k \<Rightarrow> nat \<Rightarrow> 'k \<times> nat"
  sys_mmap :: "'k \<Rightarrow> nat \<Rightarrow> 'k \<times> nat"
  sys_munmap :: "'k \<Rightarrow> nat \<Rightarrow> nat \<Rightarrow> 'k"

record 'k heap =
  hdr :: "nat \<Rightarrow> block_header"
  free_list :: nat
  heap_initialized :: bool
  malloc_lock :: bool
  dat :: mem
  kern :: 'k
  errno :: int

definition put_hdr :: "nat \<Rightarrow> (block_header \<Rightarrow> block_header) \<Rightarrow> 'k heap \<Rightarrow> 'k heap" where
  "put_hdr a f h = h\<lparr>hdr := (hdr h)(a := f (hdr h a))\<rparr>"

section \<open>Operations\<close>

text \<open>A spin lock that is held and that nobody can release is a loop that does not end:
  \<open>None\<close>.  The interleaving of several threads is the subject of \<open>Cact_Mutex\<close>.\<close>

definition malloc_lock_acquire :: "'k heap \<Rightarrow> 'k heap option" where
  "malloc_lock_acquire h = (if malloc_lock h then None else Some (h\<lparr>malloc_lock := True\<rparr>))"

definition malloc_lock_release :: "'k heap \<Rightarrow> 'k heap" where
  "malloc_lock_release h = h\<lparr>malloc_lock := False\<rparr>"

definition heap_init :: "'k heap \<Rightarrow> 'k heap" where
  "heap_init h = (if heap_initialized h then h else h\<lparr>heap_initialized := True, free_list := 0\<rparr>)"

definition ALIGN8 :: "nat \<Rightarrow> nat" where
  "ALIGN8 x = add32 x 7 AND 0xFFFFFFF8"

partial_function (option) find_free_block :: "(nat \<Rightarrow> block_header) \<Rightarrow> nat \<Rightarrow> nat \<Rightarrow> nat option" where
  "find_free_block hs cur sz =
     (if cur = 0 then Some 0
      else if is_free (hs cur) \<noteq> 0 \<and> bsize (hs cur) \<ge> sz then Some cur
      else find_free_block hs (next_block (hs cur)) sz)"

partial_function (option) last_block :: "(nat \<Rightarrow> block_header) \<Rightarrow> nat \<Rightarrow> nat option" where
  "last_block hs lst =
     (if next_block (hs lst) \<noteq> 0 then last_block hs (next_block (hs lst)) else Some lst)"

definition append_block :: "nat \<Rightarrow> 'k heap \<Rightarrow> 'k heap option" where
  "append_block block h =
     (if free_list h = 0 then Some (h\<lparr>free_list := block\<rparr>)
      else do {
        lst \<leftarrow> last_block (hdr h) (free_list h);
        Some (put_hdr lst (\<lambda>b. b\<lparr>next_block := block\<rparr>) h)
      })"

text \<open>The second half of \<open>request_space\<close>: the header of the new block, the remainder when it is
  big enough to be a block, and the link at the end of the chain.\<close>

definition install_block :: "nat \<Rightarrow> nat \<Rightarrow> nat \<Rightarrow> 'k heap \<Rightarrow> ('k heap \<times> nat) option" where
  "install_block sz request block h2 =
     (let h3 = put_hdr block (\<lambda>b. b\<lparr>magic := BLOCK_MAGIC, bsize := sub32 request BLOCK_SIZE,
                                     is_free := 0, next_block := 0\<rparr>) h2
      in if bsize (hdr h3 block) > add32 (add32 sz BLOCK_SIZE) 16
         then let remainder = add32 (add32 block BLOCK_SIZE) sz;
                  h4 = put_hdr remainder (\<lambda>b. b\<lparr>magic := BLOCK_MAGIC,
                         bsize := sub32 (sub32 (bsize (hdr h3 block)) sz) BLOCK_SIZE,
                         is_free := 1, next_block := 0\<rparr>) h3;
                  h5 = put_hdr block (\<lambda>b. b\<lparr>bsize := sz, next_block := remainder\<rparr>) h4
              in do { h6 \<leftarrow> append_block block h5; Some (h6, block) }
         else do { h6 \<leftarrow> append_block block h3; Some (h6, block) })"

definition request_space :: "'k kernel \<Rightarrow> nat \<Rightarrow> 'k heap \<Rightarrow> ('k heap \<times> nat) option" where
  "request_space K sz h =
     (let total = add32 BLOCK_SIZE sz;
          request = (if total < 4096 then 4096 else total);
          (k1, cur_brk) = sys_brk K (kern h) 0;
          h1 = h\<lparr>kern := k1\<rparr>
      in if cur_brk = UINTPTR_MAX then Some (h1, 0)
         else let req_brk = add32 cur_brk request
              in if req_brk < cur_brk then Some (h1, 0)
                 else let (k2, new_brk) = sys_brk K k1 req_brk;
                          h2 = h1\<lparr>kern := k2\<rparr>
                      in if new_brk = UINTPTR_MAX then Some (h2, 0)
                         else install_block sz request cur_brk h2)"

text \<open>The first branch of \<open>malloc\<close>: cut what a free block has too much into a free block.\<close>

definition carve_block :: "nat \<Rightarrow> nat \<Rightarrow> 'k heap \<Rightarrow> 'k heap" where
  "carve_block aligned block h =
     (if bsize (hdr h block) > add32 (add32 aligned BLOCK_SIZE) 16
      then let remainder = add32 (add32 block BLOCK_SIZE) aligned;
               h2 = put_hdr remainder (\<lambda>b. b\<lparr>magic := BLOCK_MAGIC,
                      bsize := sub32 (sub32 (bsize (hdr h block)) aligned) BLOCK_SIZE,
                      is_free := 1, next_block := next_block (hdr h block)\<rparr>) h
           in put_hdr block (\<lambda>b. b\<lparr>bsize := aligned, next_block := remainder\<rparr>) h2
      else h)"

definition malloc :: "'k kernel \<Rightarrow> nat \<Rightarrow> 'k heap \<Rightarrow> ('k heap \<times> nat) option" where
  "malloc K sz0 h0 = do {
     let sz = (if sz0 = 0 then 1 else sz0);
     h1 \<leftarrow> malloc_lock_acquire h0;
     let h = heap_init h1;
     let aligned = ALIGN8 sz;
     block \<leftarrow> find_free_block (hdr h) (free_list h) aligned;
     if block \<noteq> 0 then
       Some (malloc_lock_release (put_hdr block (\<lambda>b. b\<lparr>is_free := 0\<rparr>) (carve_block aligned block h)),
             add32 block BLOCK_SIZE)
     else do {
       (h', block') \<leftarrow> request_space K aligned h;
       if block' = 0 then Some (malloc_lock_release h', 0)
       else Some (malloc_lock_release (put_hdr block' (\<lambda>b. b\<lparr>is_free := 0\<rparr>) h'),
                  add32 block' BLOCK_SIZE)
     }
   }"

text \<open>The coalescing loop of \<open>free\<close>, over the header store.\<close>

partial_function (option) coalesce_loop :: "(nat \<Rightarrow> block_header) \<Rightarrow> nat \<Rightarrow> (nat \<Rightarrow> block_header) option" where
  "coalesce_loop hs cur =
     (if cur = 0 then Some hs
      else let nx = next_block (hs cur)
           in if is_free (hs cur) \<noteq> 0 \<and> nx \<noteq> 0 \<and> is_free (hs nx) \<noteq> 0
              then coalesce_loop (hs(cur := (hs cur)\<lparr>bsize := add32 (bsize (hs cur)) (add32 BLOCK_SIZE (bsize (hs nx))),
                                                    next_block := next_block (hs nx)\<rparr>)) cur
              else coalesce_loop hs nx)"

definition free :: "'k kernel \<Rightarrow> nat \<Rightarrow> 'k heap \<Rightarrow> 'k heap option" where
  "free K ptr h =
     (if ptr = 0 then Some h
      else let block = sub32 ptr BLOCK_SIZE
           in if magic (hdr h block) = MMAP_MAGIC
              then Some (h\<lparr>kern := sys_munmap K (kern h) (mbase (hdr h block)) (mlen (hdr h block))\<rparr>)
              else if magic (hdr h block) \<noteq> BLOCK_MAGIC then Some h
              else do {
                h1 \<leftarrow> malloc_lock_acquire h;
                let h2 = put_hdr block (\<lambda>b. b\<lparr>is_free := 1\<rparr>) h1;
                hs \<leftarrow> coalesce_loop (hdr h2) (free_list h2);
                Some (malloc_lock_release (h2\<lparr>hdr := hs\<rparr>))
              })"

text \<open>\<open>ALIGN_UP\<close>: the complement of \<open>a - 1\<close> at 32 bits.\<close>

definition ALIGN_UP :: "nat \<Rightarrow> nat \<Rightarrow> nat" where
  "ALIGN_UP v a = add32 v (sub32 a 1) AND sub32 0xFFFFFFFF (sub32 a 1)"

definition malloc_aligned_mmap :: "'k kernel \<Rightarrow> nat \<Rightarrow> nat \<Rightarrow> 'k heap \<Rightarrow> 'k heap \<times> nat" where
  "malloc_aligned_mmap K sz align h =
     (let need = (if sz \<noteq> 0 then sz else 1);
          page = CACT_PAGE_SIZE;
          total0 = add32 (add32 need align) BLOCK_SIZE;
          total = sub32 (add32 total0 page) 1 AND sub32 0xFFFFFFFF (sub32 page 1);
          (k1, mp) = sys_mmap K (kern h) total;
          h1 = h\<lparr>kern := k1\<rparr>
      in if mp = UINTPTR_MAX then (h1\<lparr>errno := ENOMEM\<rparr>, 0)
         else let payload = ALIGN_UP (add32 mp BLOCK_SIZE) align
              in (put_hdr (sub32 payload BLOCK_SIZE)
                    (\<lambda>b. \<lparr>magic = MMAP_MAGIC, bsize = need, is_free = 0, next_block = 0,
                           mbase = mp, mlen = total\<rparr>) h1, payload))"

text \<open>Where the payload goes: room is made for the header of a leading fragment.\<close>

definition aligned_start :: "nat \<Rightarrow> nat \<Rightarrow> nat" where
  "aligned_start base align =
     (let astart = add32 base BLOCK_SIZE;
          p = ALIGN_UP astart align
      in if p \<noteq> astart \<and> sub32 p base < mul32 2 BLOCK_SIZE then add32 p align else p)"

text \<open>The carving part of \<open>malloc_aligned\<close>: a leading fragment, the aligned block, a tail.\<close>

definition place_aligned :: "nat \<Rightarrow> nat \<Rightarrow> nat \<Rightarrow> 'k heap \<Rightarrow> 'k heap \<times> nat" where
  "place_aligned need align block h =
     (let base = block;
          bend = add32 (add32 base BLOCK_SIZE) (bsize (hdr h block));
          astart = add32 base BLOCK_SIZE;
          p = aligned_start base align;
          lead = sub32 p astart;
          tail0 = sub32 bend (add32 p need);
          (used, tail) = (if tail0 < BLOCK_SIZE + 8 then (add32 need tail0, 0) else (need, tail0));
          old_next = next_block (hdr h block);
          (h2, aligned) =
            (if lead = 0 then (h, block)
             else let aligned = sub32 p BLOCK_SIZE;
                      h' = put_hdr aligned (\<lambda>b. b\<lparr>magic := BLOCK_MAGIC\<rparr>) h
                  in (put_hdr block (\<lambda>b. b\<lparr>bsize := sub32 lead BLOCK_SIZE, is_free := 1,
                                            next_block := aligned\<rparr>) h', aligned));
          h3 = put_hdr aligned (\<lambda>b. b\<lparr>bsize := used, is_free := 0\<rparr>) h2;
          h4 = (if tail \<noteq> 0
                then let rest = add32 p used;
                         h' = put_hdr rest (\<lambda>b. b\<lparr>magic := BLOCK_MAGIC, bsize := sub32 tail BLOCK_SIZE,
                                                 is_free := 1, next_block := old_next\<rparr>) h3
                     in put_hdr aligned (\<lambda>b. b\<lparr>next_block := rest\<rparr>) h'
                else put_hdr aligned (\<lambda>b. b\<lparr>next_block := old_next\<rparr>) h3)
      in (h4, p))"

definition malloc_aligned :: "'k kernel \<Rightarrow> nat \<Rightarrow> nat \<Rightarrow> 'k heap \<Rightarrow> ('k heap \<times> nat) option" where
  "malloc_aligned K sz align h0 =
     (let need = ALIGN8 (if sz \<noteq> 0 then sz else 1)
      in if align > 2 ^ 20 then Some (malloc_aligned_mmap K sz align h0)
         else do {
           h1 \<leftarrow> malloc_lock_acquire h0;
           let h = heap_init h1;
           let want = add32 (add32 (add32 need (mul32 2 align)) (mul32 2 BLOCK_SIZE)) 8;
           found \<leftarrow> find_free_block (hdr h) (free_list h) want;
           (h, block) \<leftarrow> (if found \<noteq> 0 then Some (h, found) else request_space K want h);
           if block = 0 then Some (malloc_lock_release h, 0)
           else let (h', p) = place_aligned need align block h
                in Some (malloc_lock_release h', p)
         })"

text \<open>The check both callers of \<open>malloc_aligned\<close> make: at least a pointer wide, one bit set.\<close>

definition bad_alignment :: "nat \<Rightarrow> bool" where
  "bad_alignment alignment \<longleftrightarrow> alignment < 4 \<or> alignment AND sub32 alignment 1 \<noteq> 0"

text \<open>\<open>posix_memalign\<close> returns its error code; the pointer is stored through \<open>memptr\<close> only on
  success, so the result here is the code and the pointer stored, if any.\<close>

definition posix_memalign ::
  "'k kernel \<Rightarrow> bool \<Rightarrow> nat \<Rightarrow> nat \<Rightarrow> 'k heap \<Rightarrow> ('k heap \<times> int \<times> nat option) option" where
  "posix_memalign K memptr alignment sz h =
     (if \<not> memptr then Some (h, EINVAL, None)
      else if bad_alignment alignment then Some (h, EINVAL, None)
      else do {
        (h', p) \<leftarrow> (if alignment \<le> 8 then malloc K sz h else malloc_aligned K sz alignment h);
        if p = 0 then Some (h', ENOMEM, None) else Some (h', 0, Some p)
      })"

definition aligned_alloc :: "'k kernel \<Rightarrow> nat \<Rightarrow> nat \<Rightarrow> 'k heap \<Rightarrow> ('k heap \<times> nat) option" where
  "aligned_alloc K alignment sz h =
     (if bad_alignment alignment then Some (h\<lparr>errno := EINVAL\<rparr>, 0)
      else do {
        (h', p) \<leftarrow> (if alignment \<le> 8 then malloc K sz h else malloc_aligned K sz alignment h);
        if p = 0 then Some (h'\<lparr>errno := ENOMEM\<rparr>, 0) else Some (h', p)
      })"

definition memalign :: "'k kernel \<Rightarrow> nat \<Rightarrow> nat \<Rightarrow> 'k heap \<Rightarrow> ('k heap \<times> nat) option" where
  "memalign K alignment sz h = aligned_alloc K alignment sz h"

definition calloc :: "'k kernel \<Rightarrow> nat \<Rightarrow> nat \<Rightarrow> 'k heap \<Rightarrow> ('k heap \<times> nat) option" where
  "calloc K nmemb sz h = do {
     let total = mul32 nmemb sz;
     (h', ptr) \<leftarrow> malloc K total h;
     if ptr \<noteq> 0 then Some (h'\<lparr>dat := memset (dat h') ptr 0 total\<rparr>, ptr) else Some (h', ptr)
   }"

definition realloc :: "'k kernel \<Rightarrow> nat \<Rightarrow> nat \<Rightarrow> 'k heap \<Rightarrow> ('k heap \<times> nat) option" where
  "realloc K ptr sz h =
     (if ptr = 0 then malloc K sz h
      else if sz = 0 then do { h' \<leftarrow> free K ptr h; Some (h', 0) }
      else let block = sub32 ptr BLOCK_SIZE
           in if magic (hdr h block) = MMAP_MAGIC
              then do {
                (h1, np) \<leftarrow> malloc K sz h;
                if np = 0 then Some (h1, 0)
                else do {
                  let n = (if bsize (hdr h1 block) < sz then bsize (hdr h1 block) else sz);
                  h3 \<leftarrow> free K ptr (h1\<lparr>dat := memcpy (dat h1) np ptr n\<rparr>);
                  Some (h3, np)
                }
              }
              else if magic (hdr h block) \<noteq> BLOCK_MAGIC then Some (h, 0)
              else if bsize (hdr h block) \<ge> sz then Some (h, ptr)
              else do {
                (h1, new_ptr) \<leftarrow> malloc K sz h;
                if new_ptr = 0 then Some (h1, 0)
                else do {
                  h3 \<leftarrow> free K ptr (h1\<lparr>dat := memcpy (dat h1) new_ptr ptr (bsize (hdr h1 block))\<rparr>);
                  Some (h3, new_ptr)
                }
              })"

end
