(* ===== verification/Cact_Heap_Lemmas.thy ===== *)
theory Cact_Heap_Lemmas
  imports Cact_Heap Cact_String_Lemmas
begin

text \<open>
  The heap of \<open>Cact_Heap\<close> refines a list of blocks: the chain of headers in memory is a list of
  triples (address, payload size, free?) that tiles the area from the first block to the break
  with no gap and no overlap.  Each operation is shown to return and to act on that list; the live
  blocks it must not touch are read off the list.
\<close>

section \<open>Chains of blocks\<close>

type_synonym blk = "nat \<times> nat \<times> bool"

text \<open>\<open>lseg hs p bs q\<close>: the headers from \<open>p\<close> up to \<open>q\<close> are the blocks \<open>bs\<close>.\<close>

fun lseg :: "(nat \<Rightarrow> block_header) \<Rightarrow> nat \<Rightarrow> blk list \<Rightarrow> nat \<Rightarrow> bool" where
  "lseg hs p [] q \<longleftrightarrow> p = q"
| "lseg hs p ((a, n, f) # bs) q \<longleftrightarrow>
     p = a \<and> a \<noteq> 0 \<and> magic (hs a) = BLOCK_MAGIC \<and> bsize (hs a) = n \<and> (is_free (hs a) \<noteq> 0) = f \<and>
     lseg hs (next_block (hs a)) bs q"

text \<open>\<open>tiled s bs e\<close>: the blocks, headers included, fill the area from \<open>s\<close> to \<open>e\<close>; every payload
  size is a multiple of eight.\<close>

fun tiled :: "nat \<Rightarrow> blk list \<Rightarrow> nat \<Rightarrow> bool" where
  "tiled s [] e \<longleftrightarrow> s = e"
| "tiled s ((a, n, f) # bs) e \<longleftrightarrow> a = s \<and> 8 dvd n \<and> tiled (a + 24 + n) bs e"

lemma lseg_append [simp]:
  "lseg hs p (xs @ ys) q \<longleftrightarrow> (\<exists>r. lseg hs p xs r \<and> lseg hs r ys q)"
  by (induction xs arbitrary: p) auto

lemma tiled_append [simp]:
  "tiled s (xs @ ys) e \<longleftrightarrow> (\<exists>r. tiled s xs r \<and> tiled r ys e)"
  by (induction xs arbitrary: s) auto

lemma lseg_frame:
  "(\<And>b. b \<in> set bs \<Longrightarrow> hs' (fst b) = hs (fst b)) \<Longrightarrow> lseg hs' p bs q = lseg hs p bs q"
proof (induction bs arbitrary: p)
  case (Cons b bs)
  obtain a n f where b: "b = (a, n, f)" by (cases b)
  have "hs' a = hs a" using Cons.prems [of b] b by simp
  moreover have "lseg hs' (next_block (hs a)) bs q = lseg hs (next_block (hs a)) bs q"
    using Cons.prems by (intro Cons.IH) simp
  ultimately show ?case by (simp add: b)
qed simp

lemma tiled_le: "tiled s bs e \<Longrightarrow> s \<le> e"
  by (induction s bs e rule: tiled.induct) auto

lemma tiled_bounds:
  "tiled s bs e \<Longrightarrow> (a, n, f) \<in> set bs \<Longrightarrow> s \<le> a \<and> a + 24 + n \<le> e \<and> 8 dvd n"
  by (induction s bs e rule: tiled.induct) (auto dest: tiled_le)

lemma tiled_aligned: "tiled s bs e \<Longrightarrow> 8 dvd s \<Longrightarrow> 8 dvd e"
proof (induction s bs e rule: tiled.induct)
  case (2 s a n f bs e)
  have a: "a = s" "8 dvd n" "tiled (a + 24 + n) bs e" using "2.prems"(1) by auto
  moreover have "8 dvd a + 24 + n" using a "2.prems"(2) by (intro dvd_add) simp_all
  ultimately show ?case using "2.IH" by blast
qed simp

lemma tiled_addr_aligned:
  assumes "tiled s bs e" "8 dvd s" "(a, n, f) \<in> set bs"
  shows "8 dvd a"
proof -
  obtain xs ys where "bs = xs @ (a, n, f) # ys" using assms(3) by (meson split_list)
  with assms(1) have "tiled s xs a" by auto
  with assms(2) show ?thesis by (rule tiled_aligned [rotated])
qed

text \<open>Blocks before and after a block lie on their own side of it.\<close>

lemma tiled_before: "tiled s xs a \<Longrightarrow> b \<in> set xs \<Longrightarrow> fst b < a"
  using tiled_bounds [of s xs a "fst b" "fst (snd b)" "snd (snd b)"] by (cases b) auto

lemma tiled_after: "tiled e ys z \<Longrightarrow> b \<in> set ys \<Longrightarrow> e \<le> fst b"
  using tiled_bounds [of e ys z "fst b" "fst (snd b)" "snd (snd b)"] by (cases b) auto

section \<open>The invariant\<close>

text \<open>
  \<open>heap_rel brk_of h bs\<close>: the chain of \<open>h\<close> is \<open>bs\<close>, it tiles an eight-aligned area that ends at
  the kernel's break (\<open>brk_of\<close> reads the break off the kernel state), and the lock is free.
\<close>

definition chain_rel :: "('k \<Rightarrow> nat) \<Rightarrow> 'k heap \<Rightarrow> blk list \<Rightarrow> bool" where
  "chain_rel brk_of h bs \<longleftrightarrow>
     lseg (hdr h) (free_list h) bs 0 \<and>
     (\<exists>s. 0 < s \<and> 8 dvd s \<and> tiled s bs (brk_of (kern h))) \<and> brk_of (kern h) < 4294967296"

definition heap_rel :: "('k \<Rightarrow> nat) \<Rightarrow> 'k heap \<Rightarrow> blk list \<Rightarrow> bool" where
  "heap_rel brk_of h bs \<longleftrightarrow>
     chain_rel brk_of h bs \<and> \<not> malloc_lock h \<and> (heap_initialized h \<or> free_list h = 0)"

text \<open>What the code relies on of \<open>SYS_BRK\<close>: asked with 0 it returns the break and moves nothing;
  asked with an address it either fails with \<open>-1\<close> and moves nothing, or the break is that address.\<close>

definition brk_law :: "'k kernel \<Rightarrow> ('k \<Rightarrow> nat) \<Rightarrow> bool" where
  "brk_law K brk_of \<longleftrightarrow>
     (\<forall>k. snd (sys_brk K k 0) = brk_of k \<and> brk_of (fst (sys_brk K k 0)) = brk_of k) \<and>
     (\<forall>k a. a \<noteq> 0 \<longrightarrow> brk_of (fst (sys_brk K k a)) =
        (if snd (sys_brk K k a) = UINTPTR_MAX then brk_of k else a))"

text \<open>The live blocks, as the caller sees them: payload address and size.\<close>

definition live :: "blk list \<Rightarrow> (nat \<times> nat) set" where
  "live bs = {(a + 24, n) | a n. (a, n, False) \<in> set bs}"

lemma live_simps [simp]:
  "live [] = {}"
  "live ((a, n, True) # bs) = live bs"
  "live ((a, n, False) # bs) = insert (a + 24, n) (live bs)"
  "live (xs @ ys) = live xs \<union> live ys"
  by (auto simp: live_def)

text \<open>Two live blocks never overlap, not even with a header between them.\<close>

lemma live_disjoint:
  assumes "tiled s bs e" "(p, m) \<in> live bs" "(q, n) \<in> live bs" "(p, m) \<noteq> (q, n)"
  shows "p + m + 24 \<le> q \<or> q + n + 24 \<le> p"
proof -
  obtain a b where ab: "p = a + 24" "q = b + 24" "(a, m, False) \<in> set bs" "(b, n, False) \<in> set bs"
    using assms by (auto simp: live_def)
  then obtain xs ys where bs: "bs = xs @ (a, m, False) # ys" by (meson split_list)
  then have "(b, n, False) \<in> set xs \<or> (b, n, False) \<in> set ys" using ab assms(4) by auto
  moreover have "tiled s xs a" "tiled (a + 24 + m) ys e" using assms(1) bs by auto
  ultimately show ?thesis using ab tiled_bounds by fastforce
qed

lemma live_in_heap:
  assumes "tiled s bs e" "(p, m) \<in> live bs"
  shows "s + 24 \<le> p \<and> p + m \<le> e"
  using assms tiled_bounds by (fastforce simp: live_def)

section \<open>Alignment\<close>

lemma and_clear_low:
  assumes "x < 4294967296" "k \<le> 32"
  shows "x AND (4294967295 - (2 ^ k - 1)) = x div 2 ^ k * (2 ^ k :: nat)"
proof (rule bit_eqI)
  fix n
  have "(2 :: nat) ^ k \<le> 2 ^ 32" using assms(2) by (rule power_increasing) simp
  then have "4294967295 - (2 ^ k - 1) = (2 ^ 32 - 2 ^ k :: nat)" by simp
  also have "\<dots> = (mask (32 - k)) * 2 ^ k"
    using assms(2) by (simp add: mask_eq_exp_minus_1 diff_mult_distrib flip: power_add)
  finally have m: "4294967295 - (2 ^ k - 1) = (push_bit k (mask (32 - k)) :: nat)"
    by (simp add: push_bit_eq_mult)
  have "bit x n \<Longrightarrow> n < 32"
  proof (rule ccontr)
    assume "bit x n" "\<not> n < 32"
    then have "2 ^ 32 \<le> (2 :: nat) ^ n" by (intro power_increasing) simp_all
    with assms(1) have "x < 2 ^ n" by simp
    with \<open>bit x n\<close> show False by (simp add: bit_iff_odd)
  qed
  then show "bit (x AND (4294967295 - (2 ^ k - 1))) n = bit (x div 2 ^ k * 2 ^ k) n"
    unfolding m
    by (auto simp: bit_simps simp flip: drop_bit_eq_div push_bit_eq_mult)
qed

lemma div_mult_near: "0 < m \<Longrightarrow> v \<le> (v + m - 1) div m * m \<and> (v + m - 1) div m * m < v + m" for m :: nat
proof -
  assume m: "0 < m"
  have "(v + m - 1) div m * m + (v + m - 1) mod m = v + m - 1" by simp
  moreover have "(v + m - 1) mod m < m" using m by simp
  ultimately show ?thesis using m by linarith
qed

lemma ALIGN8_props:
  assumes "x \<le> 4294967288"
  shows "8 dvd ALIGN8 x" "x \<le> ALIGN8 x" "ALIGN8 x < x + 8"
proof -
  have "add32 x 7 = x + 7" using assms by (simp add: add32_id)
  then have "ALIGN8 x = (x + 8 - 1) div 8 * 8"
    using and_clear_low [of "x + 7" 3] assms by (simp add: ALIGN8_def)
  with div_mult_near [of 8 x] show "8 dvd ALIGN8 x" "x \<le> ALIGN8 x" "ALIGN8 x < x + 8"
    by (simp_all only: dvd_triv_right)
qed

lemma ALIGN_UP_props:
  assumes "v + 2 ^ k \<le> 4294967296" "k < 32"
  shows "2 ^ k dvd ALIGN_UP v (2 ^ k)" "v \<le> ALIGN_UP v (2 ^ k)" "ALIGN_UP v (2 ^ k) < v + 2 ^ k"
proof -
  have k: "(2 :: nat) ^ k < 2 ^ 32" using assms(2) by (rule power_strict_increasing) simp
  have a: "sub32 (2 ^ k) 1 = 2 ^ k - 1" using k by (intro sub32_id) simp_all
  have b: "add32 v (2 ^ k - 1) = v + 2 ^ k - 1" using assms(1) by (subst add32_id) simp_all
  have c: "sub32 4294967295 (2 ^ k - 1) = 4294967295 - (2 ^ k - 1)" using k by (intro sub32_id) simp_all
  have "v + 2 ^ k - 1 < 4294967296" using assms(1) by (simp add: Suc_le_eq)
  then have "ALIGN_UP v (2 ^ k) = (v + 2 ^ k - 1) div 2 ^ k * 2 ^ k"
    unfolding ALIGN_UP_def a b c using assms(2) by (intro and_clear_low) simp_all
  with div_mult_near [of "2 ^ k" v]
  show "2 ^ k dvd ALIGN_UP v (2 ^ k)" "v \<le> ALIGN_UP v (2 ^ k)" "ALIGN_UP v (2 ^ k) < v + 2 ^ k"
    by (simp_all only: dvd_triv_right zero_less_power zero_less_numeral)
qed

text \<open>The usual test for a power of two.\<close>

lemma one_bit_iff: "0 < a \<Longrightarrow> a AND (a - 1) = 0 \<longleftrightarrow> (\<exists>k. a = 2 ^ k)" for a :: nat
proof (induction a rule: less_induct)
  case (less a)
  show ?case
  proof (cases "even a")
    case True
    then obtain c where c: "a = 2 * c" by (elim evenE)
    have "(2 * c - 1) div 2 = c - 1" using less.prems c by presburger
    then have "a AND (a - 1) = 2 * (c AND (c - 1))"
      using and_rec [of a "a - 1"] c by simp
    then have "a AND (a - 1) = 0 \<longleftrightarrow> (\<exists>k. c = 2 ^ k)"
      using less.IH [of c] less.prems c by simp
    also have "\<dots> \<longleftrightarrow> (\<exists>k. a = 2 ^ k)"
    proof
      assume "\<exists>k. c = 2 ^ k"
      then obtain k where "c = 2 ^ k" ..
      then have "a = 2 ^ Suc k" using c by simp
      then show "\<exists>k. a = 2 ^ k" ..
    next
      assume "\<exists>k. a = 2 ^ k"
      then obtain k where k: "a = 2 ^ k" ..
      with True obtain j where "k = Suc j" by (cases k) simp_all
      with k c show "\<exists>k. c = 2 ^ k" by auto
    qed
    finally show ?thesis .
  next
    case False
    then obtain c where c: "a = 2 * c + 1" by (elim oddE)
    have "a AND (a - 1) = 2 * c" using and_rec [of a "a - 1"] c by simp
    moreover have "(\<exists>k. a = 2 ^ k) \<longleftrightarrow> c = 0"
    proof
      assume "\<exists>k. a = 2 ^ k"
      then obtain k where "a = 2 ^ k" ..
      with False have "k = 0" by (cases k) simp_all
      with \<open>a = 2 ^ k\<close> c show "c = 0" by simp
    next
      assume "c = 0"
      with c have "a = 2 ^ 0" by simp
      then show "\<exists>k. a = 2 ^ k" ..
    qed
    ultimately show ?thesis by simp
  qed
qed

lemma good_alignment:
  assumes "a < 4294967296"
  shows "\<not> bad_alignment a \<longleftrightarrow> (\<exists>k. 2 \<le> k \<and> k < 32 \<and> a = 2 ^ k)"
proof -
  have pow: "4 \<le> (2 :: nat) ^ k \<longleftrightarrow> 2 \<le> k" "(2 :: nat) ^ k < 4294967296 \<longleftrightarrow> k < 32" for k
    using power_increasing_iff [of "2 :: nat" 2 k] power_strict_increasing_iff [of "2 :: nat" k 32]
    by simp_all
  show ?thesis
  proof (cases "a < 4")
    case True
    moreover have "\<not> (\<exists>k. 2 \<le> k \<and> k < 32 \<and> a = 2 ^ k)"
      using True pow(1) by (metis not_le)
    ultimately show ?thesis by (simp add: bad_alignment_def)
  next
    case False
    then have "sub32 a 1 = a - 1" using assms by (intro sub32_id) simp_all
    then have "\<not> bad_alignment a \<longleftrightarrow> (\<exists>k. a = 2 ^ k)"
      using False one_bit_iff [of a] by (simp add: bad_alignment_def)
    also have "\<dots> \<longleftrightarrow> (\<exists>k. 2 \<le> k \<and> k < 32 \<and> a = 2 ^ k)"
      using False assms pow by (metis not_less)
    finally show ?thesis .
  qed
qed

section \<open>Walking and rewriting the chain\<close>

lemma find_free_block_lseg:
  "lseg hs p bs 0 \<Longrightarrow> find_free_block hs p sz =
     Some (case List.find (\<lambda>(a, n, f). f \<and> sz \<le> n) bs of None \<Rightarrow> 0 | Some b \<Rightarrow> fst b)"
proof (induction bs arbitrary: p)
  case (Cons b bs)
  obtain a n f where b: "b = (a, n, f)" by (cases b)
  have IH: "find_free_block hs (next_block (hs a)) sz =
      Some (case List.find (\<lambda>(a, n, f). f \<and> sz \<le> n) bs of None \<Rightarrow> 0 | Some b \<Rightarrow> fst b)"
    using Cons.prems b by (intro Cons.IH) simp
  show ?case using Cons.prems b
    by (subst find_free_block.simps) (auto simp: IH)
qed (simp add: find_free_block.simps)

lemma last_block_lseg:
  "lseg hs p bs 0 \<Longrightarrow> bs \<noteq> [] \<Longrightarrow> last_block hs p = Some (fst (last bs))"
proof (induction bs arbitrary: p)
  case (Cons b bs)
  obtain a n f where b: "b = (a, n, f)" by (cases b)
  show ?case
  proof (cases bs)
    case Nil
    with Cons.prems b show ?thesis by (subst last_block.simps) auto
  next
    case (Cons b' bs')
    with Cons.prems b have "lseg hs (next_block (hs a)) bs 0" "next_block (hs a) \<noteq> 0" "p = a"
      by (cases b'; auto)+
    then show ?thesis using Cons.IH [of "next_block (hs a)"] Cons b
      by (subst last_block.simps) simp
  qed
qed simp

lemma lseg_splice:
  assumes "lseg hs p (xs @ (a, n, f) # ys) q" "tiled s (xs @ (a, n, f) # ys) e"
    and "\<And>b. b < a \<or> a + 24 + n \<le> b \<Longrightarrow> hs' b = hs b"
    and "lseg hs' a new (next_block (hs a))"
  shows "lseg hs' p (xs @ new @ ys) q"
proof -
  have xs: "lseg hs p xs a" and ys: "lseg hs (next_block (hs a)) ys q" using assms(1) by auto
  have t: "tiled s xs a" "tiled (a + 24 + n) ys e" using assms(2) by auto
  have "lseg hs' p xs a" using xs assms(3) tiled_before [OF t(1)] by (subst lseg_frame [of _ _ hs]) auto
  moreover have "lseg hs' (next_block (hs a)) ys q"
    using ys assms(3) tiled_after [OF t(2)] by (subst lseg_frame [of _ _ hs]) auto
  ultimately show ?thesis using assms(4) by auto
qed

lemma tiled_splice:
  assumes "tiled s (xs @ (a, n, f) # ys) e" "tiled a new (a + 24 + n)"
  shows "tiled s (xs @ new @ ys) e"
  using assms by auto

lemma append_block_lseg:
  assumes "lseg (hdr h) (free_list h) bs 0" "lseg (hdr h) block new 0" "block \<noteq> 0"
    and "tiled s bs e" "\<And>b. b \<in> set new \<Longrightarrow> e \<le> fst b"
  shows "\<exists>hs fl. append_block block h = Some (h\<lparr>hdr := hs, free_list := fl\<rparr>) \<and> lseg hs fl (bs @ new) 0"
proof (cases "bs = []")
  case True
  with assms have "append_block block h = Some (h\<lparr>hdr := hdr h, free_list := block\<rparr>)"
    by (simp add: append_block_def)
  with True assms(2) show ?thesis by fastforce
next
  case False
  then obtain xs a n f where bs: "bs = xs @ [(a, n, f)]" by (metis prod_cases3 rev_exhaust)
  define hs where "hs = (hdr h)(a := (hdr h a)\<lparr>next_block := block\<rparr>)"
  have "free_list h \<noteq> 0" using assms(1) False by (cases bs) auto
  then have "append_block block h = Some (h\<lparr>hdr := hs, free_list := free_list h\<rparr>)"
    using last_block_lseg [OF assms(1) False] by (simp add: append_block_def put_hdr_def hs_def bs)
  moreover have "lseg hs (free_list h) (xs @ [(a, n, f)]) block"
  proof -
    have xs: "lseg (hdr h) (free_list h) xs a" using assms(1) bs by auto
    have "tiled s xs a" using assms(4) bs by auto
    then have "lseg hs (free_list h) xs a" using xs tiled_before
      by (subst lseg_frame [of _ _ "hdr h"]) (force simp: hs_def)+
    then show ?thesis using assms(1) bs by (auto simp: hs_def)
  qed
  moreover have "lseg hs block new 0"
  proof -
    have "a < e" using tiled_bounds [of s bs e a n f] assms(4) bs by simp
    then show ?thesis using assms(2,5)
      by (subst lseg_frame [of _ _ "hdr h"]) (force simp: hs_def)+
  qed
  ultimately show ?thesis using bs by fastforce
qed

end
