(* ===== verification/Cact_Malloc.thy ===== *)
theory Cact_Malloc
  imports Cact_Heap_Lemmas
begin

text \<open>
  What the allocator's entry points do to the list of blocks of \<open>Cact_Heap_Lemmas\<close>.
\<close>

section \<open>Growing the heap\<close>

lemma put_hdr_simps [simp]:
  "hdr (put_hdr a f h) = (hdr h)(a := f (hdr h a))"
  "free_list (put_hdr a f h) = free_list h"
  "heap_initialized (put_hdr a f h) = heap_initialized h"
  "malloc_lock (put_hdr a f h) = malloc_lock h"
  "dat (put_hdr a f h) = dat h"
  "kern (put_hdr a f h) = kern h"
  "errno (put_hdr a f h) = errno h"
  by (simp_all add: put_hdr_def)

text \<open>The part of the state the chain does not live in.\<close>

definition same_rest :: "'k heap \<Rightarrow> 'k heap \<Rightarrow> bool" where
  "same_rest h h' \<longleftrightarrow> heap_initialized h' = heap_initialized h \<and> malloc_lock h' = malloc_lock h \<and>
     dat h' = dat h \<and> errno h' = errno h"

lemma append_new:
  assumes "lseg (hdr h) (free_list h) bs 0" "0 < s" "8 dvd s" "tiled s bs cb"
    and "\<And>a. a < cb \<Longrightarrow> hdr h3 a = hdr h a" "free_list h3 = free_list h"
    and "lseg (hdr h3) cb new 0" "tiled cb new (brk_of (kern h3))" "brk_of (kern h3) < 4294967296"
  shows "\<exists>h'. append_block cb h3 = Some h' \<and> chain_rel brk_of h' (bs @ new) \<and> same_rest h3 h'"
proof -
  have "lseg (hdr h3) (free_list h3) bs 0"
    using assms(1,5,6) tiled_before [OF assms(4)] by (subst lseg_frame [of _ _ "hdr h"]) auto
  moreover have "cb \<noteq> 0" using assms(2,4) tiled_le by fastforce
  ultimately obtain hs fl where
    "append_block cb h3 = Some (h3\<lparr>hdr := hs, free_list := fl\<rparr>)" "lseg hs fl (bs @ new) 0"
    using append_block_lseg [of h3 bs cb new s cb] assms(4,7) tiled_after [OF assms(8)] by blast
  moreover have "tiled s (bs @ new) (brk_of (kern h3))" using assms(4,8) by auto
  ultimately show ?thesis using assms(2,3,9) by (auto simp: chain_rel_def same_rest_def)
qed

lemma same_rest_trans: "same_rest h h' \<Longrightarrow> same_rest h' h'' \<Longrightarrow> same_rest h h''"
  by (simp add: same_rest_def)

text \<open>The blocks a grown area of \<open>request\<close> bytes at \<open>cb\<close> is divided into.\<close>

definition new_area :: "nat \<Rightarrow> nat \<Rightarrow> nat \<Rightarrow> blk list" where
  "new_area cb sz request =
     (if request - 24 > sz + 40 then [(cb, sz, False), (cb + 24 + sz, request - 24 - sz - 24, True)]
      else [(cb, request - 24, False)])"

lemma tiled_new_area:
  assumes "8 dvd sz" "8 dvd request" "24 + sz \<le> request"
  shows "tiled cb (new_area cb sz request) (cb + request)"
proof -
  have "8 dvd request - 24" using assms(2) by (intro dvd_diff_nat) simp_all
  moreover have "8 dvd request - 24 - sz - 24"
    using calculation assms(1,2) by (intro dvd_diff_nat) simp_all
  ultimately show ?thesis using assms(1,3) by (simp add: new_area_def)
qed

lemma new_area_shape:
  "24 + sz \<le> request \<Longrightarrow> \<exists>m rest. new_area cb sz request = (cb, m, False) # rest \<and> sz \<le> m \<and> live rest = {}"
  by (cases "sz + 40 < request - 24") (simp_all add: new_area_def)

lemma install_block_spec:
  assumes ls: "lseg (hdr h) (free_list h) bs 0" "0 < s" "8 dvd s" "tiled s bs cb"
    and sz: "8 dvd sz" "8 dvd request" "24 + sz \<le> request" "cb + request < 4294967296" "sz + 40 < 4294967296"
    and brk: "brk_of (kern h) = cb + request"
  shows "\<exists>h'. install_block sz request cb h = Some (h', cb) \<and> same_rest h h' \<and>
    chain_rel brk_of h' (bs @ new_area cb sz request)"
proof -
  define h3 where "h3 = put_hdr cb (\<lambda>b. b\<lparr>magic := BLOCK_MAGIC, bsize := sub32 request BLOCK_SIZE,
                         is_free := 0, next_block := 0\<rparr>) h"
  have cb0: "cb \<noteq> 0" using ls(2) tiled_le [OF ls(4)] by simp
  have n3: "bsize (hdr h3 cb) = request - 24"
    using sz by (simp add: h3_def BLOCK_SIZE_def sub32_id)
  have lim: "add32 (add32 sz BLOCK_SIZE) 16 = sz + 40"
    using sz(5) by (simp add: BLOCK_SIZE_def add32_id)
  have fin: ?thesis
    if inst: "install_block sz request cb h = do { h6 \<leftarrow> append_block cb h'; Some (h6, cb) }"
      and h': "\<And>a. a < cb \<Longrightarrow> hdr h' a = hdr h a" "free_list h' = free_list h" "kern h' = kern h"
        "same_rest h h'" "lseg (hdr h') cb (new_area cb sz request) 0" for h'
  proof -
    have "tiled cb (new_area cb sz request) (brk_of (kern h'))"
      using tiled_new_area [OF sz(1-3)] h'(3) brk by simp
    then obtain h'' where "append_block cb h' = Some h''" "same_rest h' h''"
      "chain_rel brk_of h'' (bs @ new_area cb sz request)"
      using append_new [OF ls h'(1,2,5), of brk_of] h'(3) brk sz(4) by auto
    then show ?thesis using inst same_rest_trans [OF h'(4)] by auto
  qed
  show ?thesis
  proof (cases "sz + 40 < request - 24")
    case True
    define rem where "rem = cb + 24 + sz"
    define h4 where "h4 = put_hdr rem (\<lambda>b. b\<lparr>magic := BLOCK_MAGIC, bsize := request - 24 - sz - 24,
                           is_free := 1, next_block := 0\<rparr>) h3"
    define h5 where "h5 = put_hdr cb (\<lambda>b. b\<lparr>bsize := sz, next_block := rem\<rparr>) h4"
    have "add32 (add32 cb BLOCK_SIZE) sz = rem" "sub32 (sub32 (request - 24) sz) BLOCK_SIZE = request - 24 - sz - 24"
      using sz True by (simp_all add: BLOCK_SIZE_def add32_id sub32_id rem_def)
    then have "install_block sz request cb h = do { h6 \<leftarrow> append_block cb h5; Some (h6, cb) }"
      using True n3 lim unfolding install_block_def h3_def [symmetric] Let_def
      by (simp add: h4_def h5_def)
    then show ?thesis
      by (rule fin) (use True cb0 in \<open>simp_all add: h5_def h4_def h3_def same_rest_def new_area_def rem_def\<close>)
  next
    case False
    then have "install_block sz request cb h = do { h6 \<leftarrow> append_block cb h3; Some (h6, cb) }"
      using n3 lim unfolding install_block_def h3_def [symmetric] Let_def by simp
    then show ?thesis
      by (rule fin) (use False cb0 n3 in \<open>simp_all add: h3_def same_rest_def new_area_def\<close>)
  qed
qed

lemma brk_lawD:
  assumes "brk_law K brk_of"
  shows "snd (sys_brk K k 0) = brk_of k" "brk_of (fst (sys_brk K k 0)) = brk_of k"
    and "a \<noteq> 0 \<Longrightarrow> snd (sys_brk K k a) = UINTPTR_MAX \<Longrightarrow> brk_of (fst (sys_brk K k a)) = brk_of k"
    and "a \<noteq> 0 \<Longrightarrow> snd (sys_brk K k a) \<noteq> UINTPTR_MAX \<Longrightarrow> brk_of (fst (sys_brk K k a)) = a"
  using assms by (simp_all add: brk_law_def)

lemma no_wrap:
  assumes "x < 4294967296" "y < 4294967296" "\<not> add32 x y < x"
  shows "x + y < 4294967296" "add32 x y = x + y"
proof -
  show *: "x + y < 4294967296"
  proof (rule ccontr)
    assume c: "\<not> x + y < 4294967296"
    then have "(x + y) mod 4294967296 = x + y - 4294967296"
      using assms by (subst mod_if) simp
    then show False using assms c by (simp add: add32_def)
  qed
  then show "add32 x y = x + y" by (rule add32_id)
qed

lemma request_space_spec:
  assumes rel: "chain_rel brk_of h bs" and law: "brk_law K brk_of"
    and sz: "8 dvd sz" "sz + 40 < 4294967296"
  shows "\<exists>h' r. request_space K sz h = Some (h', r) \<and> same_rest h h' \<and>
    (r = 0 \<and> chain_rel brk_of h' bs \<or>
     (\<exists>m rest. r \<noteq> 0 \<and> sz \<le> m \<and> chain_rel brk_of h' (bs @ (r, m, False) # rest) \<and> live rest = {}))"
proof -
  define request where "request = (if 24 + sz < 4096 then 4096 else 24 + sz)"
  have req: "8 dvd request" "24 + sz \<le> request" "request < 4294967296"
    using sz by (auto simp: request_def)
  have tot: "add32 BLOCK_SIZE sz = 24 + sz" using sz by (simp add: BLOCK_SIZE_def add32_id)
  obtain k1 cb where b0: "sys_brk K (kern h) 0 = (k1, cb)" by (cases "sys_brk K (kern h) 0")
  then have k1: "cb = brk_of (kern h)" "brk_of k1 = cb"
    using brk_lawD(1,2) [OF law, of "kern h"] by simp_all
  obtain s where s: "0 < s" "8 dvd s" "tiled s bs cb" and cb: "cb < 4294967296"
    and ls: "lseg (hdr h) (free_list h) bs 0"
    using rel k1 by (auto simp: chain_rel_def)
  have cb0: "0 < cb" using s(1) tiled_le [OF s(3)] by simp
  have def: "request_space K sz h =
      (if cb = UINTPTR_MAX \<or> add32 cb request < cb then Some (h\<lparr>kern := k1\<rparr>, 0)
       else let (k2, nb) = sys_brk K k1 (add32 cb request)
            in if nb = UINTPTR_MAX then Some (h\<lparr>kern := k2\<rparr>, 0)
               else install_block sz request cb (h\<lparr>kern := k2\<rparr>))"
    unfolding request_space_def b0 tot Let_def request_def by (simp split: prod.split)
  have fail: ?thesis if "request_space K sz h = Some (h\<lparr>kern := k\<rparr>, 0)" "brk_of k = cb" for k
    using that rel k1 by (simp add: chain_rel_def same_rest_def)
  consider "cb = UINTPTR_MAX \<or> add32 cb request < cb"
    | "cb \<noteq> UINTPTR_MAX" "\<not> add32 cb request < cb" by blast
  then show ?thesis
  proof cases
    case 1
    then show ?thesis by (intro fail [OF _ k1(2)]) (auto simp: def)
  next
    case 2
    note rb = no_wrap [OF cb req(3) 2(2)]
    obtain k2 nb where b1: "sys_brk K k1 (cb + request) = (k2, nb)" by (cases "sys_brk K k1 (cb + request)")
    note k2 = brk_lawD(3,4) [OF law, of "cb + request" k1, unfolded b1 fst_conv snd_conv]
    show ?thesis
    proof (cases "nb = UINTPTR_MAX")
      case True
      then show ?thesis using 2 k2(1) cb0 k1(2) by (intro fail [of k2]) (simp_all add: def b1 rb)
    next
      case False
      then have "request_space K sz h = install_block sz request cb (h\<lparr>kern := k2\<rparr>)"
        using 2 by (simp add: def b1 rb)
      moreover obtain h' where "install_block sz request cb (h\<lparr>kern := k2\<rparr>) = Some (h', cb)"
        "same_rest (h\<lparr>kern := k2\<rparr>) h'" "chain_rel brk_of h' (bs @ new_area cb sz request)"
        using install_block_spec [of "h\<lparr>kern := k2\<rparr>" bs s cb sz request brk_of] ls s sz req rb k2(2) False cb0
        by auto
      moreover obtain m rest where "new_area cb sz request = (cb, m, False) # rest" "sz \<le> m" "live rest = {}"
        using new_area_shape [OF req(2)] by blast
      ultimately show ?thesis using cb0 by (auto simp: same_rest_def)
    qed
  qed
qed

section \<open>malloc\<close>

lemma chain_rel_bounds:
  assumes "chain_rel brk_of h bs" "(a, n, f) \<in> set bs"
  shows "0 < a" "a + 24 + n < 4294967296" "8 dvd a" "8 dvd n"
proof -
  obtain s where s: "0 < s" "8 dvd s" "tiled s bs (brk_of (kern h))" "brk_of (kern h) < 4294967296"
    using assms(1) by (auto simp: chain_rel_def)
  note b = tiled_bounds [OF s(3) assms(2)]
  show "0 < a" "a + 24 + n < 4294967296" "8 dvd n" using b s by auto
  show "8 dvd a" using tiled_addr_aligned [OF s(3,2) assms(2)] .
qed

lemma chain_rel_splice:
  assumes "chain_rel brk_of h (xs @ (a, n, f) # ys)"
    and "\<And>b. b < a \<or> a + 24 + n \<le> b \<Longrightarrow> hdr h' b = hdr h b"
    and "lseg (hdr h') a new (next_block (hdr h a))" "tiled a new (a + 24 + n)"
    and "free_list h' = free_list h" "kern h' = kern h"
  shows "chain_rel brk_of h' (xs @ new @ ys)"
proof -
  obtain s where s: "0 < s" "8 dvd s" "tiled s (xs @ (a, n, f) # ys) (brk_of (kern h))"
    using assms(1) by (auto simp: chain_rel_def)
  have "lseg (hdr h) (free_list h) (xs @ (a, n, f) # ys) 0" using assms(1) by (simp add: chain_rel_def)
  from lseg_splice [OF this s(3) assms(2,3)] tiled_splice [OF s(3) assms(4)] s(1,2)
  show ?thesis using assms(1,5,6) by (auto simp: chain_rel_def)
qed

text \<open>The blocks \<open>malloc\<close> makes of a free block of \<open>n\<close> bytes.\<close>

definition taken :: "nat \<Rightarrow> nat \<Rightarrow> nat \<Rightarrow> blk list" where
  "taken a n A = (if n > A + 40 then [(a, A, False), (a + 24 + A, n - A - 24, True)] else [(a, n, False)])"

lemma take_block:
  assumes rel: "chain_rel brk_of h (xs @ (a, n, True) # ys)" and A: "8 dvd A" "A \<le> n" "A + 40 < 4294967296"
  shows "chain_rel brk_of (put_hdr a (\<lambda>b. b\<lparr>is_free := 0\<rparr>) (carve_block A a h)) (xs @ taken a n A @ ys)"
    "same_rest h (put_hdr a (\<lambda>b. b\<lparr>is_free := 0\<rparr>) (carve_block A a h))"
proof -
  note b = chain_rel_bounds [OF rel, of a n True, simplified]
  have a: "bsize (hdr h a) = n" "magic (hdr h a) = BLOCK_MAGIC"
    using rel by (auto simp: chain_rel_def)
  define r where "r = a + 24 + A"
  have e: "add32 (add32 A BLOCK_SIZE) 16 = A + 40" "add32 (add32 a BLOCK_SIZE) A = r"
    "n > A + 40 \<Longrightarrow> sub32 (sub32 n A) BLOCK_SIZE = n - A - 24"
    using A b by (simp_all add: BLOCK_SIZE_def add32_id sub32_id r_def)
  have t: "tiled a (taken a n A) (a + 24 + n)"
    using A b dvd_diff_nat [of 8 "n - A" 24] by (auto simp: taken_def)
  show "chain_rel brk_of (put_hdr a (\<lambda>b. b\<lparr>is_free := 0\<rparr>) (carve_block A a h)) (xs @ taken a n A @ ys)"
  proof (rule chain_rel_splice [OF rel _ _ t])
    show "hdr (put_hdr a (\<lambda>b. b\<lparr>is_free := 0\<rparr>) (carve_block A a h)) c = hdr h c" if "c < a \<or> a + 24 + n \<le> c" for c
      using that by (auto simp: carve_block_def a e Let_def r_def)
    show "lseg (hdr (put_hdr a (\<lambda>b. b\<lparr>is_free := 0\<rparr>) (carve_block A a h))) a (taken a n A) (next_block (hdr h a))"
      using b(1) e(3) by (cases "A + 40 < n") (simp_all add: carve_block_def a e(1,2) Let_def taken_def r_def)
  qed (simp_all add: carve_block_def Let_def)
  show "same_rest h (put_hdr a (\<lambda>b. b\<lparr>is_free := 0\<rparr>) (carve_block A a h))"
    by (simp add: carve_block_def Let_def same_rest_def)
qed

lemma live_taken:
  assumes "A \<le> n"
  obtains m where "live (taken a n A) = {(a + 24, m)}" "(a, m, False) \<in> set (taken a n A)" "A \<le> m"
  using assms by (cases "n > A + 40") (auto simp: taken_def)

lemma put_hdr_same: "f (hdr h a) = hdr h a \<Longrightarrow> put_hdr a f h = h"
  by (simp add: put_hdr_def)

lemma find_SomeD:
  "List.find P bs = Some b \<Longrightarrow> P b \<and> (\<exists>xs ys. bs = xs @ b # ys)"
  by (auto simp: find_Some_iff intro: split_list)

lemma heap_init_rel:
  assumes "heap_rel brk_of h bs" "malloc_lock_acquire h = Some h1"
  shows "chain_rel brk_of (heap_init h1) bs" "heap_initialized (heap_init h1)"
    "dat (heap_init h1) = dat h" "errno (heap_init h1) = errno h"
  using assms by (auto simp: heap_rel_def chain_rel_def malloc_lock_acquire_def heap_init_def split: if_splits)

lemma release_rel:
  assumes "chain_rel brk_of h bs" "heap_initialized h"
  shows "heap_rel brk_of (malloc_lock_release h) bs"
  using assms by (simp add: heap_rel_def chain_rel_def malloc_lock_release_def)

lemma release_simps [simp]:
  "dat (malloc_lock_release h) = dat h" "errno (malloc_lock_release h) = errno h"
  "hdr (malloc_lock_release h) = hdr h"
  by (simp_all add: malloc_lock_release_def)

text \<open>
  \<open>gives h bs h' p sz\<close>: an allocation of \<open>sz\<close> bytes in a heap with the blocks \<open>bs\<close> left the heap
  \<open>h'\<close> and returned \<open>p\<close>.  On failure nothing is allocated; otherwise the live blocks are those
  before plus one new block of at least \<open>sz\<close> bytes at \<open>p\<close>.
\<close>

definition gives :: "('k \<Rightarrow> nat) \<Rightarrow> 'k heap \<Rightarrow> blk list \<Rightarrow> nat \<Rightarrow> 'k heap \<Rightarrow> nat \<Rightarrow> bool" where
  "gives brk_of h bs sz h' p \<longleftrightarrow> dat h' = dat h \<and>
     (\<exists>bs'. heap_rel brk_of h' bs' \<and>
        (p = 0 \<and> live bs' = live bs \<or>
         (\<exists>n. p \<noteq> 0 \<and> sz \<le> n \<and> 8 dvd p \<and> live bs' = insert (p, n) (live bs) \<and> (\<forall>m. (p, m) \<notin> live bs))))"

lemma not_live_elsewhere:
  assumes "chain_rel brk_of h (xs @ new @ ys)" "live new = {(p, n)}" "live bs = live xs \<union> live ys"
  shows "(p, m) \<notin> live bs"
proof
  assume "(p, m) \<in> live bs"
  obtain s where "tiled s (xs @ new @ ys) (brk_of (kern h))" using assms(1) by (auto simp: chain_rel_def)
  then obtain u v where t: "tiled s xs u" "tiled u new v" "tiled v ys (brk_of (kern h))" by auto
  have "u + 24 \<le> p" "p + n \<le> v" using live_in_heap [OF t(2), of p n] assms(2) by auto
  moreover have "(p, m) \<in> live xs \<Longrightarrow> p + m \<le> u" "(p, m) \<in> live ys \<Longrightarrow> v + 24 \<le> p"
    using live_in_heap [OF t(1)] live_in_heap [OF t(3)] by blast+
  ultimately show False using \<open>(p, m) \<in> live bs\<close> assms(3) by auto
qed

lemma gives_new:
  assumes "chain_rel brk_of h' (xs @ new @ ys)" "heap_initialized h'" "live new = {(a + 24, n)}"
    and "(a, n, False) \<in> set new" "live bs = live xs \<union> live ys" "sz \<le> n" "dat h' = dat h"
  shows "gives brk_of h bs sz (malloc_lock_release h') (add32 a BLOCK_SIZE)"
proof -
  have b: "0 < a" "a + 24 + n < 4294967296" "8 dvd a"
    using chain_rel_bounds [OF assms(1), of a n False] assms(4) by simp_all
  then have p: "add32 a BLOCK_SIZE = a + 24" by (simp add: BLOCK_SIZE_def add32_id)
  have "heap_rel brk_of (malloc_lock_release h') (xs @ new @ ys)"
    using assms(1,2) by (rule release_rel)
  moreover have "live (xs @ new @ ys) = insert (a + 24, n) (live bs)"
    using assms(3,5) by auto
  moreover have "8 dvd a + 24" using b(3) by (intro dvd_add) simp_all
  ultimately show ?thesis
    using assms(6,7) not_live_elsewhere [OF assms(1,3,5)] unfolding gives_def p
    by (metis release_simps(1) add_is_0 zero_neq_numeral)
qed

lemma malloc_spec:
  assumes rel: "heap_rel brk_of h bs" and law: "brk_law K brk_of" and sz: "sz \<le> 4294967248"
  shows "\<exists>h' p. malloc K sz h = Some (h', p) \<and> gives brk_of h bs sz h' p"
proof -
  define A where "A = ALIGN8 (if sz = 0 then 1 else sz)"
  have A: "8 dvd A" "sz \<le> A" "A + 40 < 4294967296"
    using ALIGN8_props [of "if sz = 0 then 1 else sz"] sz unfolding A_def by (auto split: if_splits)
  obtain h1 where h1: "malloc_lock_acquire h = Some h1"
    using rel by (simp add: heap_rel_def malloc_lock_acquire_def)
  define hI where "hI = heap_init h1"
  note hI = heap_init_rel [OF rel h1, folded hI_def]
  have ff: "find_free_block (hdr hI) (free_list hI) A =
      Some (case List.find (\<lambda>(a, n, f). f \<and> A \<le> n) bs of None \<Rightarrow> 0 | Some b \<Rightarrow> fst b)"
    using hI(1) by (intro find_free_block_lseg) (simp add: chain_rel_def)
  note def = malloc_def h1 bind.bind_lunit Let_def hI_def [symmetric] A_def [symmetric] ff
  show ?thesis
  proof (cases "List.find (\<lambda>(a, n, f). f \<and> A \<le> n) bs")
    case None
    obtain h2 r where r: "request_space K A hI = Some (h2, r)" "same_rest hI h2"
      and cases: "r = 0 \<and> chain_rel brk_of h2 bs \<or>
        (\<exists>m rest. r \<noteq> 0 \<and> A \<le> m \<and> chain_rel brk_of h2 (bs @ (r, m, False) # rest) \<and> live rest = {})"
      using request_space_spec [OF hI(1) law A(1,3)] by blast
    show ?thesis
    proof (cases "r = 0")
      case True
      have "malloc K sz h = Some (malloc_lock_release h2, 0)" using r None True by (simp add: def)
      moreover have "heap_rel brk_of (malloc_lock_release h2) bs"
        using cases True r(2) hI(2) by (intro release_rel) (auto simp: same_rest_def)
      ultimately show ?thesis using r(2) hI(3) by (auto simp: gives_def same_rest_def)
    next
      case False
      then obtain m rest where m: "A \<le> m" "chain_rel brk_of h2 (bs @ (r, m, False) # rest)" "live rest = {}"
        using cases by blast
      then have "is_free (hdr h2 r) = 0" by (auto simp: chain_rel_def)
      then have "put_hdr r (\<lambda>b. b\<lparr>is_free := 0\<rparr>) h2 = h2" by (intro put_hdr_same) simp
      then have "malloc K sz h = Some (malloc_lock_release h2, add32 r BLOCK_SIZE)"
        using r None False by (simp add: def)
      moreover have "gives brk_of h bs sz (malloc_lock_release h2) (add32 r BLOCK_SIZE)"
        using m A(2) r(2) hI by (intro gives_new [where xs = bs and new = "(r, m, False) # rest" and ys = "[]" and n = m])
          (auto simp: same_rest_def)
      ultimately show ?thesis by blast
    qed
  next
    case (Some b)
    then obtain a n xs ys where b: "b = (a, n, True)" "A \<le> n" "bs = xs @ (a, n, True) # ys"
      using find_SomeD [OF Some] by (cases b) auto
    note tb = take_block [OF hI(1) [unfolded b(3)] A(1) b(2) A(3)]
    have "0 < a" using chain_rel_bounds(1) [OF hI(1)] b(3) by auto
    then obtain h' where h': "malloc K sz h = Some (malloc_lock_release h', add32 a BLOCK_SIZE)"
      "chain_rel brk_of h' (xs @ taken a n A @ ys)" "same_rest hI h'"
      using Some b(1) tb by (simp add: def)
    obtain m where "live (taken a n A) = {(a + 24, m)}" "(a, m, False) \<in> set (taken a n A)" "A \<le> m"
      using b(2) by (rule live_taken)
    then have "gives brk_of h bs sz (malloc_lock_release h') (add32 a BLOCK_SIZE)"
      using h' hI A(2) b(3) by (intro gives_new [where xs = xs and new = "taken a n A" and ys = ys and n = m])
        (auto simp: same_rest_def)
    with h'(1) show ?thesis by blast
  qed
qed

section \<open>free\<close>

text \<open>Coalescing on the list of blocks, and the absence of two free neighbours.\<close>

fun coalesce :: "blk list \<Rightarrow> blk list" where
  "coalesce [] = []"
| "coalesce [b] = [b]"
| "coalesce ((a, n, f) # (b, m, g) # bs) =
     (if f \<and> g then coalesce ((a, n + 24 + m, True) # bs) else (a, n, f) # coalesce ((b, m, g) # bs))"

fun coalesced :: "blk list \<Rightarrow> bool" where
  "coalesced ((a, n, f) # (b, m, g) # bs) \<longleftrightarrow> \<not> (f \<and> g) \<and> coalesced ((b, m, g) # bs)"
| "coalesced bs \<longleftrightarrow> True"

lemma live_coalesce: "live (coalesce bs) = live bs"
proof (induction bs rule: coalesce.induct)
  case (3 a n f b m g bs)
  then show ?case by (cases f; cases g) simp_all
qed simp_all

lemma tiled_coalesce: "tiled s bs e \<Longrightarrow> tiled s (coalesce bs) e"
proof (induction bs arbitrary: s rule: coalesce.induct)
  case (3 a n f b m g bs)
  show ?case
  proof (cases "f \<and> g")
    case True
    have "tiled s ((a, n + 24 + m, True) # bs) e" using "3.prems" by (auto simp: algebra_simps)
    from True "3.IH"(1) [OF True this] show ?thesis by simp
  next
    case False
    then show ?thesis using "3.IH"(2) "3.prems" by auto
  qed
qed simp_all

lemma coalesce_hd: "\<exists>n' bs'. coalesce ((a, n, f) # bs) = (a, n', f) # bs'"
  by (induction "(a, n, f) # bs" arbitrary: n f bs rule: coalesce.induct) auto

lemma coalesced_coalesce: "coalesced (coalesce bs)"
proof (induction bs rule: coalesce.induct)
  case (3 a n f b m g bs)
  show ?case
  proof (cases "f \<and> g")
    case False
    obtain m' bs' where "coalesce ((b, m, g) # bs) = (b, m', g) # bs'" using coalesce_hd by blast
    with False "3.IH"(2) show ?thesis by auto
  qed (use 3 in simp)
qed simp_all

lemma coalesce_loop_lseg:
  assumes "lseg hs p bs 0" "tiled s bs e" "e < 4294967296"
  shows "\<exists>hs'. coalesce_loop hs p = Some hs' \<and> lseg hs' p (coalesce bs) 0 \<and>
    (\<forall>a. a \<notin> fst ` set bs \<longrightarrow> hs' a = hs a)"
  using assms(1,2)
proof (induction bs arbitrary: hs p s rule: coalesce.induct)
  case 1
  then show ?case by (auto simp: coalesce_loop.simps)
next
  case (2 b)
  obtain a n f where b: "b = (a, n, f)" by (cases b)
  then have "coalesce_loop hs p = coalesce_loop hs 0"
    using "2.prems" by (subst coalesce_loop.simps) auto
  then have "coalesce_loop hs p = Some hs" by (simp add: coalesce_loop.simps [of hs 0])
  with "2.prems" show ?case by simp
next
  case (3 a n f b m g bs)
  have a: "p = a" "a \<noteq> 0" "magic (hs a) = BLOCK_MAGIC" "bsize (hs a) = n" "(is_free (hs a) \<noteq> 0) = f"
    and b: "next_block (hs a) = b" "b \<noteq> 0" "bsize (hs b) = m" "(is_free (hs b) \<noteq> 0) = g"
    and rest: "lseg hs (next_block (hs b)) bs 0" and bs: "lseg hs b ((b, m, g) # bs) 0"
    using "3.prems"(1) by auto
  have t: "a = s" "b = a + 24 + n" "tiled (b + 24 + m) bs e" "8 dvd n" "8 dvd m"
    using "3.prems"(2) by auto
  have le: "b + 24 + m \<le> e" using t(3) by (rule tiled_le)
  have after: "c \<in> set bs \<Longrightarrow> b + 24 + m \<le> fst c" for c using tiled_after [OF t(3)] .
  show ?case
  proof (cases "f \<and> g")
    case True
    define hs1 where "hs1 = hs(a := (hs a)\<lparr>bsize := n + 24 + m, next_block := next_block (hs b)\<rparr>)"
    have "add32 n (add32 BLOCK_SIZE m) = n + 24 + m"
      using le t assms(3) by (simp add: BLOCK_SIZE_def add32_id)
    then have step: "coalesce_loop hs p = coalesce_loop hs1 a"
      using True a b by (subst coalesce_loop.simps) (simp add: hs1_def Let_def)
    have "lseg hs1 (next_block (hs b)) bs 0"
      using rest after t by (subst lseg_frame [of _ _ hs]) (force simp: hs1_def)+
    then have "lseg hs1 a ((a, n + 24 + m, True) # bs) 0" using True a by (simp add: hs1_def)
    moreover have "tiled s ((a, n + 24 + m, True) # bs) e" using t by (simp add: algebra_simps)
    ultimately obtain hs' where "coalesce_loop hs1 a = Some hs'"
      "lseg hs' a (coalesce ((a, n + 24 + m, True) # bs)) 0"
      "\<forall>c. c \<notin> fst ` set ((a, n + 24 + m, True) # bs) \<longrightarrow> hs' c = hs1 c"
      using "3.IH"(1) [OF True] by blast
    with True step a(1) show ?thesis by (auto simp: hs1_def)
  next
    case False
    have step: "coalesce_loop hs p = coalesce_loop hs b"
      using False a b by (subst coalesce_loop.simps) (auto simp: Let_def)
    have "tiled b ((b, m, g) # bs) e" using t by simp
    then obtain hs' where hs': "coalesce_loop hs b = Some hs'" "lseg hs' b (coalesce ((b, m, g) # bs)) 0"
      "\<forall>c. c \<notin> fst ` set ((b, m, g) # bs) \<longrightarrow> hs' c = hs c"
      using "3.IH"(2) [OF False bs] by blast
    moreover have "hs' a = hs a"
      using hs'(3) after t by (intro hs'(3) [rule_format]) force
    ultimately show ?thesis using False step a b by auto
  qed
qed

lemma heap_relD:
  assumes "heap_rel brk_of h bs"
  obtains s where "0 < s" "8 dvd s" "tiled s bs (brk_of (kern h))"
  using assms by (auto simp: heap_rel_def chain_rel_def)

lemma live_split:
  assumes rel: "chain_rel brk_of h bs" and p: "(p, n) \<in> live bs"
  obtains a xs ys where "p = a + 24" "bs = xs @ (a, n, False) # ys" "sub32 p BLOCK_SIZE = a"
    "magic (hdr h a) = BLOCK_MAGIC" "bsize (hdr h a) = n" "is_free (hdr h a) = 0"
    "live xs \<union> live ys = live bs - {(p, n)}"
proof -
  obtain a where a: "p = a + 24" "(a, n, False) \<in> set bs" using p by (auto simp: live_def)
  obtain xs ys where bs: "bs = xs @ (a, n, False) # ys" using a(2) by (meson split_list)
  have sub: "sub32 p BLOCK_SIZE = a"
    using chain_rel_bounds(2) [OF rel a(2)] a(1) by (simp add: BLOCK_SIZE_def sub32_id)
  have hdr: "magic (hdr h a) = BLOCK_MAGIC" "bsize (hdr h a) = n" "is_free (hdr h a) = 0"
    using rel bs by (auto simp: chain_rel_def)
  have "(p, n) \<notin> live (xs @ ys)"
    using not_live_elsewhere [of brk_of h xs "[(a, n, False)]" ys p n "xs @ ys" n] rel bs a(1) by simp
  then have "live xs \<union> live ys = live bs - {(p, n)}" using bs a(1) by auto
  with a bs sub hdr that show thesis by blast
qed

lemma free_spec:
  assumes rel: "heap_rel brk_of h bs" and p: "(p, n) \<in> live bs"
  shows "\<exists>h' bs'. free K p h = Some h' \<and> heap_rel brk_of h' bs' \<and> live bs' = live bs - {(p, n)} \<and>
    coalesced bs' \<and> dat h' = dat h \<and> kern h' = kern h"
proof -
  have cr: "chain_rel brk_of h bs" using rel by (simp add: heap_rel_def)
  obtain a xs ys where a: "p = a + 24" "bs = xs @ (a, n, False) # ys" "sub32 p BLOCK_SIZE = a"
    "magic (hdr h a) = BLOCK_MAGIC" "bsize (hdr h a) = n" "is_free (hdr h a) = 0"
    "live xs \<union> live ys = live bs - {(p, n)}"
    using cr p by (rule live_split)
  obtain h1 where h1: "malloc_lock_acquire h = Some h1" "h1 = h\<lparr>malloc_lock := True\<rparr>"
    using rel by (simp add: heap_rel_def malloc_lock_acquire_def)
  define h2 where "h2 = put_hdr a (\<lambda>b. b\<lparr>is_free := 1\<rparr>) h1"
  have "0 < a" "8 dvd n" using chain_rel_bounds(1,4) [OF cr, of a n False] a(2) by simp_all
  then have r2: "chain_rel brk_of h2 (xs @ [(a, n, True)] @ ys)"
    using a(4,5) by (intro chain_rel_splice [OF cr [unfolded a(2)], of h2]) (auto simp: h2_def h1(2))
  let ?bs = "xs @ [(a, n, True)] @ ys"
  obtain s where s: "0 < s" "8 dvd s" "tiled s ?bs (brk_of (kern h2))" "brk_of (kern h2) < 4294967296"
    and l2: "lseg (hdr h2) (free_list h2) ?bs 0"
    using r2 unfolding chain_rel_def by blast
  obtain hs' where hs': "coalesce_loop (hdr h2) (free_list h2) = Some hs'"
    "lseg hs' (free_list h2) (coalesce ?bs) 0"
    using coalesce_loop_lseg [OF l2 s(3,4)] by blast
  define h' where "h' = malloc_lock_release (h2\<lparr>hdr := hs'\<rparr>)"
  have "put_hdr a (\<lambda>b. b\<lparr>is_free := Suc 0\<rparr>) h1 = h2" by (simp add: h2_def)
  then have "free K p h = Some h'"
    using a(1,3,4) hs'(1) by (simp add: free_def h1(1) h'_def BLOCK_MAGIC_def MMAP_MAGIC_def del: put_hdr_simps)
  moreover have "heap_rel brk_of h' (coalesce ?bs)"
    using rel s hs'(2) tiled_coalesce [OF s(3)]
    by (auto simp: h'_def malloc_lock_release_def heap_rel_def chain_rel_def h2_def h1)
  moreover have "live (coalesce ?bs) = live bs - {(p, n)}"
    using a(7) by (simp add: live_coalesce)
  moreover have "dat h' = dat h" "kern h' = kern h"
    by (simp_all add: h'_def h2_def h1 malloc_lock_release_def)
  ultimately show ?thesis using coalesced_coalesce by blast
qed

section \<open>calloc and realloc\<close>

lemma char_of_zero: "char_of (0 :: int) = NUL"
  using char_of_uchar [of NUL] by simp

definition area :: "(nat \<times> nat) set \<Rightarrow> nat set" where
  "area L = (\<Union>(p, n)\<in>L. {p..<p + n})"

lemma heap_rel_dat [simp]: "heap_rel brk_of (h\<lparr>dat := m\<rparr>) bs = heap_rel brk_of h bs"
  by (simp add: heap_rel_def chain_rel_def)

lemma area_disjoint:
  assumes "heap_rel brk_of h bs" "(p, n) \<in> live bs" "L \<subseteq> live bs - {(p, n)}"
  shows "area L \<inter> {p..<p + n} = {}"
proof -
  obtain s where s: "tiled s bs (brk_of (kern h))" using assms(1) by (auto elim: heap_relD)
  have "\<not> x < p + n" if "(q, m) \<in> L" "q \<le> x" "x < q + m" "p \<le> x" for q m x
  proof -
    have "q + m + 24 \<le> p \<or> p + n + 24 \<le> q"
      using that(1) assms(2,3) by (intro live_disjoint [OF s]) auto
    with that show ?thesis by linarith
  qed
  then show ?thesis unfolding area_def by fastforce
qed

lemma calloc_spec:
  assumes rel: "heap_rel brk_of h bs" and law: "brk_law K brk_of" and sz: "nmemb * sz \<le> 4294967248"
  shows "\<exists>h' p bs'. calloc K nmemb sz h = Some (h', p) \<and> heap_rel brk_of h' bs' \<and>
    (p = 0 \<and> live bs' = live bs \<and> dat h' = dat h \<or>
     (\<exists>n. p \<noteq> 0 \<and> nmemb * sz \<le> n \<and> live bs' = insert (p, n) (live bs) \<and> (\<forall>m. (p, m) \<notin> live bs) \<and>
       bytes (dat h') p (replicate (nmemb * sz) NUL) \<and> unchanged (area (live bs)) (dat h) (dat h')))"
proof -
  have tot: "mul32 nmemb sz = nmemb * sz" using sz by (simp add: mul32_id)
  obtain h1 p where m: "malloc K (nmemb * sz) h = Some (h1, p)" "gives brk_of h bs (nmemb * sz) h1 p"
    using malloc_spec [OF rel law sz] by blast
  then obtain bs' where bs': "heap_rel brk_of h1 bs'" "dat h1 = dat h"
    and cs: "p = 0 \<and> live bs' = live bs \<or>
      (\<exists>n. p \<noteq> 0 \<and> nmemb * sz \<le> n \<and> 8 dvd p \<and> live bs' = insert (p, n) (live bs) \<and> (\<forall>m. (p, m) \<notin> live bs))"
    unfolding gives_def by blast
  show ?thesis
  proof (cases "p = 0")
    case True
    then have "calloc K nmemb sz h = Some (h1, 0)" using m(1) by (simp add: calloc_def tot)
    then show ?thesis using bs' cs True by blast
  next
    case False
    define h' where "h' = h1\<lparr>dat := store (dat h) p (replicate (nmemb * sz) NUL)\<rparr>"
    obtain n where n: "nmemb * sz \<le> n" "live bs' = insert (p, n) (live bs)" "\<forall>m. (p, m) \<notin> live bs"
      using cs False by blast
    have "calloc K nmemb sz h = Some (h', p)"
      using m(1) False bs'(2) by (simp add: calloc_def tot memset_store h'_def char_of_zero)
    moreover have "heap_rel brk_of h' bs'" using bs'(1) by (simp add: h'_def)
    moreover have "bytes (dat h') p (replicate (nmemb * sz) NUL)" by (simp add: h'_def)
    moreover have "area (live bs) \<inter> {p..<p + n} = {}"
      using n by (intro area_disjoint [OF bs'(1)]) auto
    then have "area (live bs) \<inter> {p..<p + length (replicate (nmemb * sz) NUL)} = {}" using n(1) by auto
    then have "unchanged (area (live bs)) (dat h) (dat h')" by (simp add: h'_def unchanged_store)
    ultimately show ?thesis using n False by blast
  qed
qed

lemma move_block:
  assumes rel: "heap_rel brk_of h bs" and p: "(p, n) \<in> live bs" and q: "(q, k) \<in> live bs"
    and ne: "(p, n) \<noteq> (q, k)" and le: "n \<le> k"
  shows "\<exists>h' bs'. free K p (h\<lparr>dat := memcpy (dat h) q p n\<rparr>) = Some h' \<and> heap_rel brk_of h' bs' \<and>
    live bs' = live bs - {(p, n)} \<and> bytes (dat h') q (map (dat h) [p..<p + n]) \<and>
    unchanged (area (live bs - {(q, k)})) (dat h) (dat h')"
proof -
  obtain s where s: "tiled s bs (brk_of (kern h))" using rel by (auto elim: heap_relD)
  have "p + n + 24 \<le> q \<or> q + k + 24 \<le> p" using live_disjoint [OF s p q ne] .
  then have cp: "memcpy (dat h) q p n = store (dat h) q (map (dat h) [p..<p + n])"
    by (intro memcpy_store) auto
  have "area (live bs - {(q, k)}) \<inter> {q..<q + k} = {}"
    by (rule area_disjoint [OF rel q order_refl])
  then have "area (live bs - {(q, k)}) \<inter> {q..<q + length (map (dat h) [p..<p + n])} = {}"
    using le by auto
  then have "unchanged (area (live bs - {(q, k)})) (dat h) (store (dat h) q (map (dat h) [p..<p + n]))"
    by (rule unchanged_store)
  moreover obtain h' bs' where "free K p (h\<lparr>dat := memcpy (dat h) q p n\<rparr>) = Some h'" "heap_rel brk_of h' bs'"
    "live bs' = live bs - {(p, n)}" "dat h' = memcpy (dat h) q p n"
    using free_spec [of brk_of "h\<lparr>dat := memcpy (dat h) q p n\<rparr>" bs p n K] rel p by auto
  ultimately show ?thesis using cp bytes_store by metis
qed

lemma realloc_spec:
  assumes rel: "heap_rel brk_of h bs" and law: "brk_law K brk_of" and sz: "0 < sz" "sz \<le> 4294967248"
    and p: "(p, n) \<in> live bs"
  shows "\<exists>h' q bs'. realloc K p sz h = Some (h', q) \<and> heap_rel brk_of h' bs' \<and>
    (q = 0 \<and> live bs' = live bs \<and> dat h' = dat h \<or>
     (\<exists>m. q \<noteq> 0 \<and> sz \<le> m \<and> live bs' = insert (q, m) (live bs - {(p, n)}) \<and>
       bytes (dat h') q (map (dat h) [p..<p + min n sz]) \<and>
       unchanged (area (live bs - {(p, n)})) (dat h) (dat h')))"
proof -
  have cr: "chain_rel brk_of h bs" using rel by (simp add: heap_rel_def)
  obtain a where a: "p = a + 24" "sub32 p BLOCK_SIZE = a" "magic (hdr h a) = BLOCK_MAGIC" "bsize (hdr h a) = n"
    using cr p by (rule live_split)
  have nm: "BLOCK_MAGIC \<noteq> MMAP_MAGIC" by (simp add: BLOCK_MAGIC_def MMAP_MAGIC_def)
  show ?thesis
  proof (cases "sz \<le> n")
    case True
    then have "realloc K p sz h = Some (h, p)" using a nm sz(1) by (simp add: realloc_def)
    moreover have "bytes (dat h) p (map (dat h) [p..<p + min n sz])" by (simp add: bytes_nth)
    moreover have "live bs = insert (p, n) (live bs - {(p, n)})" using p by auto
    ultimately show ?thesis using rel True a(1) by (fastforce simp: unchanged_def)
  next
    case False
    obtain h1 q where m: "malloc K sz h = Some (h1, q)" "gives brk_of h bs sz h1 q"
      using malloc_spec [OF rel law sz(2)] by blast
    then obtain bs1 where bs1: "heap_rel brk_of h1 bs1" "dat h1 = dat h"
      and cs: "q = 0 \<and> live bs1 = live bs \<or>
        (\<exists>k. q \<noteq> 0 \<and> sz \<le> k \<and> 8 dvd q \<and> live bs1 = insert (q, k) (live bs) \<and> (\<forall>m. (q, m) \<notin> live bs))"
      unfolding gives_def by blast
    have def: "realloc K p sz h = (if q = 0 then Some (h1, 0) else
        do { h3 \<leftarrow> free K p (h1\<lparr>dat := memcpy (dat h) q p (bsize (hdr h1 a))\<rparr>); Some (h3, q) })"
      using a nm sz(1) False m(1) bs1(2) by (simp add: realloc_def)
    show ?thesis
    proof (cases "q = 0")
      case True
      then show ?thesis using def cs bs1 by auto
    next
      case False
      then obtain k where k: "sz \<le> k" "live bs1 = insert (q, k) (live bs)" "(q, k) \<notin> live bs"
        using cs by blast
      have ne: "(p, n) \<noteq> (q, k)" using k(3) p by auto
      have p1: "(p, n) \<in> live bs1" "(q, k) \<in> live bs1" using k(2) p by simp_all
      have "chain_rel brk_of h1 bs1" using bs1(1) by (simp add: heap_rel_def)
      then have "bsize (hdr h1 a) = n" using p1(1) by (rule live_split) (use a(1) in simp)
      moreover obtain h3 bs3 where "free K p (h1\<lparr>dat := memcpy (dat h1) q p n\<rparr>) = Some h3"
        "heap_rel brk_of h3 bs3" "live bs3 = live bs1 - {(p, n)}" "bytes (dat h3) q (map (dat h1) [p..<p + n])"
        and un: "unchanged (area (live bs1 - {(q, k)})) (dat h1) (dat h3)"
        using move_block [OF bs1(1) p1 ne, of K] k(1) \<open>\<not> sz \<le> n\<close> by auto
      moreover have "live bs1 - {(p, n)} = insert (q, k) (live bs - {(p, n)})" using k(2) ne by auto
      moreover have "unchanged (area (live bs - {(p, n)})) (dat h) (dat h3)"
      proof -
        have "area (live bs - {(p, n)}) \<subseteq> area (live bs1 - {(q, k)})"
          using k(2,3) unfolding area_def by auto
        then show ?thesis using un bs1(2) by (auto simp: unchanged_def)
      qed
      ultimately show ?thesis using def False k(1) bs1(2) \<open>\<not> sz \<le> n\<close> by (auto simp: min_absorb1)
    qed
  qed
qed

section \<open>Aligned allocation\<close>

lemma aligned_start_props:
  assumes k: "4 \<le> k" "k \<le> 20" and a: "8 dvd a" "a + 24 + 2 * 2 ^ k < 4294967296"
    and p: "p = aligned_start a (2 ^ k)"
  shows "2 ^ k dvd p" "a + 24 \<le> p" "p < a + 24 + 2 * 2 ^ k" "p = a + 24 \<or> a + 48 \<le> p"
proof -
  define p0 where "p0 = ALIGN_UP (a + 24) (2 ^ k)"
  have p_def: "p = (if p0 \<noteq> a + 24 \<and> sub32 p0 a < 48 then add32 p0 (2 ^ k) else p0)"
    using a(2) by (simp add: p aligned_start_def Let_def p0_def BLOCK_SIZE_def add32_id mul32_id)
  have small: "2 ^ 4 \<le> (2 :: nat) ^ k" using k(1) by (rule power_increasing) simp
  have up: "2 ^ k dvd p0" "a + 24 \<le> p0" "p0 < a + 24 + 2 ^ k"
    using ALIGN_UP_props [of "a + 24" k] a(2) k(2) small unfolding p0_def by simp_all
  have "8 dvd (2 :: nat) ^ k" using le_imp_power_dvd [of 3 k "2 :: nat"] k(1) by simp
  then have "8 dvd p0" using up(1) by (rule dvd_trans)
  moreover have "8 dvd a + 24" using a(1) by (intro dvd_add) simp_all
  ultimately have d: "8 dvd p0 - (a + 24)" by (rule dvd_diff_nat)
  have step: "p0 = a + 24 \<or> a + 24 + 8 \<le> p0"
    using d up(2) dvd_imp_le [OF d] by linarith
  have sub: "sub32 p0 a = p0 - a" using up a(2) by (intro sub32_id) simp_all
  have add: "add32 p0 (2 ^ k) = p0 + 2 ^ k" using up a(2) by (intro add32_id) simp
  show "2 ^ k dvd p" using up(1) by (simp add: p_def add)
  show "a + 24 \<le> p" "p < a + 24 + 2 * 2 ^ k" using up by (simp_all add: p_def add)
  show "p = a + 24 \<or> a + 48 \<le> p" using step up small by (auto simp: p_def add sub)
qed

text \<open>The blocks the carving makes: \<open>p\<close> is the aligned payload address inside the block at \<open>a\<close>.\<close>

definition placed :: "nat \<Rightarrow> nat \<Rightarrow> nat \<Rightarrow> nat \<Rightarrow> blk list" where
  "placed a n p need =
     (if p = a + 24 then [(a, need, False)] else [(a, p - a - 48, True), (p - 24, need, False)]) @
     [(p + need, a + n - p - need, True)]"

lemma tiled_placed:
  assumes "8 dvd a" "8 dvd n" "8 dvd p" "8 dvd need" "p = a + 24 \<or> a + 48 \<le> p" "p + need \<le> a + n"
  shows "tiled a (placed a n p need) (a + 24 + n)"
proof -
  have "8 dvd p - a - 48" using assms(1,3) by (intro dvd_diff_nat) simp_all
  moreover have "8 dvd a + n - p - need" using assms(1-4) by (intro dvd_diff_nat dvd_add) simp_all
  ultimately show ?thesis using assms by (auto simp: placed_def)
qed

lemma live_placed: "live (placed a n p need) = (if p = a + 24 then {(a + 24, need)} else {(p - 24 + 24, need)})"
  by (simp add: placed_def)

lemma place_aligned_spec:
  assumes rel: "chain_rel brk_of h (xs @ (a, n, f) # ys)" and k: "4 \<le> k" "k \<le> 20"
    and need: "8 dvd need" "need + 2 * 2 ^ k + 56 \<le> n"
  shows "\<exists>h' p. place_aligned need (2 ^ k) a h = (h', p) \<and> 2 ^ k dvd p \<and> a + 24 \<le> p \<and> same_rest h h' \<and>
    chain_rel brk_of h' (xs @ placed a n p need @ ys)"
proof -
  note b = chain_rel_bounds [OF rel, of a n f, simplified]
  have hd: "bsize (hdr h a) = n" "magic (hdr h a) = BLOCK_MAGIC" using rel by (auto simp: chain_rel_def)
  define p where "p = aligned_start a (2 ^ k)"
  have lim: "a + 24 + 2 * 2 ^ k < 4294967296" using b need(2) by simp
  note p = aligned_start_props [OF k b(3) lim p_def]
  have "8 dvd (2 :: nat) ^ k" using le_imp_power_dvd [of 3 k "2 :: nat"] k(1) by simp
  then have p8: "8 dvd p" using p(1) by (rule dvd_trans)
  define tl where "tl = a + 24 + n - (p + need)"
  have tl: "32 \<le> tl" "tl - 24 = a + n - p - need" using p need(2) by (simp_all add: tl_def)
  have ar: "add32 a BLOCK_SIZE = a + 24" "add32 (a + 24) n = a + 24 + n" "mul32 2 BLOCK_SIZE = 48"
    "sub32 p (a + 24) = p - (a + 24)" "add32 p need = p + need" "sub32 (a + 24 + n) (p + need) = tl"
    "sub32 p BLOCK_SIZE = p - 24" "sub32 tl BLOCK_SIZE = tl - 24"
    using b p need(2) tl(1)
    by (simp_all add: BLOCK_SIZE_def add32_id sub32_id mul32_id tl_def)
  define rst where "rst = (\<lambda>b :: block_header. b\<lparr>magic := BLOCK_MAGIC, bsize := tl - 24,
      is_free := 1, next_block := next_block (hdr h a)\<rparr>)"
  have t: "tiled a (placed a n p need) (a + 24 + n)"
    using b p8 need p by (intro tiled_placed) simp_all
  show ?thesis
  proof (cases "p = a + 24")
    case True
    define h' where "h' = put_hdr a (\<lambda>b. b\<lparr>next_block := p + need\<rparr>) (put_hdr (p + need) rst
        (put_hdr a (\<lambda>b. b\<lparr>bsize := need, is_free := 0\<rparr>) h))"
    have "place_aligned need (2 ^ k) a h = (h', p)"
      using True tl(1) unfolding place_aligned_def p_def [symmetric] hd ar Let_def
      by (simp add: ar [unfolded BLOCK_SIZE_def True] rst_def h'_def BLOCK_SIZE_def)
    moreover have "chain_rel brk_of h' (xs @ placed a n p need @ ys)"
      by (rule chain_rel_splice [OF rel _ _ t]) (use True b tl hd need(2) in \<open>auto simp: h'_def rst_def placed_def\<close>)
    ultimately show ?thesis using p(1,2) by (auto simp: h'_def same_rest_def)
  next
    case False
    define hA where "hA = put_hdr a (\<lambda>b. b\<lparr>bsize := p - a - 48, is_free := 1, next_block := p - 24\<rparr>)
        (put_hdr (p - 24) (\<lambda>b. b\<lparr>magic := BLOCK_MAGIC\<rparr>) h)"
    define h' where "h' = put_hdr (p - 24) (\<lambda>b. b\<lparr>next_block := p + need\<rparr>) (put_hdr (p + need) rst
        (put_hdr (p - 24) (\<lambda>b. b\<lparr>bsize := need, is_free := 0\<rparr>) hA))"
    have "sub32 (p - (a + 24)) 24 = p - a - 48" "p - (a + 24) \<noteq> 0"
      using False p b need(2) by (simp_all add: sub32_id)
    then have "place_aligned need (2 ^ k) a h = (h', p)"
      using tl(1) unfolding place_aligned_def p_def [symmetric] hd ar Let_def
      by (simp add: ar [unfolded BLOCK_SIZE_def] rst_def h'_def hA_def BLOCK_SIZE_def)
    moreover have "chain_rel brk_of h' (xs @ placed a n p need @ ys)"
      by (rule chain_rel_splice [OF rel _ _ t])
        (use False b tl hd need(2) p in \<open>auto simp: h'_def hA_def rst_def placed_def\<close>)
    ultimately show ?thesis using p(1,2) by (auto simp: h'_def hA_def same_rest_def)
  qed
qed

lemma gives_placed:
  assumes "chain_rel brk_of h' (xs @ placed a n p need @ ys)" "heap_initialized h'"
    and "live bs = live xs \<union> live ys" "sz \<le> need" "dat h' = dat h" "a + 24 \<le> p"
  shows "gives brk_of h bs sz (malloc_lock_release h') p"
proof -
  have p: "p - 24 + 24 = p" "(p - 24, need, False) \<in> set (placed a n p need)"
    using assms(6) by (auto simp: placed_def)
  then have "add32 (p - 24) BLOCK_SIZE = p"
    using chain_rel_bounds(2) [OF assms(1), of "p - 24" need False] by (simp add: BLOCK_SIZE_def add32_id)
  moreover have "live (placed a n p need) = {(p - 24 + 24, need)}"
    using p(1) by (auto simp: live_placed)
  ultimately show ?thesis
    using gives_new [OF assms(1,2) _ p(2) assms(3,4,5)] by simp
qed

lemma malloc_aligned_spec:
  assumes rel: "heap_rel brk_of h bs" and law: "brk_law K brk_of" and k: "4 \<le> k" "k \<le> 20"
    and sz: "sz \<le> 4292000000"
  shows "\<exists>h' p. malloc_aligned K sz (2 ^ k) h = Some (h', p) \<and> gives brk_of h bs sz h' p \<and> 2 ^ k dvd p"
proof -
  define need where "need = ALIGN8 (if sz \<noteq> 0 then sz else 1)"
  have need: "8 dvd need" "sz \<le> need" "need \<le> 4292000008"
    using ALIGN8_props [of "if sz \<noteq> 0 then sz else 1"] sz unfolding need_def by (auto split: if_splits)
  have k20: "(2 :: nat) ^ k \<le> 2 ^ 20" using k(2) by (rule power_increasing) simp
  have k8: "8 dvd (2 :: nat) ^ k" using le_imp_power_dvd [of 3 k "2 :: nat"] k(1) by simp
  define want where "want = need + 2 * 2 ^ k + 56"
  have want: "add32 (add32 (add32 need (mul32 2 (2 ^ k))) (mul32 2 BLOCK_SIZE)) 8 = want"
    using need(3) k20 by (simp add: BLOCK_SIZE_def add32_id mul32_id want_def)
  have want8: "8 dvd want" unfolding want_def using need(1) k8 by (intro dvd_add) simp_all
  obtain h1 where h1: "malloc_lock_acquire h = Some h1"
    using rel by (simp add: heap_rel_def malloc_lock_acquire_def)
  define hI where "hI = heap_init h1"
  note hI = heap_init_rel [OF rel h1, folded hI_def]
  have ff: "find_free_block (hdr hI) (free_list hI) want =
      Some (case List.find (\<lambda>(a, n, f). f \<and> want \<le> n) bs of None \<Rightarrow> 0 | Some b \<Rightarrow> fst b)"
    using hI(1) by (intro find_free_block_lseg) (simp add: chain_rel_def)
  have small: "\<not> 2 ^ 20 < (2 :: nat) ^ k" using k20 by simp
  have "malloc_aligned K sz (2 ^ k) h = do {
      found \<leftarrow> find_free_block (hdr hI) (free_list hI) want;
      (h, block) \<leftarrow> (if found \<noteq> 0 then Some (hI, found) else request_space K want hI);
      if block = 0 then Some (malloc_lock_release h, 0)
      else let (h', p) = place_aligned need (2 ^ k) block h in Some (malloc_lock_release h', p)
    }"
    unfolding malloc_aligned_def need_def [symmetric] Let_def h1 bind.bind_lunit hI_def [symmetric] want
    by (simp only: small if_False)
  note def = this [unfolded ff bind.bind_lunit]
  have finish: ?thesis
    if run: "malloc_aligned K sz (2 ^ k) h =
        Some (let (h', p) = place_aligned need (2 ^ k) a h2 in (malloc_lock_release h', p))"
      and h2: "chain_rel brk_of h2 (xs @ (a, n, f) # ys)" "want \<le> n" "live bs = live xs \<union> live ys" "same_rest hI h2"
    for h2 a n f xs ys
  proof -
    obtain h' p where pl: "place_aligned need (2 ^ k) a h2 = (h', p)" "2 ^ k dvd p" "a + 24 \<le> p" "same_rest h2 h'"
      "chain_rel brk_of h' (xs @ placed a n p need @ ys)"
      using place_aligned_spec [OF h2(1) k need(1)] h2(2) want_def by auto
    have "gives brk_of h bs sz (malloc_lock_release h') p"
      using pl(3,4,5) h2(3,4) need(2) hI by (intro gives_placed [of brk_of h' xs a n p need ys]) (auto simp: same_rest_def)
    with pl(1,2) run show ?thesis by auto
  qed
  show ?thesis
  proof (cases "List.find (\<lambda>(a, n, f). f \<and> want \<le> n) bs")
    case (Some b)
    then obtain a n xs ys where b: "b = (a, n, True)" "want \<le> n" "bs = xs @ (a, n, True) # ys"
      using find_SomeD [OF Some] by (cases b) auto
    have "0 < a" using chain_rel_bounds(1) [OF hI(1)] b(3) by auto
    with Some b hI(1) small show ?thesis
      by (intro finish [of a hI xs n True ys]) (simp_all add: def same_rest_def Let_def split: prod.split)
  next
    case None
    obtain h2 r where r: "request_space K want hI = Some (h2, r)" "same_rest hI h2"
      and cs: "r = 0 \<and> chain_rel brk_of h2 bs \<or>
        (\<exists>m rest. r \<noteq> 0 \<and> want \<le> m \<and> chain_rel brk_of h2 (bs @ (r, m, False) # rest) \<and> live rest = {})"
      using request_space_spec [OF hI(1) law want8] need(3) k20 want_def by auto
    show ?thesis
    proof (cases "r = 0")
      case True
      have "malloc_aligned K sz (2 ^ k) h = Some (malloc_lock_release h2, 0)"
        using r None True small by (simp add: def)
      moreover have "heap_rel brk_of (malloc_lock_release h2) bs"
        using cs True r(2) hI(2) by (intro release_rel) (auto simp: same_rest_def)
      ultimately show ?thesis using r(2) hI(3) by (auto simp: gives_def same_rest_def)
    next
      case False
      then obtain m rest where m: "want \<le> m" "chain_rel brk_of h2 (bs @ (r, m, False) # rest)" "live rest = {}"
        using cs by blast
      with False r None small show ?thesis
        by (intro finish [of r h2 bs m False rest]) (simp_all add: def Let_def split: prod.split)
    qed
  qed
qed

text \<open>The large alignments come from a mapping of their own: the payload is aligned, and header
  and payload lie inside the mapping.\<close>

lemma malloc_aligned_mmap_spec:
  assumes k: "k < 31" and sz: "sz + 2 ^ k + 5000 < 4294967296"
    and map: "sys_mmap K (kern h) len = (k1, m)" "m \<noteq> UINTPTR_MAX" "m + len \<le> 4294967296"
    and len: "len = (max sz 1 + 2 ^ k + 24 + 4095) div 4096 * 4096"
  shows "\<exists>h' p. malloc_aligned_mmap K sz (2 ^ k) h = (h', p) \<and> 2 ^ k dvd p \<and>
    m + 24 \<le> p \<and> p + max sz 1 \<le> m + len \<and> kern h' = k1 \<and>
    hdr h' = (hdr h)(p - 24 := \<lparr>magic = MMAP_MAGIC, bsize = max sz 1, is_free = 0, next_block = 0,
                                mbase = m, mlen = len\<rparr>)"
proof -
  define need where "need = (if sz \<noteq> 0 then sz else 1)"
  have need: "need = max sz 1" by (simp add: need_def)
  have le: "need + 2 ^ k + 24 \<le> len" "len < need + 2 ^ k + 24 + 4096"
    using div_mult_near [of 4096 "need + 2 ^ k + 24"] by (simp_all add: len need)
  have "add32 (add32 need (2 ^ k)) BLOCK_SIZE = need + 2 ^ k + 24"
    using sz need by (simp add: BLOCK_SIZE_def add32_id max_def split: if_splits)
  moreover have "sub32 (add32 (need + 2 ^ k + 24) CACT_PAGE_SIZE) 1 = need + 2 ^ k + 24 + 4095"
    using sz need by (simp add: CACT_PAGE_SIZE_def add32_id sub32_id max_def split: if_splits)
  moreover have "sub32 4294967295 (sub32 CACT_PAGE_SIZE 1) = 4294967295 - (2 ^ 12 - 1)"
    by (simp add: CACT_PAGE_SIZE_def sub32_id)
  moreover have "(need + 2 ^ k + 24 + 4095) AND (4294967295 - (2 ^ 12 - 1)) = len"
    using and_clear_low [of "need + 2 ^ k + 24 + 4095" 12] sz need
    by (simp add: len max_def split: if_splits)
  ultimately have tot: "sub32 (add32 (add32 (add32 need (2 ^ k)) BLOCK_SIZE) CACT_PAGE_SIZE) 1 AND
      sub32 4294967295 (sub32 CACT_PAGE_SIZE 1) = len"
    by simp
  define p where "p = ALIGN_UP (m + 24) (2 ^ k)"
  have "m + 24 + 2 ^ k \<le> 4294967296" using le(1) map(3) by simp
  then have p: "2 ^ k dvd p" "m + 24 \<le> p" "p < m + 24 + 2 ^ k"
    unfolding p_def using ALIGN_UP_props [of "m + 24" k] k by simp_all
  have m24: "add32 m BLOCK_SIZE = m + 24" "sub32 p BLOCK_SIZE = p - 24"
    using p le(1) map(3) by (simp_all add: BLOCK_SIZE_def add32_id sub32_id)
  have "malloc_aligned_mmap K sz (2 ^ k) h =
      (put_hdr (p - 24) (\<lambda>b. \<lparr>magic = MMAP_MAGIC, bsize = need, is_free = 0, next_block = 0,
                               mbase = m, mlen = len\<rparr>) (h\<lparr>kern := k1\<rparr>), p)"
    unfolding malloc_aligned_mmap_def need_def [symmetric] Let_def tot map(1)
    using map(2) by (simp add: m24 p_def [symmetric])
  then show ?thesis using p le(1) by (auto simp: need)
qed

end
