(* ===== verification/Cact_Allocator.thy ===== *)
theory Cact_Allocator
  imports Cact_Malloc
begin

text \<open>
  The contract of an allocator as its clients see it, the heap of \<open>stdlib.c\<close> as an instance of it,
  and the clients in \<open>string.c\<close>: \<open>strdup\<close> and \<open>strndup\<close>.
\<close>

section \<open>The contract\<close>

text \<open>
  \<open>rep s L\<close>: in state \<open>s\<close> the blocks handed out and not given back are \<open>L\<close>, pairs of an address
  and a size.
\<close>

locale allocator =
  fixes rep :: "'s \<Rightarrow> (nat \<times> nat) set \<Rightarrow> bool"
    and mem_of :: "'s \<Rightarrow> mem"
    and alloc :: "nat \<Rightarrow> 's \<Rightarrow> ('s \<times> nat) option"
    and release :: "nat \<Rightarrow> 's \<Rightarrow> 's option"
    and limit :: nat
  assumes rep_disjoint: "rep s L \<Longrightarrow> (p, m) \<in> L \<Longrightarrow> (q, n) \<in> L \<Longrightarrow> (p, m) \<noteq> (q, n) \<Longrightarrow> p + m < q \<or> q + n < p"
    and rep_nonzero: "rep s L \<Longrightarrow> (p, m) \<in> L \<Longrightarrow> p \<noteq> 0"
    and alloc_gives: "rep s L \<Longrightarrow> sz \<le> limit \<Longrightarrow> \<exists>s' p. alloc sz s = Some (s', p) \<and> mem_of s' = mem_of s \<and>
      (p = 0 \<and> rep s' L \<or> (\<exists>n. p \<noteq> 0 \<and> sz \<le> n \<and> (p, n) \<notin> L \<and> rep s' (insert (p, n) L)))"
    and release_takes: "rep s L \<Longrightarrow> (p, n) \<in> L \<Longrightarrow>
      \<exists>s'. release p s = Some s' \<and> mem_of s' = mem_of s \<and> rep s' (L - {(p, n)})"

text \<open>A client session: requests for memory, and the return of one of the pointers held, by its
  position.  \<open>None\<close> is a call that does not return.\<close>

datatype request = Get nat | Put nat

fun session :: "(nat \<Rightarrow> 's \<Rightarrow> ('s \<times> nat) option) \<Rightarrow> (nat \<Rightarrow> 's \<Rightarrow> 's option) \<Rightarrow>
    request list \<Rightarrow> 's \<Rightarrow> nat list \<Rightarrow> ('s \<times> nat list) option" where
  "session alloc release [] s held = Some (s, held)"
| "session alloc release (Get sz # rs) s held = do {
     (s', p) \<leftarrow> alloc sz s;
     session alloc release rs s' (if p = 0 then held else p # held)
   }"
| "session alloc release (Put i # rs) s held =
     (if i < length held
      then do {
        s' \<leftarrow> release (held ! i) s;
        session alloc release rs s' (take i held @ drop (Suc i) held)
      }
      else session alloc release rs s held)"

text \<open>The pointers held are exactly the blocks the allocator regards as live.\<close>

lemma distinct_remove_nth:
  assumes "distinct xs" "i < length xs"
  shows "distinct (take i xs @ drop (Suc i) xs) \<and> set (take i xs @ drop (Suc i) xs) = set xs - {xs ! i}"
proof -
  define ys zs where yz: "ys = take i xs" "zs = drop (Suc i) xs"
  have xs: "xs = ys @ xs ! i # zs" unfolding yz by (rule id_take_nth_drop [OF assms(2)])
  from assms(1) have "distinct (ys @ xs ! i # zs)" by (subst (asm) xs)
  then have "distinct (ys @ zs)" "set (ys @ zs) = set (ys @ xs ! i # zs) - {xs ! i}" by auto
  then show ?thesis unfolding yz [symmetric] using xs by auto
qed

definition holds :: "nat list \<Rightarrow> (nat \<times> nat) set \<Rightarrow> bool" where
  "holds held L \<longleftrightarrow> distinct held \<and> set held = fst ` L"

context allocator
begin

lemma fst_inj: "rep s L \<Longrightarrow> inj_on fst L"
proof (rule inj_onI)
  fix x y
  assume "rep s L" "x \<in> L" "y \<in> L" "fst x = fst y"
  then show "x = y"
    using rep_disjoint [of s L "fst x" "snd x" "fst y" "snd y"] by (cases x; cases y) auto
qed

lemma fresh_pointer:
  assumes "rep s (insert (p, n) L)" "(p, n) \<notin> L"
  shows "p \<notin> fst ` L"
proof
  assume "p \<in> fst ` L"
  then obtain m where "(p, m) \<in> L" by force
  with assms have "(p, n) \<noteq> (p, m)" by auto
  with \<open>(p, m) \<in> L\<close> show False using rep_disjoint [OF assms(1), of p n p m] by auto
qed

lemma session_safe:
  assumes "rep s L" "holds held L" "\<forall>sz. Get sz \<in> set rs \<longrightarrow> sz \<le> limit"
  shows "\<exists>s' held' L'. session alloc release rs s held = Some (s', held') \<and> rep s' L' \<and> holds held' L'"
  using assms
proof (induction rs arbitrary: s held L)
  case Nil
  then show ?case by auto
next
  case (Cons r rs)
  show ?case
  proof (cases r)
    case (Get sz)
    then obtain s1 p where a: "alloc sz s = Some (s1, p)" and
      c: "p = 0 \<and> rep s1 L \<or> (\<exists>n. p \<noteq> 0 \<and> sz \<le> n \<and> (p, n) \<notin> L \<and> rep s1 (insert (p, n) L))"
      using alloc_gives [OF Cons.prems(1), of sz] Cons.prems(3) by auto
    obtain L1 where "rep s1 L1" "holds (if p = 0 then held else p # held) L1"
      using c Cons.prems(2) fresh_pointer by (fastforce simp: holds_def)
    with Cons.IH [of s1 L1 "if p = 0 then held else p # held"] Cons.prems(3) a Get show ?thesis by auto
  next
    case (Put i)
    show ?thesis
    proof (cases "i < length held")
      case False
      with Put Cons.IH [OF Cons.prems(1,2)] Cons.prems(3) show ?thesis by simp
    next
      case True
      then obtain n where n: "(held ! i, n) \<in> L" using Cons.prems(2) nth_mem [OF True] by (force simp: holds_def)
      obtain s1 where s1: "release (held ! i) s = Some s1" "rep s1 (L - {(held ! i, n)})"
        using release_takes [OF Cons.prems(1) n] by blast
      have "fst ` (L - {(held ! i, n)}) = fst ` L - {held ! i}"
        using inj_on_image_set_diff [OF fst_inj [OF Cons.prems(1)], of L "{(held ! i, n)}"] n by simp
      moreover have "distinct (take i held @ drop (Suc i) held)"
        "set (take i held @ drop (Suc i) held) = set held - {held ! i}"
        using distinct_remove_nth [of held i] True Cons.prems(2) by (auto simp: holds_def)
      ultimately have "holds (take i held @ drop (Suc i) held) (L - {(held ! i, n)})"
        using Cons.prems(2) by (simp add: holds_def)
      with Cons.IH [OF s1(2)] Cons.prems(3) Put True s1(1) show ?thesis by auto
    qed
  qed
qed

end

section \<open>The heap is an allocator\<close>

text \<open>The kernel and the reading of its break are carried along in the state, since the heap's
  contract is relative to them.\<close>

type_synonym 'k system = "'k kernel \<times> ('k \<Rightarrow> nat) \<times> 'k heap"

definition heap_live :: "'k system \<Rightarrow> (nat \<times> nat) set \<Rightarrow> bool" where
  "heap_live s L \<longleftrightarrow> (case s of (K, brk_of, h) \<Rightarrow> brk_law K brk_of \<and> (\<exists>bs. heap_rel brk_of h bs \<and> live bs = L))"

definition sys_mem :: "'k system \<Rightarrow> mem" where
  "sys_mem s = (case s of (K, brk_of, h) \<Rightarrow> dat h)"

definition sys_malloc :: "nat \<Rightarrow> 'k system \<Rightarrow> ('k system \<times> nat) option" where
  "sys_malloc sz s = (case s of (K, brk_of, h) \<Rightarrow> map_option (\<lambda>(h', p). ((K, brk_of, h'), p)) (malloc K sz h))"

definition sys_free :: "nat \<Rightarrow> 'k system \<Rightarrow> 'k system option" where
  "sys_free p s = (case s of (K, brk_of, h) \<Rightarrow> map_option (\<lambda>h'. (K, brk_of, h')) (free K p h))"

interpretation libc_heap: allocator heap_live sys_mem sys_malloc sys_free 4294967248
proof (unfold_locales, goal_cases)
  case (1 s L p m q n)
  obtain K brk_of h where s: "s = (K, brk_of, h)" by (cases s)
  obtain bs where bs: "heap_rel brk_of h bs" "live bs = L" using 1(1) s by (auto simp: heap_live_def)
  obtain st where "tiled st bs (brk_of (kern h))" using bs(1) by (rule heap_relD)
  then show ?case using live_disjoint [of st bs _ p m q n] 1 bs(2) by fastforce
next
  case (2 s L p m)
  then show ?case by (auto simp: heap_live_def live_def)
next
  case (3 s L sz)
  obtain K brk_of h where s: "s = (K, brk_of, h)" by (cases s)
  obtain bs where bs: "brk_law K brk_of" "heap_rel brk_of h bs" "live bs = L" using 3 s by (auto simp: heap_live_def)
  obtain h' p where "malloc K sz h = Some (h', p)" "gives brk_of h bs sz h' p"
    using malloc_spec [OF bs(2,1)] 3 by blast
  then show ?case using bs by (fastforce simp: s sys_malloc_def gives_def heap_live_def sys_mem_def)
next
  case (4 s L p n)
  obtain K brk_of h where s: "s = (K, brk_of, h)" by (cases s)
  obtain bs where bs: "brk_law K brk_of" "heap_rel brk_of h bs" "live bs = L" using 4 s by (auto simp: heap_live_def)
  obtain h' bs' where "free K p h = Some h'" "heap_rel brk_of h' bs'" "live bs' = live bs - {(p, n)}" "dat h' = dat h"
    using free_spec [OF bs(2), of p n K] 4 bs(3) by blast
  then show ?case using bs by (auto simp: s sys_free_def heap_live_def sys_mem_def)
qed

section \<open>strdup and strndup\<close>

definition strdup :: "'k kernel \<Rightarrow> nat \<Rightarrow> 'k heap \<Rightarrow> ('k heap \<times> nat) option" where
  "strdup K s h =
     (if s = 0 then Some (h, 0)
      else do {
        n \<leftarrow> strlen (dat h) s;
        (h', p) \<leftarrow> malloc K (add32 n 1) h;
        if p = 0 then Some (h', 0)
        else Some (h'\<lparr>dat := memcpy (dat h') p s (add32 n 1)\<rparr>, p)
      })"

function strndup_len :: "mem \<Rightarrow> nat \<Rightarrow> nat \<Rightarrow> nat \<Rightarrow> nat" where
  "strndup_len mm s n m = (if m < n \<and> mm (s + m) \<noteq> NUL then strndup_len mm s n (m + 1) else m)"
  by pat_completeness auto
termination by (relation "measure (\<lambda>(mm, s, n, m). n - m)") auto

declare strndup_len.simps [simp del]

definition strndup :: "'k kernel \<Rightarrow> nat \<Rightarrow> nat \<Rightarrow> 'k heap \<Rightarrow> ('k heap \<times> nat) option" where
  "strndup K s n h =
     (if s = 0 then Some (h, 0)
      else do {
        let m = strndup_len (dat h) s n 0;
        (h', p) \<leftarrow> malloc K (add32 m 1) h;
        if p = 0 then Some (h', 0)
        else Some (h'\<lparr>dat := (memcpy (dat h') p s m)(p + m := NUL)\<rparr>, p)
      })"

lemma strndup_len_str:
  "cstr mm (s + i) xs \<Longrightarrow> strndup_len mm s n i = (if i \<le> n then min (i + length xs) n else i)"
proof (induction xs arbitrary: i)
  case (Cons x xs)
  then show ?case using Cons.IH [of "Suc i"] by (subst strndup_len.simps) auto
qed (simp add: strndup_len.simps)

text \<open>What both promise: nothing on failure; otherwise a block of its own holding the string
  \<open>ys\<close>, every live block as it was.\<close>

definition copied :: "('k \<Rightarrow> nat) \<Rightarrow> 'k heap \<Rightarrow> blk list \<Rightarrow> string \<Rightarrow> 'k heap \<Rightarrow> nat \<Rightarrow> bool" where
  "copied brk_of h bs ys h' p \<longleftrightarrow> (\<exists>bs'. heap_rel brk_of h' bs' \<and>
     (p = 0 \<and> live bs' = live bs \<and> dat h' = dat h \<or>
      (\<exists>n. p \<noteq> 0 \<and> length ys < n \<and> live bs' = insert (p, n) (live bs) \<and> (p, n) \<notin> live bs \<and>
         cstr (dat h') p ys \<and> unchanged (area (live bs)) (dat h) (dat h'))))"

lemma copied_new:
  assumes rel: "heap_rel brk_of h bs" and law: "brk_law K brk_of" and src: "{s..<s + k} \<subseteq> area (live bs)"
    and k: "k \<le> length ys + 1" and lim: "length ys + 1 \<le> 4294967248" and ys: "NUL \<notin> set ys"
  obtains h' p where "malloc K (length ys + 1) h = Some (h', p)" "dat h' = dat h"
    "p = 0 \<Longrightarrow> copied brk_of h bs ys h' 0"
    "p \<noteq> 0 \<Longrightarrow> p \<le> s \<or> s + k \<le> p"
    "p \<noteq> 0 \<Longrightarrow> copied brk_of h bs ys (h'\<lparr>dat := store (dat h) p (ys @ [NUL])\<rparr>) p"
proof -
  obtain h' p where m: "malloc K (length ys + 1) h = Some (h', p)" "gives brk_of h bs (length ys + 1) h' p"
    using malloc_spec [OF rel law lim] by blast
  then obtain bs' where bs': "heap_rel brk_of h' bs'" "dat h' = dat h"
    and cs: "p = 0 \<and> live bs' = live bs \<or>
      (\<exists>n. p \<noteq> 0 \<and> length ys + 1 \<le> n \<and> 8 dvd p \<and> live bs' = insert (p, n) (live bs) \<and> (\<forall>m. (p, m) \<notin> live bs))"
    unfolding gives_def by blast
  have "(p \<le> s \<or> s + k \<le> p) \<and> copied brk_of h bs ys (h'\<lparr>dat := store (dat h) p (ys @ [NUL])\<rparr>) p" if nz: "p \<noteq> 0"
  proof -
    obtain n where n: "length ys + 1 \<le> n" "live bs' = insert (p, n) (live bs)" "(p, n) \<notin> live bs"
      using cs nz by blast
    have "(p, n) \<in> live bs'" "live bs \<subseteq> live bs' - {(p, n)}" using n(2,3) by auto
    then have dis: "area (live bs) \<inter> {p..<p + n} = {}" by (rule area_disjoint [OF bs'(1)])
    have "p \<in> {p..<p + n}" using n(1) by simp
    then have "p \<notin> {s..<s + k}" using src dis by blast
    then have "p \<le> s \<or> s + k \<le> p" by auto
    moreover have "{p..<p + length (ys @ [NUL])} \<subseteq> {p..<p + n}" using n(1) by simp
    then have "area (live bs) \<inter> {p..<p + length (ys @ [NUL])} = {}" using dis by blast
    then have "unchanged (area (live bs)) (dat h) (store (dat h) p (ys @ [NUL]))" by (rule unchanged_store)
    moreover have "cstr (store (dat h) p (ys @ [NUL])) p ys" using ys by (rule cstr_store)
    moreover have "heap_rel brk_of (h'\<lparr>dat := store (dat h) p (ys @ [NUL])\<rparr>) bs'" using bs'(1) by simp
    moreover have "length ys < n" using n(1) by simp
    ultimately show ?thesis using n(2,3) nz unfolding copied_def by auto
  qed
  moreover have "copied brk_of h bs ys h' 0" if "p = 0" using that cs bs' by (auto simp: copied_def)
  ultimately show thesis using m(1) bs'(2) that by blast
qed

lemma strdup_spec:
  assumes rel: "heap_rel brk_of h bs" and law: "brk_law K brk_of" and str: "cstr (dat h) s xs" "s \<noteq> 0"
    and src: "{s..<s + length xs + 1} \<subseteq> area (live bs)" and lim: "length xs + 1 \<le> 4294967248"
  shows "\<exists>h' p. strdup K s h = Some (h', p) \<and> copied brk_of h bs xs h' p"
proof -
  obtain h' p where m: "malloc K (length xs + 1) h = Some (h', p)" "dat h' = dat h"
    and p: "p = 0 \<Longrightarrow> copied brk_of h bs xs h' 0" "p \<noteq> 0 \<Longrightarrow> p \<le> s \<or> s + (length xs + 1) \<le> p"
      "p \<noteq> 0 \<Longrightarrow> copied brk_of h bs xs (h'\<lparr>dat := store (dat h) p (xs @ [NUL])\<rparr>) p"
    using copied_new [OF rel law, of s "length xs + 1" xs] src lim cstr_no_NUL [OF str(1)] by auto
  have "add32 (length xs) 1 = length xs + 1" using lim by (intro add32_id) simp
  then have w: "add32 (length xs) (Suc 0) = length xs + 1" by simp
  show ?thesis
  proof (cases "p = 0")
    case True
    then show ?thesis using p(1) m str by (simp add: strdup_def w)
  next
    case False
    have "memcpy (dat h) p s (length (xs @ [NUL])) = store (dat h) p (xs @ [NUL])"
      using p(2) [OF False] by (intro memcpy_bytes [OF cstr_bytes [OF str(1)]]) simp
    then show ?thesis using p(3) m str False by (simp add: strdup_def w)
  qed
qed

lemma strndup_spec:
  assumes rel: "heap_rel brk_of h bs" and law: "brk_law K brk_of" and str: "cstr (dat h) s xs" "s \<noteq> 0"
    and src: "{s..<s + length (take n xs)} \<subseteq> area (live bs)" and lim: "length (take n xs) + 1 \<le> 4294967248"
  shows "\<exists>h' p. strndup K s n h = Some (h', p) \<and> copied brk_of h bs (take n xs) h' p"
proof -
  let ?ys = "take n xs"
  have nn: "NUL \<notin> set ?ys" using cstr_no_NUL [OF str(1)] by (auto dest: in_set_takeD)
  obtain h' p where m: "malloc K (length ?ys + 1) h = Some (h', p)" "dat h' = dat h"
    and p: "p = 0 \<Longrightarrow> copied brk_of h bs ?ys h' 0" "p \<noteq> 0 \<Longrightarrow> p \<le> s \<or> s + length ?ys \<le> p"
      "p \<noteq> 0 \<Longrightarrow> copied brk_of h bs ?ys (h'\<lparr>dat := store (dat h) p (?ys @ [NUL])\<rparr>) p"
    using copied_new [OF rel law src _ lim nn] by auto
  have w: "add32 (length ?ys) 1 = length ?ys + 1" using lim by (intro add32_id) simp
  have l: "strndup_len (dat h) s n 0 = length ?ys"
    using strndup_len_str [of "dat h" s 0 xs n] str(1) by simp
  show ?thesis
  proof (cases "p = 0")
    case True
    then show ?thesis using p(1) m str(2) unfolding strndup_def l Let_def w by simp
  next
    case False
    have "bytes (dat h) s ?ys" using str(1) by (auto simp: cstr_iff bytes_nth)
    then have "memcpy (dat h) p s (length ?ys) = store (dat h) p ?ys"
      using p(2) [OF False] by (intro memcpy_bytes) auto
    then have "(memcpy (dat h) p s (length ?ys))(p + length ?ys := NUL) = store (dat h) p (?ys @ [NUL])"
      by (simp only: store_snoc')
    then show ?thesis using p(3) m str(2) False unfolding strndup_def l Let_def w by simp
  qed
qed

end
