(* ===== verification/Cact_Tls.thy ===== *)
theory Cact_Tls
  imports Cact_Allocator "HOL-Library.Sublist"
begin

text \<open>
  Static thread-local storage: the layout of \<open>include/tls_layout.h\<close> that \<open>ld.so\<close> and the libc
  share, and the blocks \<open>src/tls_static.c\<close> builds from it.  The invariant is that the modules of a
  layout never overlap, lie inside the block, and that the program's module ends at the thread
  pointer; it is kept by the objects that come and go with \<open>dlopen\<close> and \<open>dlclose\<close>.
\<close>

section \<open>Layouts\<close>

definition CACT_TLS_MAX_MODULES :: nat where "CACT_TLS_MAX_MODULES = 8"

definition CACT_TLS_TCB_SIZE :: nat where "CACT_TLS_TCB_SIZE = 8"

record tls_module =
  tls_id :: nat
  off :: nat
  vaddr :: nat
  filesz :: nat
  memsz :: nat
  align :: nat

text \<open>\<open>count\<close> is the length of the list of modules.\<close>

record tls_layout =
  total_size :: nat
  spare :: nat
  spare_used :: nat
  next_id :: nat
  mods :: "tls_module list"

definition eff_align :: "nat \<Rightarrow> nat" where
  "eff_align a = (if a < 4 \<or> a AND sub32 a 1 \<noteq> 0 then 4 else a)"

definition round_to :: "nat \<Rightarrow> nat \<Rightarrow> nat" where
  "round_to x a = sub32 (add32 x a) 1 AND sub32 0xFFFFFFFF (sub32 a 1)"

text \<open>One module placed at the running offset.\<close>

definition place_module :: "tls_module \<Rightarrow> nat \<Rightarrow> tls_module \<times> nat" where
  "place_module m o1 = (let o2 = round_to o1 (eff_align (align m)) in (m\<lparr>off := o2\<rparr>, add32 o2 (memsz m)))"

text \<open>The loop over the modules \<open>i, \<dots>, 1\<close>.\<close>

fun plan_loop :: "tls_module list \<Rightarrow> nat \<Rightarrow> nat \<Rightarrow> tls_module list \<times> nat" where
  "plan_loop ms 0 o1 = (ms, o1)"
| "plan_loop ms (Suc i) o1 = (let (m, o2) = place_module (ms ! Suc i) o1 in plan_loop (ms[Suc i := m]) i o2)"

definition cact_tls_plan_inline :: "tls_layout \<Rightarrow> nat \<Rightarrow> tls_layout" where
  "cact_tls_plan_inline lay nmods =
     (let n = (if nmods < CACT_TLS_MAX_MODULES then nmods else CACT_TLS_MAX_MODULES);
          (ms, o1) = plan_loop (take n (mods lay)) (n - 1) 0;
          (ms, o1) = (if n > 0 then let (m, o2) = place_module (ms ! 0) o1 in (ms[0 := m], o2) else (ms, o1))
      in lay\<lparr>total_size := o1, next_id := n + 1,
             mods := map (\<lambda>i. (ms ! i)\<lparr>tls_id := i + 1\<rparr>) [0..<n]\<rparr>)"

definition cact_tls_plan :: "tls_layout \<Rightarrow> nat \<Rightarrow> tls_layout" where
  "cact_tls_plan lay nmods = cact_tls_plan_inline lay nmods"

definition cact_tls_reserve :: "tls_layout \<Rightarrow> nat \<Rightarrow> tls_layout" where
  "cact_tls_reserve lay room =
     (if room = 0 then lay
      else let up = add32 room 63 AND 0xFFFFFFC0
           in lay\<lparr>mods := map (\<lambda>m. m\<lparr>off := add32 (off m) up\<rparr>) (mods lay),
                  spare := up, spare_used := 0, total_size := add32 (total_size lay) up\<rparr>)"

definition cact_tls_plan_reserved :: "tls_layout \<Rightarrow> nat \<Rightarrow> nat \<Rightarrow> tls_layout" where
  "cact_tls_plan_reserved lay nmods room = cact_tls_reserve (cact_tls_plan_inline lay nmods) room"

definition cact_tls_take :: "tls_layout \<Rightarrow> nat \<Rightarrow> nat \<Rightarrow> (tls_layout \<times> nat) option" where
  "cact_tls_take lay msz al =
     (let o1 = round_to (spare_used lay) (eff_align al)
      in if o1 > spare lay \<or> msz > sub32 (spare lay) o1 then None
         else Some (lay\<lparr>spare_used := add32 o1 msz\<rparr>, o1))"

text \<open>The general-dynamic access path; \<open>0\<close> when no module has the id.\<close>

definition cact_tls_addr :: "tls_layout \<Rightarrow> nat \<Rightarrow> nat \<Rightarrow> nat \<Rightarrow> nat" where
  "cact_tls_addr lay ident offset tp =
     (case List.find (\<lambda>m. tls_id m = ident) (mods lay) of
        Some m \<Rightarrow> sub32 (add32 (add32 tp (off m)) offset) (total_size lay)
      | None \<Rightarrow> 0)"

section \<open>Blocks\<close>

definition CACT_TLS_MAX_BLOCKS :: nat where "CACT_TLS_MAX_BLOCKS = 128"

record 'k tls_state =
  heap :: "'k heap"
  layout :: tls_layout
  blocks :: "(nat \<times> nat) list"

definition tls_block_register :: "nat \<Rightarrow> 'k tls_state \<Rightarrow> 'k tls_state" where
  "tls_block_register tp s =
     (if length (blocks s) < CACT_TLS_MAX_BLOCKS then s\<lparr>blocks := blocks s @ [(tp, total_size (layout s))]\<rparr> else s)"

text \<open>A 32-bit word in memory, lowest byte first.\<close>

definition le32 :: "nat \<Rightarrow> string" where
  "le32 v = map (\<lambda>i. char_of (v div 256 ^ i)) [0..<4]"

fun fill_images :: "tls_module list \<Rightarrow> nat \<Rightarrow> mem \<Rightarrow> mem" where
  "fill_images [] base m = m"
| "fill_images (t # ts) base m =
     fill_images ts base (if filesz t \<noteq> 0 then memcpy m (base + off t) (vaddr t) (filesz t) else m)"

definition cact_tls_fill :: "nat \<Rightarrow> tls_layout \<Rightarrow> mem \<Rightarrow> mem \<times> nat" where
  "cact_tls_fill block lay m =
     (let base = block;
          m1 = memset m base 0 (total_size lay);
          m2 = fill_images (mods lay) base m1;
          tcb = base + total_size lay
      in (store m2 tcb (le32 tcb), tcb))"

definition cact_tls_alloc :: "'k kernel \<Rightarrow> 'k tls_state \<Rightarrow> ('k tls_state \<times> nat) option" where
  "cact_tls_alloc K s = do {
     (h, p) \<leftarrow> malloc K (add32 (add32 (total_size (layout s)) CACT_TLS_TCB_SIZE) 16) (heap s);
     if p = 0 then Some (s\<lparr>heap := h\<rparr>, 0)
     else Some (s\<lparr>heap := h\<rparr>, add32 p 15 AND 0xFFFFFFF0)
   }"

definition cact_tls_block_new :: "'k kernel \<Rightarrow> 'k tls_state \<Rightarrow> ('k tls_state \<times> nat) option" where
  "cact_tls_block_new K s =
     (if total_size (layout s) = 0 then Some (s, 0)
      else do {
        (s1, block) \<leftarrow> cact_tls_alloc K s;
        if block = 0 then Some (s1, 0)
        else let (m, tcb) = cact_tls_fill block (layout s1) (dat (heap s1));
                 s2 = s1\<lparr>heap := (heap s1)\<lparr>dat := m\<rparr>\<rparr>
             in Some (tls_block_register tcb s2, tcb)
      })"

text \<open>\<open>__cact_tls_start\<close> also installs the block; \<open>set_thread_area\<close> is the kernel's part of it, a
  function of the new base and the kernel state.\<close>

definition cact_tls_start :: "'k kernel \<Rightarrow> (nat \<Rightarrow> 'k \<Rightarrow> 'k) \<Rightarrow> 'k tls_state \<Rightarrow> 'k tls_state option" where
  "cact_tls_start K set_thread_area s =
     (if total_size (layout s) = 0 then Some s
      else do {
        (s1, block) \<leftarrow> cact_tls_alloc K s;
        if block = 0 then Some s1
        else let (m, tcb) = cact_tls_fill block (layout s1) (dat (heap s1));
                 s2 = tls_block_register tcb (s1\<lparr>heap := (heap s1)\<lparr>dat := m\<rparr>\<rparr>)
             in Some (s2\<lparr>heap := (heap s2)\<lparr>kern := set_thread_area tcb (kern (heap s2))\<rparr>\<rparr>)
      })"

text \<open>The image of a late module is copied into the blocks that exist.\<close>

fun copy_to_blocks :: "(nat \<times> nat) list \<Rightarrow> nat \<Rightarrow> nat \<Rightarrow> nat \<Rightarrow> nat \<Rightarrow> nat \<Rightarrow> mem \<Rightarrow> mem" where
  "copy_to_blocks [] tot o1 va fsz msz m = m"
| "copy_to_blocks ((tp, btot) # bs) tot o1 va fsz msz m =
     (if btot \<noteq> tot then copy_to_blocks bs tot o1 va fsz msz m
      else let slot = tp - tot + o1;
               m1 = (if fsz \<noteq> 0 then memcpy m slot va fsz else m);
               m2 = (if msz > fsz then memset m1 (slot + fsz) 0 (msz - fsz) else m1)
           in copy_to_blocks bs tot o1 va fsz msz m2)"

definition cact_tls_module_add ::
  "nat \<Rightarrow> nat \<Rightarrow> nat \<Rightarrow> nat \<Rightarrow> 'k tls_state \<Rightarrow> 'k tls_state \<times> nat option" where
  "cact_tls_module_add va fsz msz al s =
     (if length (mods (layout s)) \<ge> CACT_TLS_MAX_MODULES then (s, None)
      else case cact_tls_take (layout s) msz al of
        None \<Rightarrow> (s, None)
      | Some (lay, o1) \<Rightarrow>
          let m = \<lparr>tls_id = next_id lay, off = o1, vaddr = va, filesz = fsz, memsz = msz, align = al\<rparr>;
              lay' = lay\<lparr>mods := mods lay @ [m], next_id := next_id lay + 1\<rparr>;
              mem' = copy_to_blocks (blocks s) (total_size lay') o1 va fsz msz (dat (heap s))
          in (s\<lparr>layout := lay', heap := (heap s)\<lparr>dat := mem'\<rparr>\<rparr>, Some o1))"

fun drop_first :: "(tls_module \<Rightarrow> bool) \<Rightarrow> tls_module list \<Rightarrow> tls_module list" where
  "drop_first P [] = []"
| "drop_first P (m # ms) = (if P m then ms else m # drop_first P ms)"

definition cact_tls_module_drop :: "nat \<Rightarrow> 'k tls_state \<Rightarrow> 'k tls_state" where
  "cact_tls_module_drop o1 s =
     s\<lparr>layout := (layout s)\<lparr>mods := drop_first (\<lambda>m. off m = o1 \<and> memsz m \<noteq> 0) (mods (layout s))\<rparr>\<rparr>"

text \<open>\<open>___tls_get_addr\<close>: \<open>gs0\<close> is the word at the base of \<open>%gs\<close>.\<close>

definition tls_get_addr :: "'k tls_state \<Rightarrow> (nat \<times> nat) option \<Rightarrow> nat \<Rightarrow> nat" where
  "tls_get_addr s ti gs0 =
     (case ti of None \<Rightarrow> 0
      | Some (ident, offset) \<Rightarrow>
          if total_size (layout s) = 0 then 0
          else if gs0 = 0 then 0
          else cact_tls_addr (layout s) ident offset gs0)"

section \<open>The invariant of a layout\<close>

lemma eff_align_pow2:
  assumes "a < 4294967296"
  obtains k where "2 \<le> k" "k < 32" "eff_align a = 2 ^ k"
proof (cases "a < 4 \<or> a AND sub32 a 1 \<noteq> 0")
  case True
  then show thesis using that [of 2] by (simp add: eff_align_def)
next
  case False
  then have "\<not> bad_alignment a" by (simp add: bad_alignment_def)
  then obtain k where "2 \<le> k" "k < 32" "a = 2 ^ k" using good_alignment [OF assms] by blast
  with False show thesis using that [of k] by (simp add: eff_align_def)
qed

lemma round_to_props:
  assumes "a < 4294967296" "x + eff_align a < 4294967296"
  shows "eff_align a dvd round_to x (eff_align a)" "x \<le> round_to x (eff_align a)"
    "round_to x (eff_align a) < x + eff_align a"
proof -
  obtain k where k: "k < 32" "eff_align a = 2 ^ k" using eff_align_pow2 [OF assms(1)] by blast
  have "(2 :: nat) ^ k < 2 ^ 32" using k(1) by (rule power_strict_increasing) simp
  then have "sub32 4294967295 (sub32 (2 ^ k) 1) = 4294967295 - (2 ^ k - 1)" by (simp add: sub32_id)
  moreover have "sub32 (add32 x (2 ^ k)) 1 = x + 2 ^ k - 1"
    using assms(2) k(2) by (simp add: add32_id sub32_id trans_le_add2)
  moreover have "(x + 2 ^ k - 1) AND (4294967295 - (2 ^ k - 1)) = (x + 2 ^ k - 1) div 2 ^ k * 2 ^ k"
    using assms(2) k by (intro and_clear_low) simp_all
  ultimately have "round_to x (eff_align a) = (x + 2 ^ k - 1) div 2 ^ k * 2 ^ k"
    by (simp add: round_to_def k(2))
  with div_mult_near [of "2 ^ k" x] show "eff_align a dvd round_to x (eff_align a)"
    "x \<le> round_to x (eff_align a)" "round_to x (eff_align a) < x + eff_align a"
    by (simp_all only: k(2) dvd_triv_right zero_less_power zero_less_numeral)
qed

text \<open>Modules one above the other, from \<open>lo\<close> up to \<open>hi\<close>.\<close>

fun stacked :: "nat \<Rightarrow> tls_module list \<Rightarrow> nat \<Rightarrow> bool" where
  "stacked lo [] hi \<longleftrightarrow> lo \<le> hi"
| "stacked lo (m # ms) hi \<longleftrightarrow> lo \<le> off m \<and> stacked (off m + memsz m) ms hi"

definition aligned_at :: "tls_module \<Rightarrow> bool" where
  "aligned_at m \<longleftrightarrow> eff_align (align m) dvd off m"

definition apart :: "tls_module \<Rightarrow> tls_module \<Rightarrow> bool" where
  "apart a b \<longleftrightarrow> off a + memsz a \<le> off b \<or> off b + memsz b \<le> off a"

lemma stacked_bounds: "stacked lo ms hi \<Longrightarrow> m \<in> set ms \<Longrightarrow> lo \<le> off m \<and> off m + memsz m \<le> hi"
proof (induction ms arbitrary: lo)
  case (Cons a ms)
  have le: "stacked l ms hi \<Longrightarrow> l \<le> hi" for l by (induction ms arbitrary: l) fastforce+
  from Cons le [of "off a + memsz a"] show ?case by fastforce
qed simp

lemma stacked_apart: "stacked lo ms hi \<Longrightarrow> sorted_wrt apart ms"
proof (induction ms arbitrary: lo)
  case (Cons a ms)
  then show ?case using stacked_bounds [of "off a + memsz a" ms hi] by (auto simp: apart_def)
qed simp

lemma stacked_append: "stacked lo (xs @ [m]) hi \<longleftrightarrow> stacked lo xs (off m) \<and> off m + memsz m \<le> hi"
  by (induction xs arbitrary: lo) auto

lemma stacked_mono: "stacked lo ms hi \<Longrightarrow> hi \<le> hi' \<Longrightarrow> stacked lo ms hi'"
  by (induction ms arbitrary: lo) auto

lemma stacked_cong:
  "map off xs = map off ys \<Longrightarrow> map memsz xs = map memsz ys \<Longrightarrow> stacked lo xs hi = stacked lo ys hi"
proof (induction xs arbitrary: ys lo)
  case (Cons x xs)
  then obtain y ys' where "ys = y # ys'" by (cases ys) auto
  then show ?case using Cons.prems Cons.IH [of ys' "off y + memsz y"] by simp
qed simp

lemma apart_sym: "apart a b \<longleftrightarrow> apart b a"
  by (auto simp: apart_def)

lemma apart_rev: "sorted_wrt apart (rev ms) \<longleftrightarrow> sorted_wrt apart ms"
proof -
  have "(\<lambda>x y. apart y x) = apart" by (intro ext) (rule apart_sym)
  then show ?thesis by (simp add: sorted_wrt_rev)
qed

text \<open>The room the plan may need for the modules \<open>1, \<dots>, i\<close>.\<close>

definition cost :: "tls_module \<Rightarrow> nat" where
  "cost m = memsz m + eff_align (align m)"

lemma place_module_spec:
  assumes "align m < 4294967296" "o1 + cost m < 4294967296" "place_module m o1 = (m', o2)"
  shows "aligned_at m'" "o1 \<le> off m'" "o2 = off m' + memsz m'" "o2 \<le> o1 + cost m" "memsz m' = memsz m"
    "align m' = align m" "m' = m\<lparr>off := off m'\<rparr>"
proof -
  have r: "eff_align (align m) dvd round_to o1 (eff_align (align m))" "o1 \<le> round_to o1 (eff_align (align m))"
    "round_to o1 (eff_align (align m)) < o1 + eff_align (align m)"
    using round_to_props [OF assms(1)] assms(2) by (simp_all add: cost_def)
  have o2: "o2 = round_to o1 (eff_align (align m)) + memsz m" "m' = m\<lparr>off := round_to o1 (eff_align (align m))\<rparr>"
    using assms(2,3) r(3) by (auto simp: place_module_def Let_def add32_id cost_def)
  show "aligned_at m'" "o1 \<le> off m'" "o2 = off m' + memsz m'" "o2 \<le> o1 + cost m" "memsz m' = memsz m"
    "align m' = align m" "m' = m\<lparr>off := off m'\<rparr>"
    using r by (simp_all add: o2 aligned_at_def cost_def)
qed

lemma plan_loop_spec:
  assumes "plan_loop ms i o1 = (ms', o2)" "i < length ms" "\<forall>m \<in> set ms. align m < 4294967296"
    and "o1 + (\<Sum>j = 1..i. cost (ms ! j)) < 4294967296"
  shows "length ms' = length ms \<and> (\<forall>j. j = 0 \<or> i < j \<longrightarrow> ms' ! j = ms ! j) \<and>
    stacked o1 (rev (map ((!) ms') [1..<Suc i])) o2 \<and> o2 \<le> o1 + (\<Sum>j = 1..i. cost (ms ! j)) \<and>
    (\<forall>j. 1 \<le> j \<and> j \<le> i \<longrightarrow> aligned_at (ms' ! j) \<and> ms' ! j = (ms ! j)\<lparr>off := off (ms' ! j)\<rparr>)"
  using assms
proof (induction ms i o1 arbitrary: ms' o2 rule: plan_loop.induct)
  case (1 ms o1)
  then show ?case by simp
next
  case (2 ms i o1)
  obtain m oo where m: "place_module (ms ! Suc i) o1 = (m, oo)" by (cases "place_module (ms ! Suc i) o1")
  have run: "plan_loop (ms[Suc i := m]) i oo = (ms', o2)" using "2.prems"(1) m by simp
  have sum: "(\<Sum>j = 1..Suc i. cost (ms ! j)) = (\<Sum>j = 1..i. cost (ms ! j)) + cost (ms ! Suc i)" by simp
  have "align (ms ! Suc i) < 4294967296" using "2.prems"(2,3) by simp
  then have pl: "aligned_at m" "o1 \<le> off m" "oo = off m + memsz m" "oo \<le> o1 + cost (ms ! Suc i)"
    "align m = align (ms ! Suc i)" "m = (ms ! Suc i)\<lparr>off := off m\<rparr>"
    using place_module_spec [OF _ _ m] "2.prems"(4) unfolding sum by simp_all
  have same: "(\<Sum>j = 1..i. cost (ms[Suc i := m] ! j)) = (\<Sum>j = 1..i. cost (ms ! j))"
    by (rule sum.cong) simp_all
  have "\<forall>x \<in> set (ms[Suc i := m]). align x < 4294967296"
    using "2.prems"(2,3) pl(5) by (metis in_set_conv_nth length_list_update nth_list_update)
  moreover have "oo + (\<Sum>j = 1..i. cost (ms[Suc i := m] ! j)) < 4294967296"
    using "2.prems"(4) pl(4) unfolding same sum by simp
  ultimately have IH: "length ms' = length (ms[Suc i := m]) \<and>
    (\<forall>j. j = 0 \<or> i < j \<longrightarrow> ms' ! j = ms[Suc i := m] ! j) \<and>
    stacked oo (rev (map ((!) ms') [1..<Suc i])) o2 \<and> o2 \<le> oo + (\<Sum>j = 1..i. cost (ms[Suc i := m] ! j)) \<and>
    (\<forall>j. 1 \<le> j \<and> j \<le> i \<longrightarrow> aligned_at (ms' ! j) \<and> ms' ! j = (ms[Suc i := m] ! j)\<lparr>off := off (ms' ! j)\<rparr>)"
    using "2.prems"(2) by (intro "2.IH" [OF m [symmetric] refl run]) simp_all
  have top: "ms' ! Suc i = m" using IH "2.prems"(2) by simp
  have "rev (map ((!) ms') [1..<Suc (Suc i)]) = m # rev (map ((!) ms') [1..<Suc i])" using top by simp
  moreover have "aligned_at (ms' ! j) \<and> ms' ! j = (ms ! j)\<lparr>off := off (ms' ! j)\<rparr>" if "1 \<le> j" "j \<le> Suc i" for j
    using IH top pl(1,6) that by (cases "j = Suc i") auto
  ultimately show ?case using IH pl(2,3,4) "2.prems"(2) unfolding sum same by auto
qed

text \<open>What the plan makes of the modules it is given; module 0 is the program.\<close>

lemma plan_spec:
  assumes n: "0 < n" "n \<le> 8" "length (mods lay) = n" and al: "\<forall>m \<in> set (mods lay). align m < 4294967296"
    and room: "(\<Sum>m\<leftarrow>mods lay. cost m) < 4294967296"
  defines "lay' \<equiv> cact_tls_plan_inline lay n"
  shows "length (mods lay') = n" "next_id lay' = n + 1" "stacked 0 (rev (mods lay')) (total_size lay')"
    "off (hd (mods lay')) + memsz (hd (mods lay')) = total_size lay'"
    "total_size lay' \<le> (\<Sum>m\<leftarrow>mods lay. cost m)"
    "\<forall>i<n. aligned_at (mods lay' ! i) \<and> (\<exists>x. mods lay' ! i = (mods lay ! i)\<lparr>off := x, tls_id := i + 1\<rparr>)"
proof -
  define ms where "ms = mods lay"
  have len: "length ms = n" using n(3) by (simp add: ms_def)
  obtain ms1 o1 where p1: "plan_loop ms (n - 1) 0 = (ms1, o1)" by (cases "plan_loop ms (n - 1) 0")
  obtain m0 o2 where p2: "place_module (ms1 ! 0) o1 = (m0, o2)" by (cases "place_module (ms1 ! 0) o1")
  have "(\<Sum>m\<leftarrow>ms. cost m) = (\<Sum>j = 0..<n. cost (ms ! j))"
    using len by (subst sum_list_sum_nth) (auto intro!: sum.cong)
  also have "\<dots> = cost (ms ! 0) + (\<Sum>j = 1..<n. cost (ms ! j))"
    using n(1) by (simp add: sum.atLeast_Suc_lessThan)
  also have "{1..<n} = {1..n - 1}" using n(1) by auto
  finally have sum: "(\<Sum>m\<leftarrow>ms. cost m) = cost (ms ! 0) + (\<Sum>j = 1..n - 1. cost (ms ! j))" .
  have L: "length ms1 = n" "ms1 ! 0 = ms ! 0" "stacked 0 (rev (map ((!) ms1) [1..<n])) o1"
    "o1 \<le> (\<Sum>j = 1..n - 1. cost (ms ! j))"
    "\<forall>j. 1 \<le> j \<and> j \<le> n - 1 \<longrightarrow> aligned_at (ms1 ! j) \<and> ms1 ! j = (ms ! j)\<lparr>off := off (ms1 ! j)\<rparr>"
    using plan_loop_spec [OF p1] al room n(1) len sum by (simp_all add: ms_def)
  have "align (ms ! 0) < 4294967296" using al n(1) len by (simp add: ms_def)
  then have P: "aligned_at m0" "o1 \<le> off m0" "o2 = off m0 + memsz m0" "o2 \<le> o1 + cost (ms ! 0)"
    "m0 = (ms ! 0)\<lparr>off := off m0\<rparr>"
    using place_module_spec [OF _ _ p2] L(2,4) room sum unfolding ms_def [symmetric] by simp_all
  have nn: "(if n < CACT_TLS_MAX_MODULES then n else CACT_TLS_MAX_MODULES) = n"
    using n(2) by (simp add: CACT_TLS_MAX_MODULES_def)
  have lay': "lay' = lay\<lparr>total_size := o2, next_id := n + 1,
      mods := map (\<lambda>i. (ms1[0 := m0] ! i)\<lparr>tls_id := i + 1\<rparr>) [0..<n]\<rparr>"
    unfolding lay'_def cact_tls_plan_inline_def nn Let_def ms_def [symmetric]
    using n(1) len p1 p2 by simp
  have nth: "mods lay' ! i = (if i = 0 then m0 else ms1 ! i)\<lparr>tls_id := i + 1\<rparr>" if "i < n" for i
    using that L(1) by (auto simp: lay')
  show "length (mods lay') = n" "next_id lay' = n + 1" by (simp_all add: lay')
  have hd: "hd (mods lay') = m0\<lparr>tls_id := 1\<rparr>" using n(1) nth [of 0] by (simp add: lay' hd_conv_nth)
  show "off (hd (mods lay')) + memsz (hd (mods lay')) = total_size lay'"
    unfolding hd using P(3) by (simp add: lay')
  show "total_size lay' \<le> (\<Sum>m\<leftarrow>mods lay. cost m)"
    using P(4) L(4) sum by (simp add: lay' ms_def)
  show "\<forall>i<n. aligned_at (mods lay' ! i) \<and> (\<exists>x. mods lay' ! i = (mods lay ! i)\<lparr>off := x, tls_id := i + 1\<rparr>)"
  proof (intro allI impI)
    fix i assume i: "i < n"
    show "aligned_at (mods lay' ! i) \<and> (\<exists>x. mods lay' ! i = (mods lay ! i)\<lparr>off := x, tls_id := i + 1\<rparr>)"
    proof (cases "i = 0")
      case True
      obtain x where "m0 = (ms ! 0)\<lparr>off := x\<rparr>" using P(5) by blast
      then have "mods lay' ! i = (mods lay ! i)\<lparr>off := x, tls_id := i + 1\<rparr>" using True nth [OF i] by (simp add: ms_def)
      moreover have "aligned_at (mods lay' ! i)" using P(1) True nth [OF i] by (simp add: aligned_at_def)
      ultimately show ?thesis by blast
    next
      case False
      then have "1 \<le> i \<and> i \<le> n - 1" using i by linarith
      then have a: "aligned_at (ms1 ! i)" and e: "ms1 ! i = (ms ! i)\<lparr>off := off (ms1 ! i)\<rparr>" using L(5) by blast+
      obtain x where "ms1 ! i = (ms ! i)\<lparr>off := x\<rparr>" using e by blast
      then have "mods lay' ! i = (mods lay ! i)\<lparr>off := x, tls_id := i + 1\<rparr>" using False nth [OF i] by (simp add: ms_def)
      moreover have "aligned_at (mods lay' ! i)" using a False nth [OF i] by (simp add: aligned_at_def)
      ultimately show ?thesis by blast
    qed
  qed
  have "stacked 0 (rev (map ((!) ms1) [1..<n]) @ [m0]) o2" using L(3) P(2,3) by (simp add: stacked_append stacked_mono)
  moreover have "map off (rev (mods lay')) = map off (rev (map ((!) ms1) [1..<n]) @ [m0])"
    "map memsz (rev (mods lay')) = map memsz (rev (map ((!) ms1) [1..<n]) @ [m0])"
  proof -
    have ex: "[0..<n] = 0 # [1..<n]" using n(1) by (simp add: upt_conv_Cons)
    have "map f (mods lay') = f (m0\<lparr>tls_id := 1\<rparr>) # map (\<lambda>i. f ((ms1 ! i)\<lparr>tls_id := i + 1\<rparr>)) [1..<n]"
      for f :: "tls_module \<Rightarrow> nat"
      using L(1) n(1) unfolding lay' ex by (auto simp: comp_def)
    then show "map off (rev (mods lay')) = map off (rev (map ((!) ms1) [1..<n]) @ [m0])"
      "map memsz (rev (mods lay')) = map memsz (rev (map ((!) ms1) [1..<n]) @ [m0])"
      by (simp_all add: rev_map [symmetric] comp_def)
  qed
  moreover have "total_size lay' = o2" by (simp add: lay')
  ultimately show "stacked 0 (rev (mods lay')) (total_size lay')" using stacked_cong by metis
qed

text \<open>
  The invariant: the modules do not overlap, each is aligned and lies either in the part of the
  spare room handed out so far or above the spare room, and the program's module (the first) ends
  at the thread pointer.  Identifiers are never reused.
\<close>

definition lay_inv :: "tls_layout \<Rightarrow> bool" where
  "lay_inv lay \<longleftrightarrow>
     spare_used lay \<le> spare lay \<and> spare lay \<le> total_size lay \<and> total_size lay < 2147483648 \<and>
     sorted_wrt apart (mods lay) \<and> (\<forall>m \<in> set (mods lay). aligned_at m \<and> tls_id m < next_id lay) \<and>
     distinct (map tls_id (mods lay)) \<and>
     (\<exists>prog ms. mods lay = prog # ms \<and> spare lay \<le> off prog \<and> off prog + memsz prog = total_size lay) \<and>
     (\<forall>m \<in> set (mods lay). off m + memsz m \<le> spare_used lay \<or>
        spare lay \<le> off m \<and> off m + memsz m \<le> total_size lay)"

lemma reserve_inv:
  assumes st: "stacked 0 (rev (mods lay)) (total_size lay)" and ne: "mods lay \<noteq> []"
    and tp: "off (hd (mods lay)) + memsz (hd (mods lay)) = total_size lay"
    and al: "\<forall>m \<in> set (mods lay). aligned_at m \<and> eff_align (align m) dvd 64 \<and> tls_id m < next_id lay"
    and ids: "distinct (map tls_id (mods lay))" and sz: "0 < room" "room < 65536" "total_size lay < 2000000000"
  shows "lay_inv (cact_tls_reserve lay room)"
proof -
  define up where "up = add32 room 63 AND 0xFFFFFFC0"
  have "add32 room 63 = room + 63" using sz(2) by (simp add: add32_id)
  then have up: "up = (room + 64 - 1) div 64 * 64"
    using and_clear_low [of "room + 63" 6] sz(2) by (simp add: up_def)
  have le: "up < 70000" using div_mult_near [of 64 room] sz(2) by (simp add: up)
  have bnd: "off m + memsz m \<le> total_size lay" if "m \<in> set (mods lay)" for m
    using stacked_bounds [OF st] that by simp
  define sh where "sh = (\<lambda>m :: tls_module. m\<lparr>off := off m + up\<rparr>)"
  have "map (\<lambda>m. m\<lparr>off := add32 (off m) up\<rparr>) (mods lay) = map sh (mods lay)"
    using bnd le sz(3) by (fastforce simp: sh_def add32_id)
  moreover have "add32 (total_size lay) up = total_size lay + up" using le sz(3) by (simp add: add32_id)
  ultimately have r: "cact_tls_reserve lay room = lay\<lparr>mods := map sh (mods lay), spare := up, spare_used := 0,
      total_size := total_size lay + up\<rparr>"
    using sz(1) unfolding cact_tls_reserve_def up_def by (simp add: Let_def)
  have "sorted_wrt apart (mods lay)" using stacked_apart [OF st] by (simp add: apart_rev)
  then have "sorted_wrt apart (map sh (mods lay))"
    unfolding sorted_wrt_map by (rule sorted_wrt_mono_rel [rotated]) (auto simp: apart_def sh_def)
  moreover have "aligned_at (sh m)" if "m \<in> set (mods lay)" for m
  proof -
    have "64 dvd up" by (simp add: up)
    then have "eff_align (align m) dvd up" using al that by (meson dvd_trans)
    then show ?thesis using al that by (simp add: aligned_at_def sh_def dvd_add)
  qed
  moreover have "map tls_id (map sh (mods lay)) = map tls_id (mods lay)" by (simp add: sh_def)
  moreover obtain prog ms where "mods lay = prog # ms" using ne by (cases "mods lay") auto
  ultimately show ?thesis
    using al ids tp bnd le sz(3) unfolding r lay_inv_def by (auto simp: sh_def comp_def)
qed

lemma take_inv:
  assumes inv: "lay_inv lay" and t: "cact_tls_take lay msz al = Some (lay', o1)"
    and sz: "al < 2147483648" "msz < 4294967296"
  shows "lay' = lay\<lparr>spare_used := o1 + msz\<rparr>" "spare_used lay \<le> o1" "o1 + msz \<le> spare lay" "eff_align al dvd o1"
proof -
  have lim: "spare_used lay \<le> spare lay" "spare lay < 2147483648" using inv by (auto simp: lay_inv_def)
  have "eff_align al < 2147483648" using sz(1) by (auto simp: eff_align_def)
  then have r: "eff_align al dvd round_to (spare_used lay) (eff_align al)"
    "spare_used lay \<le> round_to (spare_used lay) (eff_align al)"
    using round_to_props [of al "spare_used lay"] lim sz by simp_all
  have o1: "o1 = round_to (spare_used lay) (eff_align al)" "o1 \<le> spare lay" "msz \<le> sub32 (spare lay) o1"
    "lay' = lay\<lparr>spare_used := add32 o1 msz\<rparr>"
    using t by (auto simp: cact_tls_take_def Let_def split: if_splits)
  have "sub32 (spare lay) o1 = spare lay - o1" using o1(2) lim by (intro sub32_id) simp_all
  then have le: "o1 + msz \<le> spare lay" using o1(2,3) by simp
  then have "add32 o1 msz = o1 + msz" using lim by (intro add32_id) simp
  with o1 le r show "lay' = lay\<lparr>spare_used := o1 + msz\<rparr>" "spare_used lay \<le> o1" "o1 + msz \<le> spare lay" "eff_align al dvd o1"
    by simp_all
qed

lemma module_add_inv:
  assumes inv: "lay_inv (layout s)" and add: "cact_tls_module_add va fsz msz al s = (s', r)"
    and sz: "al < 2147483648" "msz < 4294967296"
  shows "lay_inv (layout s')"
proof (cases "r")
  case None
  then have "s' = s" using add by (auto simp: cact_tls_module_add_def Let_def split: if_splits option.splits)
  with inv show ?thesis by simp
next
  case (Some o1)
  then obtain lay' where t: "cact_tls_take (layout s) msz al = Some (lay', o1)"
    and s': "layout s' = lay'\<lparr>mods := mods lay' @ [\<lparr>tls_id = next_id lay', off = o1, vaddr = va, filesz = fsz,
        memsz = msz, align = al\<rparr>], next_id := next_id lay' + 1\<rparr>"
    using add by (auto simp: cact_tls_module_add_def Let_def split: if_splits option.splits prod.splits)
  note tk = take_inv [OF inv t sz]
  obtain prog ms where pm: "mods (layout s) = prog # ms" "spare (layout s) \<le> off prog"
      "off prog + memsz prog = total_size (layout s)"
    using inv by (auto simp: lay_inv_def)
  show ?thesis
    using inv tk(2-4) unfolding s' tk(1) lay_inv_def
    by (auto simp: sorted_wrt_append aligned_at_def apart_def)
qed

lemma drop_first_subseq: "subseq (drop_first P ms) ms"
  by (induction ms) auto

lemma drop_first_head: "\<not> P m \<Longrightarrow> drop_first P (m # ms) = m # drop_first P ms"
  by simp

lemma sorted_wrt_subseq: "subseq xs ys \<Longrightarrow> sorted_wrt P ys \<Longrightarrow> sorted_wrt P xs"
proof (induction rule: list_emb.induct)
  case (list_emb_Cons2 x y xs ys)
  then show ?case by (auto dest: list_emb_set)
qed auto

lemma distinct_subseq: "subseq xs ys \<Longrightarrow> distinct ys \<Longrightarrow> distinct xs"
proof (induction rule: list_emb.induct)
  case (list_emb_Cons2 x y xs ys)
  then show ?case by (auto dest: list_emb_set)
qed auto

lemma module_drop_inv:
  assumes inv: "lay_inv (layout s)" and late: "o1 < spare (layout s)"
  shows "lay_inv (layout (cact_tls_module_drop o1 s))"
proof -
  let ?P = "\<lambda>m. off m = o1 \<and> memsz m \<noteq> 0" and ?ms = "mods (layout s)"
  obtain prog ms where pm: "?ms = prog # ms" "spare (layout s) \<le> off prog"
      "off prog + memsz prog = total_size (layout s)"
    using inv by (auto simp: lay_inv_def)
  have sub: "subseq (drop_first ?P ?ms) ?ms" by (rule drop_first_subseq)
  then have "sorted_wrt apart (drop_first ?P ?ms)"
    using inv by (intro sorted_wrt_subseq [OF sub]) (simp add: lay_inv_def)
  moreover have "distinct (map tls_id (drop_first ?P ?ms))"
    using inv subseq_map [OF sub, of tls_id] by (auto simp: lay_inv_def dest: distinct_subseq)
  moreover have "set (drop_first ?P ?ms) \<subseteq> set ?ms" using list_emb_set [OF sub] by auto
  moreover have "drop_first ?P ?ms = prog # drop_first ?P ms" using pm late by simp
  ultimately show ?thesis using inv pm(2,3)
    unfolding lay_inv_def cact_tls_module_drop_def by auto
qed

section \<open>Every layout a process can reach\<close>

text \<open>A process starts with a planned layout; objects with thread-local storage of their own are
  added and dropped as they are loaded and unloaded.  \<open>dlclose\<close> drops only what was added.\<close>

inductive tls_step :: "'k tls_state \<Rightarrow> 'k tls_state \<Rightarrow> bool" where
  load: "cact_tls_module_add va fsz msz al s = (s', r) \<Longrightarrow> al < 2147483648 \<Longrightarrow> msz < 4294967296 \<Longrightarrow> tls_step s s'"
| unload: "o1 < spare (layout s) \<Longrightarrow> tls_step s (cact_tls_module_drop o1 s)"
| thread: "cact_tls_block_new K s = Some (s', tcb) \<Longrightarrow> tls_step s s'"

inductive_cases tls_stepE: "tls_step s s'"

lemma block_new_layout:
  assumes "cact_tls_block_new K s = Some (s', tcb)"
  shows "layout s' = layout s"
  using assms
  by (auto simp: cact_tls_block_new_def cact_tls_alloc_def tls_block_register_def bind_eq_Some_conv Let_def
      split: if_splits prod.splits)

lemma tls_step_inv: "tls_step s s' \<Longrightarrow> lay_inv (layout s) \<Longrightarrow> lay_inv (layout s')"
  by (elim tls_stepE) (auto intro: module_add_inv module_drop_inv simp: block_new_layout)

inductive tls_reachable :: "'k tls_state \<Rightarrow> 'k tls_state \<Rightarrow> bool" where
  refl: "tls_reachable s s"
| step: "tls_reachable s s' \<Longrightarrow> tls_step s' s'' \<Longrightarrow> tls_reachable s s''"

lemma tls_reachable_inv: "tls_reachable s s' \<Longrightarrow> lay_inv (layout s) \<Longrightarrow> lay_inv (layout s')"
  by (induction rule: tls_reachable.induct) (auto intro: tls_step_inv)

text \<open>The layouts \<open>ld.so\<close> publishes.\<close>

lemma eff_align_dvd_64:
  assumes "a \<le> 64"
  shows "eff_align a dvd 64"
proof -
  obtain k where k: "eff_align a = 2 ^ k" using eff_align_pow2 [of a] assms by auto
  have "eff_align a \<le> 64" using assms by (simp add: eff_align_def)
  then have "(2 :: nat) ^ k \<le> 2 ^ 6" by (simp add: k)
  then have "k \<le> 6" by (rule power_le_imp_le_exp [rotated]) simp
  then have "(2 :: nat) ^ k dvd 2 ^ 6" by (rule le_imp_power_dvd)
  then show ?thesis by (simp add: k)
qed

lemma planned_inv:
  assumes n: "0 < n" "n \<le> 8" "length (mods lay) = n"
    and al: "\<forall>m \<in> set (mods lay). align m \<le> 64" and room: "(\<Sum>m\<leftarrow>mods lay. cost m) < 2000000000"
  shows "lay_inv (cact_tls_plan_reserved lay n 1024)"
proof -
  have al': "\<forall>m \<in> set (mods lay). align m < 4294967296" using al by fastforce
  have room': "(\<Sum>m\<leftarrow>mods lay. cost m) < 4294967296" using room by simp
  note pl = plan_spec [OF n al' room']
  let ?lay = "cact_tls_plan_inline lay n"
  have id: "tls_id (mods ?lay ! i) = i + 1" "align (mods ?lay ! i) = align (mods lay ! i)"
    "aligned_at (mods ?lay ! i)" if "i < n" for i
    using pl(6) that by force+
  have "lay_inv (cact_tls_reserve ?lay 1024)"
  proof (rule reserve_inv [OF pl(3) _ pl(4)])
    show "mods ?lay \<noteq> []" using pl(1) n(1) by auto
    show "\<forall>m \<in> set (mods ?lay). aligned_at m \<and> eff_align (align m) dvd 64 \<and> tls_id m < next_id ?lay"
    proof
      fix m assume "m \<in> set (mods ?lay)"
      then obtain i where i: "i < n" "m = mods ?lay ! i" using pl(1) by (auto simp: in_set_conv_nth)
      have "align (mods lay ! i) \<le> 64" using al i(1) n(3) by simp
      then show "aligned_at m \<and> eff_align (align m) dvd 64 \<and> tls_id m < next_id ?lay"
        using id [OF i(1)] pl(2) i eff_align_dvd_64 by simp
    qed
    show "distinct (map tls_id (mods ?lay))"
      using id(1) pl(1) by (auto simp: distinct_conv_nth)
  qed (use pl(5) room in simp_all)
  then show ?thesis by (simp add: cact_tls_plan_reserved_def)
qed

section \<open>Addresses\<close>

text \<open>Two variables of a program or its libraries never share an address: the address is a
  function of the module and the offset inside it, and different modules get different addresses.\<close>

lemma tls_addr_module:
  assumes inv: "lay_inv lay" and m: "m \<in> set (mods lay)" and o: "offset < memsz m"
    and tp: "total_size lay \<le> tp" "tp < 2147483648"
  shows "cact_tls_addr lay (tls_id m) offset tp = tp - total_size lay + off m + offset"
proof -
  have "List.find (\<lambda>x. tls_id x = tls_id m) (mods lay) = Some m"
  proof -
    have "List.find (\<lambda>x. tls_id x = tls_id m) (mods lay) \<noteq> None" using m by (auto simp: find_None_iff)
    then obtain x where x: "List.find (\<lambda>x. tls_id x = tls_id m) (mods lay) = Some x" by blast
    then have "x \<in> set (mods lay)" "tls_id x = tls_id m" by (auto simp: find_Some_iff)
    moreover have "inj_on tls_id (set (mods lay))" using inv by (simp add: lay_inv_def distinct_map)
    ultimately show ?thesis using m x by (auto dest: inj_onD)
  qed
  moreover have b: "off m + memsz m \<le> total_size lay" using inv m by (auto simp: lay_inv_def)
  moreover have "add32 (add32 tp (off m)) offset = tp + off m + offset"
    using b o tp by (simp add: add32_id)
  moreover have "sub32 (tp + off m + offset) (total_size lay) = tp + off m + offset - total_size lay"
    using b o tp by (intro sub32_id) simp_all
  ultimately show ?thesis using tp by (simp add: cact_tls_addr_def)
qed

lemma tls_addr_distinct:
  assumes inv: "lay_inv lay" and m: "m1 \<in> set (mods lay)" "m2 \<in> set (mods lay)"
    and o: "o1 < memsz m1" "o2 < memsz m2" and tp: "total_size lay \<le> tp" "tp < 2147483648"
    and eq: "cact_tls_addr lay (tls_id m1) o1 tp = cact_tls_addr lay (tls_id m2) o2 tp"
  shows "m1 = m2 \<and> o1 = o2"
proof -
  have sum: "off m1 + o1 = off m2 + o2"
    using eq tls_addr_module [OF inv m(1) o(1) tp] tls_addr_module [OF inv m(2) o(2) tp] by simp
  have "m1 = m2"
  proof (rule ccontr)
    assume "m1 \<noteq> m2"
    then have "apart m1 m2" using inv m unfolding lay_inv_def
      by (metis apart_sym in_set_conv_nth sorted_wrt_iff_nth_less linorder_neqE_nat)
    then show False using sum o by (auto simp: apart_def)
  qed
  with sum show ?thesis by simp
qed

section \<open>The contents of a block\<close>

text \<open>The images the modules are initialised from lie outside the block.\<close>

definition image_outside :: "nat \<Rightarrow> nat \<Rightarrow> tls_module \<Rightarrow> bool" where
  "image_outside base tot t \<longleftrightarrow> filesz t \<le> memsz t \<and> off t + memsz t \<le> tot \<and>
     (vaddr t + filesz t \<le> base \<or> base + tot \<le> vaddr t)"

lemma fill_images_outside:
  "\<forall>t \<in> set ts. \<not> (base + off t \<le> a \<and> a < base + off t + filesz t) \<Longrightarrow> \<forall>t \<in> set ts. image_outside base tot t \<Longrightarrow>
   fill_images ts base m a = m a"
proof (induction ts arbitrary: m)
  case (Cons t ts)
  have "memcpy m (base + off t) (vaddr t) (filesz t) = store m (base + off t) (map m [vaddr t..<vaddr t + filesz t])"
    using Cons.prems(2) by (intro memcpy_store) (auto simp: image_outside_def)
  then have "memcpy m (base + off t) (vaddr t) (filesz t) a = m a" using Cons.prems(1) by (auto simp: store_def)
  then show ?case using Cons by simp
qed simp

lemma fill_images_inside:
  assumes "sorted_wrt apart ts" "\<forall>t \<in> set ts. image_outside base tot t" "t \<in> set ts" "i < memsz t"
  shows "fill_images ts base m (base + off t + i) = (if i < filesz t then m (vaddr t + i) else m (base + off t + i))"
  using assms
proof (induction ts arbitrary: m)
  case (Cons u ts)
  define m1 where "m1 = (if filesz u \<noteq> 0 then memcpy m (base + off u) (vaddr u) (filesz u) else m)"
  have u: "image_outside base tot u" "\<forall>t \<in> set ts. image_outside base tot t" using Cons.prems(2) by simp_all
  have "memcpy m (base + off u) (vaddr u) (filesz u) = store m (base + off u) (map m [vaddr u..<vaddr u + filesz u])"
    using u(1) by (intro memcpy_store) (auto simp: image_outside_def)
  then have m': "m1 = store m (base + off u) (map m [vaddr u..<vaddr u + filesz u])" by (simp add: m1_def)
  have run: "fill_images (u # ts) base m = fill_images ts base m1" by (simp add: m1_def)
  show ?case
  proof (cases "t = u")
    case True
    have "fill_images ts base m1 (base + off u + i) = m1 (base + off u + i)"
    proof (rule fill_images_outside [OF _ u(2)])
      show "\<forall>t \<in> set ts. \<not> (base + off t \<le> base + off u + i \<and> base + off u + i < base + off t + filesz t)"
        using Cons.prems(1,4) True u(2) by (fastforce simp: apart_def image_outside_def)
    qed
    then show ?thesis using True unfolding run by (simp add: m' store_def)
  next
    case False
    then have t: "t \<in> set ts" using Cons.prems(3) by simp
    then have ap: "apart u t" "image_outside base tot t" using Cons.prems(1) u(2) by auto
    have "m1 (vaddr t + k) = m (vaddr t + k)" if "k < filesz t" for k
      using ap(2) u(1) that by (auto simp: m' store_def image_outside_def)
    moreover have "m1 (base + off t + i) = m (base + off t + i)"
      using ap u(1) Cons.prems(4) by (auto simp: m' store_def image_outside_def apart_def)
    ultimately show ?thesis using Cons.IH [of m1] Cons.prems t u(2) unfolding run by simp
  qed
qed simp

lemma tls_fill_spec:
  assumes inv: "lay_inv lay" and img: "\<forall>t \<in> set (mods lay). image_outside base (total_size lay) t"
    and fill: "cact_tls_fill base lay m = (m', tcb)"
  shows "tcb = base + total_size lay" "bytes m' tcb (le32 tcb)"
    "\<And>t i. t \<in> set (mods lay) \<Longrightarrow> i < memsz t \<Longrightarrow>
       m' (base + off t + i) = (if i < filesz t then m (vaddr t + i) else NUL)"
proof -
  show tcb: "tcb = base + total_size lay" using fill by (auto simp: cact_tls_fill_def Let_def)
  have m': "m' = store (fill_images (mods lay) base (memset m base 0 (total_size lay))) tcb (le32 tcb)"
    using fill by (auto simp: cact_tls_fill_def Let_def)
  show "bytes m' tcb (le32 tcb)" by (simp add: m')
  fix t i assume t: "t \<in> set (mods lay)" "i < memsz t"
  have io: "image_outside base (total_size lay) t" using img t by blast
  have srt: "sorted_wrt apart (mods lay)" using inv by (simp add: lay_inv_def)
  have "base + off t + i < tcb" using io t(2) by (simp add: tcb image_outside_def)
  then have "m' (base + off t + i) = fill_images (mods lay) base (memset m base 0 (total_size lay)) (base + off t + i)"
    by (simp add: m')
  also have "\<dots> = (if i < filesz t then memset m base 0 (total_size lay) (vaddr t + i)
      else memset m base 0 (total_size lay) (base + off t + i))"
    using srt img t by (rule fill_images_inside)
  also have "\<dots> = (if i < filesz t then m (vaddr t + i) else NUL)"
    using io t(2) by (auto simp: memset_store store_def image_outside_def char_of_zero)
  finally show "m' (base + off t + i) = (if i < filesz t then m (vaddr t + i) else NUL)" .
qed

end
