(* ===== verification/Cact_Mutex.thy ===== *)
theory Cact_Mutex
  imports Cact_Prelude "HOL-Library.Multiset"
begin

text \<open>
  The lock words of the libc under interleaving: the spin lock of the heap (\<open>src/stdlib.c\<close>), the
  futex mutex and \<open>pthread_once\<close> of \<open>src/pthread.c\<close>, and the semaphore of \<open>src/semaphore.c\<close>.
  A state is the shared word and the multiset of the threads' program counters; a step takes one
  thread through one atomic access to the word or one futex call, so every interleaving of the
  threads is a sequence of steps.  The kernel's \<open>FUTEX_WAIT\<close> compares the word and sleeps in one
  step, \<open>FUTEX_WAKE\<close> wakes one sleeper if there is one, and a signal may wake a sleeper.
\<close>

section \<open>The spin lock of the heap\<close>

datatype spin_pc = SOut | SExchange | SSpin | SIn

inductive spin_step :: "bool \<times> spin_pc multiset \<Rightarrow> bool \<times> spin_pc multiset \<Rightarrow> bool" where
  acquire: "spin_step (w, add_mset SOut T) (w, add_mset SExchange T)"
| exchange: "spin_step (w, add_mset SExchange T) (True, add_mset (if w then SSpin else SIn) T)"
| spin: "spin_step (w, add_mset SSpin T) (w, add_mset (if w then SSpin else SExchange) T)"
| release: "spin_step (w, add_mset SIn T) (False, add_mset SOut T)"

inductive spin_reachable :: "bool \<times> spin_pc multiset \<Rightarrow> bool" where
  start: "spin_reachable (False, replicate_mset n SOut)"
| step: "spin_reachable s \<Longrightarrow> spin_step s s' \<Longrightarrow> spin_reachable s'"

lemma spin_step_inv:
  "spin_step s s' \<Longrightarrow> count (snd s) SIn = of_bool (fst s) \<Longrightarrow> count (snd s') SIn = of_bool (fst s')"
  by (induction rule: spin_step.induct) (auto simp: of_bool_def split: if_splits)

lemma spin_reachable_inv: "spin_reachable s \<Longrightarrow> count (snd s) SIn = of_bool (fst s)"
proof (induction rule: spin_reachable.induct)
  case (step s s')
  then show ?case using spin_step_inv by blast
qed simp

section \<open>The mutex\<close>

text \<open>
  The program counter of a thread in \<open>pthread_mutex_lock\<close>, \<open>mutex_lock_slow\<close> and
  \<open>pthread_mutex_unlock\<close> of a normal mutex.  \<open>MCas c\<close>: the word was read as \<open>c\<close>; \<open>MSlow\<close>: about to
  exchange 0 for 2; \<open>MPromote\<close>: the word was seen to be 1, about to exchange 1 for 2; \<open>MWait\<close>:
  about to call \<open>FUTEX_WAIT\<close> for 2; \<open>MHeld\<close>: the lock is held; \<open>MWake old\<close>: the word was set to 0
  and was \<open>old\<close> before.
\<close>

datatype mutex_pc = MOut | MLoad | MCas nat | MSlow | MPromote | MWait | MAsleep | MHeld | MWake nat

type_synonym mutex_state = "nat \<times> mutex_pc multiset"

inductive mutex_step :: "mutex_state \<Rightarrow> mutex_state \<Rightarrow> bool" where
  lock: "mutex_step (w, add_mset MOut T) (w, add_mset MLoad T)"
| load: "mutex_step (w, add_mset MLoad T) (w, add_mset (MCas w) T)"
| fast_no: "c \<noteq> 0 \<or> w \<noteq> 0 \<Longrightarrow> mutex_step (w, add_mset (MCas c) T) (w, add_mset MSlow T)"
| fast_yes: "mutex_step (0, add_mset (MCas 0) T) (1, add_mset MHeld T)"
| slow_yes: "mutex_step (0, add_mset MSlow T) (2, add_mset MHeld T)"
| slow_no: "w \<noteq> 0 \<Longrightarrow>
     mutex_step (w, add_mset MSlow T) (w, add_mset (if w = 1 then MPromote else MWait) T)"
| promote: "mutex_step (w, add_mset MPromote T) (if w = 1 then 2 else w, add_mset MWait T)"
| wait_again: "w \<noteq> 2 \<Longrightarrow> mutex_step (w, add_mset MWait T) (w, add_mset MSlow T)"
| wait_sleep: "mutex_step (2, add_mset MWait T) (2, add_mset MAsleep T)"
| signalled: "mutex_step (w, add_mset MAsleep T) (w, add_mset MSlow T)"
| unlock: "mutex_step (w, add_mset MHeld T) (0, add_mset (MWake w) T)"
| wake_none: "old \<noteq> 2 \<or> MAsleep \<notin># T \<Longrightarrow> mutex_step (w, add_mset (MWake old) T) (w, add_mset MOut T)"
| wake_one: "mutex_step (w, add_mset (MWake 2) (add_mset MAsleep T)) (w, add_mset MOut (add_mset MSlow T))"

inductive mutex_reachable :: "mutex_state \<Rightarrow> bool" where
  start: "mutex_reachable (0, replicate_mset n MOut)"
| step: "mutex_reachable s \<Longrightarrow> mutex_step s s' \<Longrightarrow> mutex_reachable s'"

text \<open>Mutual exclusion: the word is 0, 1 or 2, and it is not 0 exactly when one thread holds the
  lock.  And no sleeper is forgotten: while a thread sleeps, the word says that there are waiters,
  or a thread is about to wake one, or a woken thread is on its way to say so again.\<close>

definition mutex_excl :: "mutex_state \<Rightarrow> bool" where
  "mutex_excl s \<longleftrightarrow> fst s \<le> 2 \<and> count (snd s) MHeld = of_bool (fst s \<noteq> 0)"

definition mutex_awake :: "mutex_state \<Rightarrow> bool" where
  "mutex_awake s \<longleftrightarrow> MAsleep \<notin># snd s \<or> fst s = 2 \<or>
     MWake 2 \<in># snd s \<or> MSlow \<in># snd s \<or> MPromote \<in># snd s \<or> MWait \<in># snd s"

lemma mutex_step_excl: "mutex_step s s' \<Longrightarrow> mutex_excl s \<Longrightarrow> mutex_excl s'"
  by (induction rule: mutex_step.induct) (auto simp: mutex_excl_def of_bool_def split: if_splits)

lemma mutex_step_awake: "mutex_step s s' \<Longrightarrow> mutex_awake s \<Longrightarrow> mutex_awake s'"
  by (induction rule: mutex_step.induct) (auto simp: mutex_awake_def split: if_splits)

lemma mutex_reachable_inv: "mutex_reachable s \<Longrightarrow> mutex_excl s \<and> mutex_awake s"
proof (induction rule: mutex_reachable.induct)
  case (start n)
  then show ?case by (simp add: mutex_excl_def mutex_awake_def)
next
  case (step s s')
  then show ?case by (blast intro: mutex_step_excl mutex_step_awake)
qed

section \<open>The semaphore\<close>

text \<open>
  The threads in \<open>sem_wait\<close> and \<open>sem_timedwait\<close> (\<open>wait = True\<close>) and \<open>sem_trywait\<close>, sharing
  \<open>sem_try_decr\<close>: \<open>DLoad\<close> is about to read the count, \<open>DCas c\<close> has seen \<open>c > 0\<close> and is about to
  exchange it for \<open>c - 1\<close>; \<open>SWait\<close> has seen 0 and is about to sleep; \<open>SWake\<close> has posted and is
  about to wake a sleeper.  The state holds the count, and how often it was posted and taken.
\<close>

datatype sem_pc = SemOut | DLoad bool | DCas bool int | SWait | SAsleep | SWake

type_synonym sem_state = "int \<times> nat \<times> nat \<times> sem_pc multiset"

definition decr_pc :: "bool \<Rightarrow> int \<Rightarrow> sem_pc" where
  "decr_pc wait c = (if c > 0 then DCas wait c else if wait then SWait else SemOut)"

inductive sem_step :: "sem_state \<Rightarrow> sem_state \<Rightarrow> bool" where
  call: "sem_step (c, p, t, add_mset SemOut T) (c, p, t, add_mset (DLoad wait) T)"
| load: "sem_step (c, p, t, add_mset (DLoad wait) T) (c, p, t, add_mset (decr_pc wait c) T)"
| decr: "sem_step (c, p, t, add_mset (DCas wait c) T) (c - 1, p, Suc t, add_mset SemOut T)"
| raced: "c \<noteq> e \<Longrightarrow> sem_step (c, p, t, add_mset (DCas wait e) T) (c, p, t, add_mset (decr_pc wait c) T)"
| timeout: "sem_step (c, p, t, add_mset SWait T) (c, p, t, add_mset SemOut T)"
| again: "c \<noteq> 0 \<Longrightarrow> sem_step (c, p, t, add_mset SWait T) (c, p, t, add_mset (DLoad True) T)"
| asleep: "sem_step (0, p, t, add_mset SWait T) (0, p, t, add_mset SAsleep T)"
| interrupted: "sem_step (c, p, t, add_mset SAsleep T) (c, p, t, add_mset SemOut T)"
| post: "sem_step (c, p, t, add_mset SemOut T) (s32 (c + 1), Suc p, t, add_mset SWake T)"
| wake_none: "SAsleep \<notin># T \<Longrightarrow> sem_step (c, p, t, add_mset SWake T) (c, p, t, add_mset SemOut T)"
| wake_one: "sem_step (c, p, t, add_mset SWake (add_mset SAsleep T))
    (c, p, t, add_mset SemOut (add_mset (DLoad True) T))"

inductive sem_reachable :: "nat \<Rightarrow> sem_state \<Rightarrow> bool" for v where
  start: "sem_reachable v (s32 (int v), 0, 0, replicate_mset n SemOut)"
| step: "sem_reachable v s \<Longrightarrow> sem_step s s' \<Longrightarrow> sem_reachable v s'"

text \<open>The threads that have consumed a wake-up or not yet looked: each of them will take one unit.\<close>

definition takers :: "sem_pc multiset \<Rightarrow> nat" where
  "takers T = size {#x \<in># T. x = SWake \<or> x = DLoad True \<or> (\<exists>c. x = DCas True c)#}"

definition sem_inv :: "nat \<Rightarrow> sem_state \<Rightarrow> bool" where
  "sem_inv v = (\<lambda>(c, p, t, T). c = int v + int p - int t \<and> 0 \<le> c \<and>
     (\<forall>wait e. DCas wait e \<in># T \<longrightarrow> 0 < e) \<and> (SAsleep \<in># T \<longrightarrow> c \<le> int (takers T)))"

definition posted :: "sem_state \<Rightarrow> nat" where
  "posted = (\<lambda>(c, p, t, T). p)"

lemma takers_add [simp]:
  "takers (add_mset SWake T) = Suc (takers T)" "takers (add_mset SemOut T) = takers T"
  "takers (add_mset (DLoad wait) T) = of_bool wait + takers T"
  "takers (add_mset (DCas wait c) T) = of_bool wait + takers T"
  "takers (add_mset SWait T) = takers T" "takers (add_mset SAsleep T) = takers T"
  by (auto simp: takers_def)

lemma sem_step_posted: "sem_step s s' \<Longrightarrow> posted s \<le> posted s'"
  by (induction rule: sem_step.induct) (auto simp: posted_def)

lemma sem_step_inv:
  "sem_step s s' \<Longrightarrow> sem_inv v s \<Longrightarrow> v + posted s' < 2 ^ 31 \<Longrightarrow> sem_inv v s'"
  by (induction rule: sem_step.induct)
    (auto simp: sem_inv_def posted_def decr_pc_def of_bool_def split: if_splits)

lemma sem_reachable_inv: "sem_reachable v s \<Longrightarrow> v + posted s < 2 ^ 31 \<Longrightarrow> sem_inv v s"
proof (induction rule: sem_reachable.induct)
  case (start n)
  then show ?case by (auto simp: sem_inv_def posted_def)
next
  case (step s s')
  then show ?case using sem_step_inv sem_step_posted [of s s'] by auto
qed

section \<open>One-time initialisation\<close>

text \<open>
  \<open>pthread_once\<close>: the control word is 0, 1 while the routine runs and 2 afterwards; the state also
  counts how often the routine was entered.  \<open>OStore\<close> is about to store 2, \<open>OWakeAll\<close> to wake every sleeper,
  \<open>OTest\<close> is at the head of the waiting loop, \<open>OWait\<close> about to sleep on 1.
\<close>

datatype once_pc = OOut | OLoad | OCas | ORun | OStore | OWakeAll | OTest | OWait | OAsleep | ODone

type_synonym once_state = "nat \<times> nat \<times> once_pc multiset"

inductive once_step :: "once_state \<Rightarrow> once_state \<Rightarrow> bool" where
  call: "once_step (w, n, add_mset OOut T) (w, n, add_mset OLoad T)"
| load: "once_step (w, n, add_mset OLoad T) (w, n, add_mset (if w = 2 then ODone else OCas) T)"
| cas: "once_step (w, n, add_mset OCas T)
    (if w = 0 then 1 else w, n, add_mset (if w = 0 then ORun else OTest) T)"
| run: "once_step (w, n, add_mset ORun T) (w, Suc n, add_mset OStore T)"
| store: "once_step (w, n, add_mset OStore T) (2, n, add_mset OWakeAll T)"
| wake: "once_step (w, n, add_mset OWakeAll T)
    (w, n, add_mset ODone (image_mset (\<lambda>x. if x = OAsleep then OTest else x) T))"
| test: "once_step (w, n, add_mset OTest T) (w, n, add_mset (if w = 2 then ODone else OWait) T)"
| wait: "once_step (w, n, add_mset OWait T) (w, n, add_mset (if w = 1 then OAsleep else OTest) T)"
| signalled: "once_step (w, n, add_mset OAsleep T) (w, n, add_mset OTest T)"

inductive once_reachable :: "once_state \<Rightarrow> bool" where
  start: "once_reachable (0, 0, replicate_mset k OOut)"
| step: "once_reachable s \<Longrightarrow> once_step s s' \<Longrightarrow> once_reachable s'"

text \<open>The routine is entered once, a caller that returned finds it finished, and while a caller sleeps the
  thread that will wake it is still under way.\<close>

definition once_inv :: "once_state \<Rightarrow> bool" where
  "once_inv = (\<lambda>(w, n, T).
     count T ORun + count T OStore = of_bool (w = 1) \<and> w \<le> 2 \<and>
     n = of_bool (w = 2) + count T OStore \<and>
     (ODone \<in># T \<or> OWakeAll \<in># T \<longrightarrow> w = 2) \<and>
     (OAsleep \<in># T \<longrightarrow> w = 1 \<or> OWakeAll \<in># T))"

lemma once_step_inv: "once_step s s' \<Longrightarrow> once_inv s \<Longrightarrow> once_inv s'"
  by (induction rule: once_step.induct)
    (auto simp: once_inv_def of_bool_def count_image_mset split: if_splits)

lemma once_reachable_inv: "once_reachable s \<Longrightarrow> once_inv s"
proof (induction rule: once_reachable.induct)
  case (step s s')
  then show ?case using once_step_inv by blast
qed (auto simp: once_inv_def)

end
