(* ===== verification/Cact_Ctype.thy ===== *)
theory Cact_Ctype
  imports Cact_Prelude
begin

text \<open>The character classes of \<open>src/ctype.c\<close>: functions on \<open>int\<close>, as in C.\<close>

definition isalpha :: "int \<Rightarrow> bool" where
  "isalpha c \<longleftrightarrow> c \<ge> 97 \<and> c \<le> 122 \<or> c \<ge> 65 \<and> c \<le> 90"

definition isdigit :: "int \<Rightarrow> bool" where
  "isdigit c \<longleftrightarrow> c \<ge> 48 \<and> c \<le> 57"

definition isalnum :: "int \<Rightarrow> bool" where
  "isalnum c \<longleftrightarrow> isalpha c \<or> isdigit c"

definition iscntrl :: "int \<Rightarrow> bool" where
  "iscntrl c \<longleftrightarrow> c \<ge> 0 \<and> c < 0x20 \<or> c = 0x7F"

definition isgraph :: "int \<Rightarrow> bool" where
  "isgraph c \<longleftrightarrow> c > 0x20 \<and> c < 0x7F"

definition islower :: "int \<Rightarrow> bool" where
  "islower c \<longleftrightarrow> c \<ge> 97 \<and> c \<le> 122"

definition isprint :: "int \<Rightarrow> bool" where
  "isprint c \<longleftrightarrow> c \<ge> 0x20 \<and> c < 0x7F"

definition ispunct :: "int \<Rightarrow> bool" where
  "ispunct c \<longleftrightarrow> isgraph c \<and> \<not> isalnum c"

definition isspace :: "int \<Rightarrow> bool" where
  "isspace c \<longleftrightarrow> c = 32 \<or> c \<ge> 9 \<and> c \<le> 13"

definition isupper :: "int \<Rightarrow> bool" where
  "isupper c \<longleftrightarrow> c \<ge> 65 \<and> c \<le> 90"

definition isxdigit :: "int \<Rightarrow> bool" where
  "isxdigit c \<longleftrightarrow> isdigit c \<or> c \<ge> 97 \<and> c \<le> 102 \<or> c \<ge> 65 \<and> c \<le> 70"

definition tolower :: "int \<Rightarrow> int" where
  "tolower c = (if c \<ge> 65 \<and> c \<le> 90 then c + 32 else c)"

definition toupper :: "int \<Rightarrow> int" where
  "toupper c = (if c \<ge> 97 \<and> c \<le> 122 then c - 32 else c)"

lemmas ctype_defs = isalpha_def isdigit_def isalnum_def iscntrl_def isgraph_def islower_def isprint_def
  ispunct_def isspace_def isupper_def isxdigit_def tolower_def toupper_def

text \<open>Every code from 0 to 127 is a control character, the space, or in exactly one of the classes
  letter, digit and punctuation; the case mappings are inverse to each other on letters.\<close>

lemma ctype_partition:
  "0 \<le> c \<Longrightarrow> c < 128 \<Longrightarrow>
   length (filter (\<lambda>P. P c) [iscntrl, (=) 32, isalpha, isdigit, ispunct]) = 1"
  by (auto simp: ctype_defs)

lemma case_inverse:
  "isalpha c \<Longrightarrow> isupper (toupper c) \<and> islower (tolower c) \<and> tolower (toupper c) = tolower c \<and>
     toupper (tolower c) = toupper c"
  "\<not> isalpha c \<Longrightarrow> tolower c = c \<and> toupper c = c"
  by (auto simp: ctype_defs)

end
