(* ===== verification/Cact_Fnmatch.thy ===== *)
theory Cact_Fnmatch
  imports Cact_Ctype "HOL-Library.Word"
begin

text \<open>
  \<open>src/fnmatch.c\<close>: the shell pattern matcher.  Pattern and string are lists of characters without
  the final NUL; the pointers of the source are the rests of the lists.  The main lemma is that
  the backtracking matcher decides the language of the pattern.
\<close>

unbundle bit_operations_syntax

section \<open>The matcher\<close>

definition FNM_NOMATCH :: int where "FNM_NOMATCH = 1"
definition FNM_PATHNAME :: int where "FNM_PATHNAME = 0x01"
definition FNM_NOESCAPE :: int where "FNM_NOESCAPE = 0x02"
definition FNM_PERIOD :: int where "FNM_PERIOD = 0x04"
definition FNM_LEADING_DIR :: int where "FNM_LEADING_DIR = 0x08"
definition FNM_CASEFOLD :: int where "FNM_CASEFOLD = 0x10"

definition flag :: "int \<Rightarrow> int \<Rightarrow> bool" where
  "flag flags f \<longleftrightarrow> flags AND f \<noteq> 0"

definition lc :: "char \<Rightarrow> int \<Rightarrow> int" where
  "lc c flags = (if flag flags FNM_CASEFOLD then tolower (uchar c) else uchar c)"

definition ch_eq :: "char \<Rightarrow> char \<Rightarrow> int \<Rightarrow> bool" where
  "ch_eq a b flags \<longleftrightarrow> lc a flags = lc b flags"

definition class_match :: "string \<Rightarrow> char \<Rightarrow> bool" where
  "class_match cls c \<longleftrightarrow>
     (let uc = uchar c in
      cls = ''alpha'' \<and> isalpha uc \<or> cls = ''digit'' \<and> isdigit uc \<or> cls = ''alnum'' \<and> isalnum uc \<or>
      cls = ''space'' \<and> isspace uc \<or> cls = ''upper'' \<and> isupper uc \<or> cls = ''lower'' \<and> islower uc \<or>
      cls = ''punct'' \<and> ispunct uc \<or> cls = ''cntrl'' \<and> iscntrl uc \<or> cls = ''print'' \<and> isprint uc \<or>
      cls = ''graph'' \<and> isgraph uc \<or> cls = ''blank'' \<and> (uc = 32 \<or> uc = 9) \<or> cls = ''xdigit'' \<and> isxdigit uc)"

text \<open>The name up to the closing \<open>:]\<close> and what follows it.\<close>

fun find_close :: "string \<Rightarrow> (string \<times> string) option" where
  "find_close [] = None"
| "find_close (x # xs) =
     (if x = CHR '':'' \<and> at xs 0 = CHR '']'' then Some ([], tl xs)
      else map_option (\<lambda>(n, r). (x # n, r)) (find_close xs))"

text \<open>One member of a bracket expression, with the backslash rule.\<close>

definition member_char :: "string \<Rightarrow> int \<Rightarrow> char \<times> string" where
  "member_char p flags =
     (if hd p = CHR 0x5C \<and> \<not> flag flags FNM_NOESCAPE \<and> tl p \<noteq> [] then (hd (tl p), tl (tl p))
      else (hd p, tl p))"

lemma member_char_length: "p \<noteq> [] \<Longrightarrow> member_char p flags = (c, r) \<Longrightarrow> length r < length p"
  by (cases p; cases "tl p") (auto simp: member_char_def split: if_splits)

lemma find_close_length: "find_close p = Some (n, r) \<Longrightarrow> length r + 2 \<le> length p"
  by (induction p arbitrary: n r) (auto split: if_splits simp: at_def length_greater_0_conv [symmetric] simp del: length_greater_0_conv)

text \<open>One turn of the loop of \<open>match_bracket\<close>: the test that the member at the front stands for, and the
  rest; \<open>None\<close> when a class name is not closed.\<close>

definition bracket_member :: "string \<Rightarrow> int \<Rightarrow> ((char \<Rightarrow> bool) \<times> string) option" where
  "bracket_member p flags =
     (if at p 0 = CHR ''['' \<and> at p 1 = CHR '':'' then
        map_option (\<lambda>(cls, r). (class_match cls, r)) (find_close (drop 2 p))
      else
        (let (lo, p1) = member_char p flags in
         if at p1 0 = CHR ''-'' \<and> at p1 1 \<noteq> CHR '']'' \<and> at p1 1 \<noteq> NUL then
           (let (hi, p2) = member_char (tl p1) flags in
            Some (\<lambda>c. lc lo flags \<le> lc c flags \<and> lc c flags \<le> lc hi flags, p2))
         else Some (\<lambda>c. ch_eq lo c flags, p1)))"

lemma bracket_member_length:
  assumes "p \<noteq> []" "bracket_member p flags = Some (P, r)"
  shows "length r < length p"
proof (cases "at p 0 = CHR ''['' \<and> at p 1 = CHR '':''")
  case True
  then show ?thesis using assms find_close_length [of "drop 2 p"] by (fastforce simp: bracket_member_def)
next
  case False
  obtain lo p1 where p1: "member_char p flags = (lo, p1)" by force
  obtain hi p2 where p2: "member_char (tl p1) flags = (hi, p2)" by force
  have "length p1 < length p" using member_char_length [OF assms(1) p1] .
  moreover have "length p2 < length p1" if "at p1 0 = CHR ''-''" "at p1 1 \<noteq> NUL"
  proof -
    have "tl p1 \<noteq> []" using that by (cases p1) (auto simp: at_def)
    then show ?thesis using member_char_length [OF _ p2] by fastforce
  qed
  ultimately show ?thesis using assms(2) False p1 p2 by (auto simp: bracket_member_def split: if_splits)
qed

text \<open>The loop: \<open>None\<close> when the expression is not closed.\<close>

function bracket_loop :: "string \<Rightarrow> char \<Rightarrow> int \<Rightarrow> bool \<Rightarrow> bool \<Rightarrow> (bool \<times> string) option" where
  "bracket_loop p c flags fst_pos matched =
     (if p = [] then None
      else if hd p = CHR '']'' \<and> \<not> fst_pos then Some (matched, tl p)
      else case bracket_member p flags of
        None \<Rightarrow> None
      | Some (P, r) \<Rightarrow> bracket_loop r c flags False (matched \<or> P c))"
  by pat_completeness auto
termination
  by (relation "measure (\<lambda>(p, _). length p)") (auto dest: bracket_member_length)

declare bracket_loop.simps [simp del]

definition match_bracket :: "string \<Rightarrow> char \<Rightarrow> int \<Rightarrow> (bool \<times> string) option" where
  "match_bracket p c flags =
     (let negate = at p 0 = CHR ''!'' \<or> at p 0 = CHR ''^'' in
      map_option (\<lambda>(m, r). (if negate then \<not> m else m, r))
        (bracket_loop (if negate then tl p else p) c flags True False))"

lemma bracket_loop_length:
  "bracket_loop p c flags f m = Some (b, r) \<Longrightarrow> length r < length p"
proof (induction p c flags f m arbitrary: b r rule: bracket_loop.induct)
  case (1 p c flags f m)
  show ?case
  proof (cases "p = [] \<or> hd p = CHR '']'' \<and> \<not> f")
    case True
    then show ?thesis using "1.prems" by (subst (asm) bracket_loop.simps) (cases p; auto)
  next
    case False
    then obtain P q where q: "bracket_member p flags = Some (P, q)" "bracket_loop q c flags False (m \<or> P c) = Some (b, r)"
      using "1.prems" by (subst (asm) bracket_loop.simps) (auto split: option.splits)
    then have "length r < length q" using "1.IH" False by auto
    then show ?thesis using bracket_member_length [OF _ q(1)] False by auto
  qed
qed

lemma match_bracket_length:
  assumes "match_bracket p c flags = Some (b, r)"
  shows "length r < length p"
proof -
  let ?q = "if at p 0 = CHR ''!'' \<or> at p 0 = CHR ''^'' then tl p else p"
  obtain m where "bracket_loop ?q c flags True False = Some (m, r)"
    using assms by (auto simp: match_bracket_def Let_def)
  then have "length r < length ?q" by (rule bracket_loop_length)
  then show ?thesis by (cases p) (auto split: if_splits)
qed

text \<open>The body of the matcher.  \<open>fnm_loop\<close> is the loop over the pattern with the variable
  \<open>period_ok\<close>, \<open>fnm_star\<close> the loop of the case \<open>*\<close>, which calls \<open>fnmatch_inner\<close> afresh.\<close>

function (sequential) fnm_loop :: "int \<Rightarrow> bool \<Rightarrow> string \<Rightarrow> string \<Rightarrow> bool"
  and fnm_star :: "int \<Rightarrow> string \<Rightarrow> string \<Rightarrow> bool" where
  "fnm_loop flags period_ok [] s \<longleftrightarrow> s = [] \<or> flag flags FNM_LEADING_DIR \<and> at s 0 = CHR ''/''"
| "fnm_loop flags period_ok (x # p) s \<longleftrightarrow>
     (if x = CHR ''?'' then
        s \<noteq> [] \<and> period_ok \<and> \<not> (flag flags FNM_PATHNAME \<and> at s 0 = CHR ''/'') \<and> fnm_loop flags True p (tl s)
      else if x = CHR ''*'' then
        period_ok \<and> fnm_star flags (dropWhile ((=) CHR ''*'') p) s
      else if x = CHR ''['' then
        s \<noteq> [] \<and> period_ok \<and> \<not> (flag flags FNM_PATHNAME \<and> at s 0 = CHR ''/'') \<and>
        (case match_bracket p (at s 0) flags of
           Some (hit, r) \<Rightarrow> hit \<and> fnm_loop flags True r (tl s)
         | None \<Rightarrow> False)
      else
        (let (pc, r) = member_char (x # p) flags in
         ch_eq pc (at s 0) flags \<and>
         fnm_loop flags (\<not> (flag flags FNM_PERIOD \<and> pc = CHR ''/'' \<and> at (tl s) 0 = CHR ''.'')) r (tl s)))"
| "fnm_star flags p s \<longleftrightarrow>
     (if fnm_loop flags (\<not> (flag flags FNM_PERIOD \<and> at s 0 = CHR ''.'')) p s then True
      else if s = [] then False
      else if flag flags FNM_PATHNAME \<and> at s 0 = CHR ''/'' then False
      else fnm_star flags p (tl s))"
  by pat_completeness auto
termination
proof (relation "measures [\<lambda>x. case x of Inl (_, _, p, _) \<Rightarrow> length p | Inr (_, p, _) \<Rightarrow> length p,
    \<lambda>x. case x of Inl (_, _, _, s) \<Rightarrow> length s | Inr (_, _, s) \<Rightarrow> length s,
    \<lambda>x. case x of Inl _ \<Rightarrow> 0 | Inr _ \<Rightarrow> 1]", goal_cases)
  case (3 flags period_ok x p s)
  then show ?case using length_dropWhile_le [of "(=) CHR ''*''" p] by (auto simp: less_Suc_eq_le)
next
  case (4 flags period_ok x p s a hit r)
  then show ?case using match_bracket_length [of p "at s 0" flags hit r] by auto
next
  case (5 flags period_ok x p s z pc r)
  then show ?case using member_char_length [of "x # p" flags pc r] by auto
qed auto

declare fnm_loop.simps [simp del] fnm_star.simps [simp del]

definition fnmatch_inner :: "string \<Rightarrow> string \<Rightarrow> int \<Rightarrow> bool" where
  "fnmatch_inner p s flags = fnm_loop flags (\<not> (flag flags FNM_PERIOD \<and> at s 0 = CHR ''.'')) p s"

definition fnmatch :: "string option \<Rightarrow> string option \<Rightarrow> int \<Rightarrow> int" where
  "fnmatch pattern str flags = (case (pattern, str) of
     (Some p, Some s) \<Rightarrow> if fnmatch_inner p s flags then 0 else FNM_NOMATCH
   | _ \<Rightarrow> FNM_NOMATCH)"

section \<open>The language of a pattern\<close>

text \<open>A pattern is a sequence of tests on one character and of stars over such a test.\<close>

datatype tok = One "char \<Rightarrow> bool" | Many "char \<Rightarrow> bool"

definition wild :: "int \<Rightarrow> char \<Rightarrow> bool" where
  "wild flags c \<longleftrightarrow> \<not> (flag flags FNM_PATHNAME \<and> c = CHR ''/'')"

definition bracket_rest :: "string \<Rightarrow> int \<Rightarrow> string option" where
  "bracket_rest p flags = map_option snd (match_bracket p NUL flags)"

definition in_bracket :: "string \<Rightarrow> int \<Rightarrow> char \<Rightarrow> bool" where
  "in_bracket p flags c = (case match_bracket p c flags of Some (hit, r) \<Rightarrow> hit | None \<Rightarrow> False)"

function (sequential) toks :: "int \<Rightarrow> string \<Rightarrow> tok list" where
  "toks flags [] = []"
| "toks flags (x # p) =
     (if x = CHR ''?'' then One (wild flags) # toks flags p
      else if x = CHR ''*'' then Many (wild flags) # toks flags p
      else if x = CHR ''['' then
        (case bracket_rest p flags of
           None \<Rightarrow> [One (\<lambda>_. False)]
         | Some r \<Rightarrow> One (\<lambda>c. wild flags c \<and> in_bracket p flags c) # toks flags r)
      else let (pc, r) = member_char (x # p) flags in One (\<lambda>c. ch_eq pc c flags) # toks flags r)"
  by pat_completeness auto
termination
proof (relation "measure (\<lambda>(_, p). length p)", goal_cases)
  case (4 flags x p r)
  then show ?case by (auto simp: bracket_rest_def dest: match_bracket_length)
next
  case (5 flags x p z pc r)
  then show ?case using member_char_length [of "x # p" flags pc r] by auto
qed auto

declare toks.simps [simp del]

inductive lang :: "tok list \<Rightarrow> string \<Rightarrow> bool" where
  empty: "lang [] []"
| one: "P c \<Longrightarrow> lang ts s \<Longrightarrow> lang (One P # ts) (c # s)"
| many_none: "lang ts s \<Longrightarrow> lang (Many P # ts) s"
| many_more: "P c \<Longrightarrow> lang (Many P # ts) s \<Longrightarrow> lang (Many P # ts) (c # s)"

inductive_cases lang_OneE: "lang (One P # ts) s"
inductive_cases lang_ManyE: "lang (Many P # ts) s"

inductive_simps lang_Nil [simp]: "lang [] s"

lemma lang_One: "lang (One P # ts) s \<longleftrightarrow> s \<noteq> [] \<and> P (hd s) \<and> lang ts (tl s)"
  by (cases s) (auto intro: lang.intros elim: lang_OneE)

lemma lang_Many: "lang (Many P # ts) s \<longleftrightarrow> lang ts s \<or> s \<noteq> [] \<and> P (hd s) \<and> lang (Many P # ts) (tl s)"
  by (cases s) (auto intro: lang.intros elim: lang_ManyE)

lemma lang_Many_Many: "lang (Many P # Many P # ts) s \<longleftrightarrow> lang (Many P # ts) s"
proof
  show "lang (Many P # Many P # ts) s \<Longrightarrow> lang (Many P # ts) s"
    by (induction "Many P # Many P # ts" s rule: lang.induct) (auto intro: lang.intros)
qed (rule lang.many_none)

text \<open>Where the string may end.\<close>

definition ends_well :: "int \<Rightarrow> string \<Rightarrow> bool" where
  "ends_well flags s \<longleftrightarrow> s = [] \<or> flag flags FNM_LEADING_DIR \<and> at s 0 = CHR ''/''"

definition accepts :: "int \<Rightarrow> tok list \<Rightarrow> string \<Rightarrow> bool" where
  "accepts flags ts s \<longleftrightarrow> (\<exists>s1 s2. s = s1 @ s2 \<and> lang ts s1 \<and> ends_well flags s2)"

lemma accepts_Nil: "accepts flags [] s \<longleftrightarrow> ends_well flags s"
  by (simp add: accepts_def)

lemma accepts_One: "accepts flags (One P # ts) s \<longleftrightarrow> s \<noteq> [] \<and> P (hd s) \<and> accepts flags ts (tl s)"
proof
  assume "accepts flags (One P # ts) s"
  then obtain s1 s2 where s: "s = s1 @ s2" "s1 \<noteq> []" "P (hd s1)" "lang ts (tl s1)" "ends_well flags s2"
    by (auto simp: accepts_def lang_One)
  then have "hd s = hd s1" "tl s = tl s1 @ s2" by simp_all
  then show "s \<noteq> [] \<and> P (hd s) \<and> accepts flags ts (tl s)" using s unfolding accepts_def by auto
next
  assume *: "s \<noteq> [] \<and> P (hd s) \<and> accepts flags ts (tl s)"
  then obtain s1 s2 where s: "tl s = s1 @ s2" "lang ts s1" "ends_well flags s2" by (auto simp: accepts_def)
  then have "s = (hd s # s1) @ s2" "lang (One P # ts) (hd s # s1)" using * by (auto simp: lang_One) (metis list.collapse)
  then show "accepts flags (One P # ts) s" using s(3) unfolding accepts_def by blast
qed

lemma accepts_Many:
  "accepts flags (Many P # ts) s \<longleftrightarrow>
     accepts flags ts s \<or> s \<noteq> [] \<and> P (hd s) \<and> accepts flags (Many P # ts) (tl s)"
proof
  assume "accepts flags (Many P # ts) s"
  then obtain s1 s2 where s: "s = s1 @ s2" "lang (Many P # ts) s1" "ends_well flags s2" by (auto simp: accepts_def)
  from s(2) consider "lang ts s1" | "s1 \<noteq> []" "P (hd s1)" "lang (Many P # ts) (tl s1)" by (subst (asm) lang_Many) auto
  then show "accepts flags ts s \<or> s \<noteq> [] \<and> P (hd s) \<and> accepts flags (Many P # ts) (tl s)"
  proof cases
    case 2
    then have "hd s = hd s1" "tl s = tl s1 @ s2" using s(1) by simp_all
    then show ?thesis using 2 s unfolding accepts_def by auto
  qed (use s in \<open>auto simp: accepts_def\<close>)
next
  assume "accepts flags ts s \<or> s \<noteq> [] \<and> P (hd s) \<and> accepts flags (Many P # ts) (tl s)"
  then show "accepts flags (Many P # ts) s"
  proof
    assume *: "s \<noteq> [] \<and> P (hd s) \<and> accepts flags (Many P # ts) (tl s)"
    then obtain s1 s2 where s: "tl s = s1 @ s2" "lang (Many P # ts) s1" "ends_well flags s2" by (auto simp: accepts_def)
    then have "s = (hd s # s1) @ s2" "lang (Many P # ts) (hd s # s1)"
      using * by (auto intro: lang.many_more) (metis list.collapse)
    then show ?thesis using s(3) unfolding accepts_def by blast
  qed (auto simp: accepts_def intro: lang.many_none)
qed

lemma toks_stars:
  "lang (Many (wild flags) # toks flags (dropWhile ((=) CHR ''*'') p)) s \<longleftrightarrow> lang (Many (wild flags) # toks flags p) s"
proof (induction p arbitrary: s)
  case (Cons x p)
  then show ?case by (cases "x = CHR ''*''") (auto simp: toks.simps lang_Many_Many)
qed simp

lemma bracket_rest_same:
  "map_option snd (bracket_loop p c flags f m) = map_option snd (bracket_loop p d flags f m')"
proof (induction p c flags f m arbitrary: m' rule: bracket_loop.induct)
  case (1 p c flags f m)
  show ?case
  proof (cases "p = [] \<or> hd p = CHR '']'' \<and> \<not> f \<or> bracket_member p flags = None")
    case True
    then show ?thesis by (subst (1 2) bracket_loop.simps) auto
  next
    case False
    then obtain P q where q: "bracket_member p flags = Some (P, q)" by auto
    have "map_option snd (bracket_loop q c flags False (m \<or> P c)) =
        map_option snd (bracket_loop q d flags False (m' \<or> P d))"
      using "1.IH" [of "(P, q)" P q] False q by auto
    then show ?thesis using False q by (subst (1 2) bracket_loop.simps) auto
  qed
qed

lemma match_bracket_rest: "map_option snd (match_bracket p c flags) = bracket_rest p flags"
  using bracket_rest_same [of _ c flags True False NUL False]
  by (simp add: bracket_rest_def match_bracket_def Let_def option.map_comp comp_def case_prod_unfold)

lemma lc_NUL: "c \<noteq> NUL \<Longrightarrow> \<not> ch_eq c NUL flags"
  using uchar_bounds [of c] uchar_eq_0 [of c] unfolding ch_eq_def lc_def tolower_def uchar_NUL by (auto simp del: uchar_eq_0)

lemma member_char_set: "p \<noteq> [] \<Longrightarrow> member_char p flags = (c, r) \<Longrightarrow> c \<in> set p \<and> set r \<subseteq> set p"
  by (cases p; cases "tl p") (auto simp: member_char_def split: if_splits)

lemma set_tl: "x \<in> set (tl xs) \<Longrightarrow> x \<in> set xs"
  by (cases xs) auto

lemma find_close_set: "find_close p = Some (n, r) \<Longrightarrow> set r \<subseteq> set p"
proof (induction p arbitrary: n r)
  case (Cons x p)
  then show ?case by (fastforce split: if_splits dest: set_tl)
qed simp

lemma bracket_member_set:
  assumes "p \<noteq> []" "bracket_member p flags = Some (P, r)"
  shows "set r \<subseteq> set p"
proof (cases "at p 0 = CHR ''['' \<and> at p 1 = CHR '':''")
  case True
  then show ?thesis using assms find_close_set [of "drop 2 p" _ r] set_drop_subset [of 2 p]
    by (fastforce simp: bracket_member_def)
next
  case False
  obtain lo p1 where p1: "member_char p flags = (lo, p1)" by force
  obtain hi p2 where p2: "member_char (tl p1) flags = (hi, p2)" by force
  have s1: "set p1 \<subseteq> set p" using member_char_set [OF assms(1) p1] by blast
  have s2: "set p2 \<subseteq> set p" if "at p1 0 = CHR ''-''" "at p1 1 \<noteq> NUL"
  proof -
    have "tl p1 \<noteq> []" using that by (cases p1) (auto simp: at_def)
    then show ?thesis using member_char_set [OF _ p2] s1 by (meson set_tl subset_iff)
  qed
  show ?thesis using assms(2) False p1 p2 s1 s2 by (auto simp: bracket_member_def split: if_splits)
qed

lemma bracket_loop_set: "bracket_loop p c flags f m = Some (b, r) \<Longrightarrow> set r \<subseteq> set p"
proof (induction p c flags f m arbitrary: b r rule: bracket_loop.induct)
  case (1 p c flags f m)
  show ?case
  proof (cases "p = [] \<or> hd p = CHR '']'' \<and> \<not> f")
    case True
    then show ?thesis using "1.prems" by (subst (asm) bracket_loop.simps) (cases p; auto)
  next
    case False
    then obtain P q where q: "bracket_member p flags = Some (P, q)" "bracket_loop q c flags False (m \<or> P c) = Some (b, r)"
      using "1.prems" by (subst (asm) bracket_loop.simps) (auto split: option.splits)
    then have "set r \<subseteq> set q" using "1.IH" False by auto
    then show ?thesis using bracket_member_set [OF _ q(1)] False by auto
  qed
qed

lemma bracket_rest_set: "bracket_rest p flags = Some r \<Longrightarrow> set r \<subseteq> set p"
  unfolding bracket_rest_def match_bracket_def Let_def
  by (auto split: if_splits dest!: bracket_loop_set dest: set_tl)

text \<open>The matcher decides the language, for every combination of the flags other than \<open>FNM_PERIOD\<close>.\<close>

lemma fnm_lang:
  "\<not> flag flags FNM_PERIOD \<Longrightarrow> NUL \<notin> set p \<Longrightarrow>
     period_ok \<Longrightarrow> fnm_loop flags period_ok p s \<longleftrightarrow> accepts flags (toks flags p) s"
  "\<not> flag flags FNM_PERIOD \<Longrightarrow> NUL \<notin> set p \<Longrightarrow>
     fnm_star flags p s \<longleftrightarrow> accepts flags (Many (wild flags) # toks flags p) s"
proof (induction flags period_ok p s and flags p s rule: fnm_loop_fnm_star.induct)
  case (1 flags period_ok s)
  then show ?case by (simp add: fnm_loop.simps toks.simps accepts_Nil ends_well_def)
next
  case (2 flags period_ok x p s)
  have at0: "s \<noteq> [] \<Longrightarrow> at s 0 = hd s" by (cases s) auto
  consider "x = CHR ''?''" | "x = CHR ''*''" | "x = CHR ''[''"
    | "x \<noteq> CHR ''?''" "x \<noteq> CHR ''*''" "x \<noteq> CHR ''[''" by blast
  then show ?case
  proof cases
    case 1
    then show ?thesis using 2 at0 by (auto simp: fnm_loop.simps toks.simps accepts_One wild_def)
  next
    case c2: 2
    have "accepts flags (Many (wild flags) # toks flags (dropWhile ((=) CHR ''*'') p)) s \<longleftrightarrow>
        accepts flags (Many (wild flags) # toks flags p) s"
      unfolding accepts_def toks_stars ..
    moreover have "NUL \<notin> set (dropWhile ((=) CHR ''*'') p)" using "2.prems"(2) by (auto dest: set_dropWhileD)
    ultimately show ?thesis using 2 c2 by (simp add: fnm_loop.simps toks.simps)
  next
    case 3
    show ?thesis
    proof (cases "bracket_rest p flags")
      case None
      then have "match_bracket p c flags = None" for c using match_bracket_rest [of p c flags] by simp
      then show ?thesis using 3 None by (simp add: fnm_loop.simps toks.simps accepts_One)
    next
      case (Some r)
      then obtain hit where hit: "match_bracket p (at s 0) flags = Some (hit, r)"
        using match_bracket_rest [of p "at s 0" flags] by auto
      have "NUL \<notin> set r" using bracket_rest_set [OF Some] "2.prems"(2) by auto
      then show ?thesis using 2 3 Some hit at0
        by (auto simp: fnm_loop.simps toks.simps accepts_One wild_def in_bracket_def)
    qed
  next
    case 4
    obtain pc r where m: "member_char (x # p) flags = (pc, r)" by force
    have pc: "pc \<noteq> NUL" "NUL \<notin> set r" using member_char_set [OF _ m] "2.prems"(2) by auto
    have "ch_eq pc (at s 0) flags \<longleftrightarrow> s \<noteq> [] \<and> ch_eq pc (hd s) flags"
      using lc_NUL [OF pc(1)] at0 by (cases "s = []") auto
    then show ?thesis using 2 4 m pc by (auto simp: fnm_loop.simps toks.simps accepts_One)
  qed
next
  case (3 flags p s)
  have at0: "s \<noteq> [] \<Longrightarrow> at s 0 = hd s" by (cases s) auto
  have w: "wild flags (hd s) \<longleftrightarrow> \<not> (flag flags FNM_PATHNAME \<and> hd s = CHR ''/'')" by (simp add: wild_def)
  show ?case using 3 at0 w by (subst fnm_star.simps, subst accepts_Many) auto
qed

lemma fnmatch_inner_lang:
  "\<not> flag flags FNM_PERIOD \<Longrightarrow> NUL \<notin> set p \<Longrightarrow>
   fnmatch_inner p s flags \<longleftrightarrow> accepts flags (toks flags p) s"
  unfolding fnmatch_inner_def by (simp add: fnm_lang)

text \<open>\<open>FNM_PERIOD\<close> restarts at every split of a star: a period that does not lead a component is
  refused too.\<close>

lemma period_after_star:
  "fnmatch (Some ''*[.]c'') (Some ''a.c'') FNM_PERIOD = FNM_NOMATCH"
  "fnmatch (Some ''*[.]c'') (Some ''a.c'') 0 = 0"
  by code_simp+

end
