(* ===== verification/Cact_Getopt.thy ===== *)
theory Cact_Getopt
  imports Cact_Prelude "HOL-Library.Multiset"
begin

text \<open>
  \<open>src/getopt.c\<close>: the scanner behind \<open>getopt\<close>, \<open>getopt_long\<close> and \<open>getopt_long_only\<close>, with the
  permutation of operands behind the options.  The arguments are a list of strings that the scanner
  permutes; \<open>nextchar\<close> and \<open>optarg\<close>, pointers into an argument, are the rest of the argument they
  point at (\<open>None\<close> is the null pointer).  What is written to standard error is collected in
  \<open>messages\<close>.
\<close>

section \<open>State\<close>

record option_desc =
  opt_name :: string
  has_arg :: int
  opt_flag :: "nat option"
  opt_val :: int

definition no_argument :: int where "no_argument = 0"
definition required_argument :: int where "required_argument = 1"

record getopt_state =
  argv :: "string list"
  optarg :: "string option"
  optind :: nat
  opterr :: bool
  optopt :: int
  nextchar :: "string option"
  first_nonopt :: nat
  last_nonopt :: nat
  longindex :: "nat option"
  flag_vars :: "nat \<Rightarrow> int"
  messages :: "string list"

section \<open>Permuting the arguments\<close>

fun swap_args :: "string list \<Rightarrow> nat \<Rightarrow> nat \<Rightarrow> nat \<Rightarrow> string list" where
  "swap_args as a b 0 = as"
| "swap_args as a b (Suc n) = swap_args (as[a := as ! b, b := as ! a]) (Suc a) (Suc b) n"

function exchange_loop :: "string list \<Rightarrow> nat \<Rightarrow> nat \<Rightarrow> nat \<Rightarrow> string list" where
  "exchange_loop as bottom middle upper =
     (if upper > middle \<and> middle > bottom then
        if upper - middle > middle - bottom then
          let len = middle - bottom
          in exchange_loop (swap_args as bottom (upper - len) len) bottom middle (upper - len)
        else
          let len = upper - middle
          in exchange_loop (swap_args as bottom middle len) (bottom + len) middle upper
      else as)"
  by pat_completeness auto
termination
  by (relation "measure (\<lambda>(as, bottom, middle, upper). upper - bottom)") auto

declare exchange_loop.simps [simp del]

definition exchange :: "getopt_state \<Rightarrow> getopt_state" where
  "exchange s = s\<lparr>argv := exchange_loop (argv s) (first_nonopt s) (last_nonopt s) (optind s),
     first_nonopt := first_nonopt s + (optind s - last_nonopt s), last_nonopt := optind s\<rparr>"

section \<open>Messages\<close>

definition opterr_msg_short :: "int \<Rightarrow> getopt_state \<Rightarrow> getopt_state" where
  "opterr_msg_short c s =
     s\<lparr>messages := messages s @ [''invalid option -- '' @ [CHR 0x27, char_of c, CHR 0x27, CHR 0x0A]]\<rparr>"

definition opterr_msg_long :: "string \<Rightarrow> string \<Rightarrow> getopt_state \<Rightarrow> getopt_state" where
  "opterr_msg_long body lead s =
     s\<lparr>messages := messages s @ [take 188 (lead @ [CHR 0x27] @ body) @ [CHR 0x27, CHR 0x0A]]\<rparr>"

section \<open>Long options\<close>

definition LONG_NONE :: int where "LONG_NONE = -2"
definition LONG_ERR :: int where "LONG_ERR = -3"

fun long_match_loop :: "string \<Rightarrow> option_desc list \<Rightarrow> nat \<Rightarrow> int \<Rightarrow> nat \<Rightarrow> int" where
  "long_match_loop name [] i found cnt = (if cnt = 1 then found else if cnt > 1 then LONG_ERR else -1)"
| "long_match_loop name (d # ds) i found cnt =
     (if opt_name d = name then int i
      else if take (length name) (opt_name d) = name then long_match_loop name ds (Suc i) (int i) (Suc cnt)
      else long_match_loop name ds (Suc i) found cnt)"

definition long_match :: "string \<Rightarrow> option_desc list \<Rightarrow> int" where
  "long_match name lo = long_match_loop name lo 0 (-1) 0"

definition complain :: "bool \<Rightarrow> string \<Rightarrow> string \<Rightarrow> getopt_state \<Rightarrow> getopt_state" where
  "complain on body lead s = (if on then opterr_msg_long body lead s else s)"

definition do_long ::
  "string \<Rightarrow> bool \<Rightarrow> string \<Rightarrow> option_desc list \<Rightarrow> bool \<Rightarrow> bool \<Rightarrow> getopt_state \<Rightarrow> getopt_state \<times> int" where
  "do_long body double_dash optstring lo want_index long_only s =
     (let name = takeWhile (\<lambda>c. c \<noteq> CHR ''='') body;
          eq = CHR ''='' \<in> set body;
          nlen = length name;
          argc = length (argv s)
      in if nlen = 0 \<or> nlen \<ge> 128 then (s, LONG_NONE)
         else let idx = long_match name lo in
         if idx = LONG_ERR then
           ((complain (opterr s) body ''ambiguous option '' s)\<lparr>optind := optind s + 1\<rparr>, LONG_ERR)
         else if idx < 0 then
           (if long_only \<and> \<not> double_dash then (s, LONG_NONE)
            else ((complain (opterr s) body ''unrecognized option '' s)\<lparr>optopt := 0, optind := optind s + 1\<rparr>, LONG_ERR))
         else let d = lo ! nat idx in
           if has_arg d = no_argument \<and> eq then
             ((complain (opterr s) body (''option doesn'' @ [CHR 0x27] @ ''t allow an argument '') s)\<lparr>optind := optind s + 1\<rparr>, LONG_ERR)
           else if has_arg d = required_argument \<and> \<not> eq \<and> optind s + 1 \<ge> argc then
             ((complain (opterr s \<and> at optstring 0 \<noteq> CHR '':'') body ''option requires an argument '' s)\<lparr>optind := optind s + 1\<rparr>,
              if at optstring 0 = CHR '':'' then 58 else LONG_ERR)
           else
             let takes_next = has_arg d = required_argument \<and> \<not> eq;
                 ind = (if takes_next then optind s + 1 else optind s);
                 arg = (if has_arg d = no_argument then None
                        else if eq then Some (drop (nlen + 1) body)
                        else if takes_next then Some (argv s ! ind) else None);
                 s1 = s\<lparr>optind := ind + 1, optarg := arg, longindex := (if want_index then Some (nat idx) else longindex s)\<rparr>
             in case opt_flag d of
                  Some f \<Rightarrow> (s1\<lparr>flag_vars := (flag_vars s1)(f := opt_val d)\<rparr>, 0)
                | None \<Rightarrow> (s1, opt_val d))"

section \<open>The scanner\<close>

text \<open>An argument that is an operand: no dash in front, or a dash alone.\<close>

definition operand :: "string \<Rightarrow> bool" where
  "operand a \<longleftrightarrow> at a 0 \<noteq> CHR ''-'' \<or> at a 1 = NUL"

definition permute_args :: "getopt_state \<Rightarrow> getopt_state" where
  "permute_args s0 =
     (let s1 = (if last_nonopt s0 > optind s0 then s0\<lparr>last_nonopt := optind s0\<rparr> else s0);
          s = (if first_nonopt s1 > optind s1 then s1\<lparr>first_nonopt := optind s1\<rparr> else s1)
      in if first_nonopt s \<noteq> last_nonopt s \<and> last_nonopt s \<noteq> optind s then exchange s
         else if last_nonopt s \<noteq> optind s then s\<lparr>first_nonopt := optind s\<rparr>
         else s)"

definition skip_operands :: "getopt_state \<Rightarrow> getopt_state" where
  "skip_operands s =
     (let i = optind s + length (takeWhile operand (drop (optind s) (argv s)))
      in s\<lparr>optind := i, last_nonopt := i\<rparr>)"

definition end_of_options :: "getopt_state \<Rightarrow> getopt_state" where
  "end_of_options s =
     (if optind s < length (argv s) \<and> argv s ! optind s = ''--'' then
        let s1 = s\<lparr>optind := optind s + 1\<rparr>;
            s2 = (if first_nonopt s1 \<noteq> last_nonopt s1 \<and> last_nonopt s1 \<noteq> optind s1 then exchange s1
                  else if first_nonopt s1 = last_nonopt s1 then s1\<lparr>first_nonopt := optind s1\<rparr> else s1)
        in s2\<lparr>last_nonopt := length (argv s2), optind := length (argv s2)\<rparr>
      else s)"

text \<open>The short options: \<open>cs\<close> is what \<open>nextchar\<close> points at, not empty.\<close>

definition short_option :: "string \<Rightarrow> string \<Rightarrow> getopt_state \<Rightarrow> getopt_state \<times> int" where
  "short_option optstring cs s =
     (let c = uchar (hd cs); rest = tl cs;
          p = dropWhile (\<lambda>x. x \<noteq> hd cs) optstring;
          quiet = at optstring 0 = CHR '':''
      in if p = [] then
           let s1 = s\<lparr>optopt := c\<rparr>;
               s2 = (if rest = [] then s1\<lparr>nextchar := None, optind := optind s + 1\<rparr> else s1\<lparr>nextchar := Some rest\<rparr>)
           in (if opterr s \<and> \<not> quiet then opterr_msg_short c s2 else s2, 63)
         else if at p 1 = CHR '':'' then
           if rest \<noteq> [] then (s\<lparr>optarg := Some rest, nextchar := None, optind := optind s + 1\<rparr>, c)
           else if optind s + 1 < length (argv s) then
             (s\<lparr>optarg := Some (argv s ! (optind s + 1)), nextchar := None, optind := optind s + 2\<rparr>, c)
           else
             let s1 = s\<lparr>optopt := c, nextchar := None, optind := optind s + 1\<rparr>
             in (if opterr s \<and> \<not> quiet then opterr_msg_short c s1 else s1, if quiet then 58 else 63)
         else
           (if rest = [] then s\<lparr>optarg := None, nextchar := None, optind := optind s + 1\<rparr>
            else s\<lparr>optarg := None, nextchar := Some rest\<rparr>, c))"

definition restart :: "getopt_state \<Rightarrow> getopt_state" where
  "restart s = (if optind s = 0 then s\<lparr>optind := 1, nextchar := None, first_nonopt := 1, last_nonopt := 1\<rparr> else s)"

text \<open>The next argument is fetched: the state with \<open>nextchar\<close> at a new cluster, or the result.  A dash alone
  never gets here, so the cluster is not empty and the source's \<open>continue\<close> is not taken.\<close>

definition fetch_arg :: "string \<Rightarrow> option_desc list option \<Rightarrow> bool \<Rightarrow> bool \<Rightarrow> getopt_state \<Rightarrow> getopt_state \<times> int option" where
  "fetch_arg optstring longopts want_index long_only s0 =
     (let s = end_of_options (skip_operands (permute_args s0))
      in if optind s \<ge> length (argv s) then (s\<lparr>optind := first_nonopt s\<rparr>, Some (-1))
         else let arg = argv s ! optind s; dd = at arg 1 = CHR ''-'' in
           case longopts of
             Some lo \<Rightarrow>
               if dd \<or> long_only then
                 let (s1, r) = do_long (drop (if dd then 2 else 1) arg) dd optstring lo want_index long_only s
                 in if r = LONG_ERR then (s1\<lparr>nextchar := None\<rparr>, Some 63)
                    else if r \<noteq> LONG_NONE then (s1\<lparr>nextchar := None\<rparr>, Some r)
                    else (s1\<lparr>nextchar := Some (tl arg)\<rparr>, None)
               else (s\<lparr>nextchar := Some (tl arg)\<rparr>, None)
           | None \<Rightarrow> (s\<lparr>nextchar := Some (tl arg)\<rparr>, None))"

definition getopt_common :: "string \<Rightarrow> option_desc list option \<Rightarrow> bool \<Rightarrow> bool \<Rightarrow> getopt_state \<Rightarrow> getopt_state \<times> int" where
  "getopt_common optstring longopts want_index long_only s0 =
     (let s = restart s0 in
      case nextchar s of
        Some (c # cs) \<Rightarrow> short_option optstring (c # cs) s
      | _ \<Rightarrow> (case fetch_arg optstring longopts want_index long_only s of
            (s1, Some r) \<Rightarrow> (s1, r)
          | (s1, None) \<Rightarrow> short_option optstring (the (nextchar s1)) s1))"

definition getopt :: "string \<Rightarrow> getopt_state \<Rightarrow> getopt_state \<times> int" where
  "getopt optstring = getopt_common optstring None False False"

definition getopt_long :: "string \<Rightarrow> option_desc list \<Rightarrow> bool \<Rightarrow> getopt_state \<Rightarrow> getopt_state \<times> int" where
  "getopt_long optstring lo want_index = getopt_common optstring (Some lo) want_index False"

definition getopt_long_only :: "string \<Rightarrow> option_desc list \<Rightarrow> bool \<Rightarrow> getopt_state \<Rightarrow> getopt_state \<times> int" where
  "getopt_long_only optstring lo want_index = getopt_common optstring (Some lo) want_index True"

section \<open>The exchange is a rotation\<close>

lemma swap_args_blocks:
  "length x = n \<Longrightarrow> length y = n \<Longrightarrow>
   swap_args (A @ x @ M @ y @ B) (length A) (length A + n + length M) n = A @ y @ M @ x @ B"
proof (induction n arbitrary: A x M y)
  case (Suc n)
  then obtain a x' b y' where xy: "x = a # x'" "y = b # y'" by (metis length_Suc_conv)
  have "swap_args (A @ x @ M @ y @ B) (length A) (length A + Suc n + length M) (Suc n) =
      swap_args ((A @ [b]) @ x' @ (M @ [a]) @ y' @ B) (length (A @ [b])) (length (A @ [b]) + n + length (M @ [a])) n"
    using Suc.prems xy by (simp add: nth_append list_update_append ac_simps)
  then show ?case using Suc.IH [of x' y' "A @ [b]" "M @ [a]"] Suc.prems xy by simp
qed simp

lemma exchange_loop_rotates:
  "exchange_loop (A @ N @ P @ R) (length A) (length A + length N) (length A + length N + length P) = A @ P @ N @ R"
proof (induction "length N + length P" arbitrary: A N P R rule: less_induct)
  case less
  show ?case
  proof (cases "N = [] \<or> P = []")
    case True
    then show ?thesis by (subst exchange_loop.simps) auto
  next
    case False
    let ?n = "length N" and ?p = "length P"
    show ?thesis
    proof (cases "?p > ?n")
      case True
      obtain P1 P2 where P: "P = P1 @ P2" "length P2 = ?n"
        by (metis True append_take_drop_id diff_diff_cancel length_drop less_imp_le_nat)
      have sw: "swap_args (A @ N @ P @ R) (length A) (length A + ?n + length P1) ?n = A @ P2 @ P1 @ N @ R"
        using swap_args_blocks [of N ?n P2 A P1 R] P by simp
      have "exchange_loop (A @ N @ P @ R) (length A) (length A + ?n) (length A + ?n + ?p) =
          exchange_loop (A @ P2 @ P1 @ (N @ R)) (length A) (length A + length P2) (length A + length P2 + length P1)"
        using False True P sw by (subst exchange_loop.simps) (simp add: Let_def ac_simps)
      also have "\<dots> = A @ P1 @ P2 @ N @ R"
        using less [of P2 P1 A "N @ R"] P False by simp
      finally show ?thesis using P by simp
    next
      case le: False
      obtain N1 N2 where N: "N = N1 @ N2" "length N1 = ?p"
        by (metis append_take_drop_id le length_take min.absorb2 not_less)
      have sw: "swap_args (A @ N @ P @ R) (length A) (length A + ?n) ?p = A @ P @ N2 @ N1 @ R"
        using swap_args_blocks [of N1 ?p P A N2 R] N by (simp add: ac_simps)
      have "exchange_loop (A @ N @ P @ R) (length A) (length A + ?n) (length A + ?n + ?p) =
          exchange_loop ((A @ P) @ N2 @ N1 @ R) (length (A @ P)) (length (A @ P) + length N2) (length (A @ P) + length N2 + length N1)"
        using False le N sw by (subst exchange_loop.simps) (simp add: Let_def ac_simps)
      also have "\<dots> = (A @ P) @ N1 @ N2 @ R"
        using less [of N2 N1 "A @ P" R] N False by simp
      finally show ?thesis using N by simp
    qed
  qed
qed

section \<open>No argument is lost\<close>

text \<open>The bookkeeping of the scanner is in range between the calls.\<close>

definition getopt_inv :: "getopt_state \<Rightarrow> bool" where
  "getopt_inv s \<longleftrightarrow> argv s \<noteq> [] \<and> first_nonopt s \<le> last_nonopt s \<and> last_nonopt s \<le> length (argv s) \<and>
     optind s \<le> length (argv s) \<and> (nextchar s \<noteq> None \<and> nextchar s \<noteq> Some [] \<longrightarrow> optind s < length (argv s))"

text \<open>What a call keeps: the invariant, and the arguments up to a permutation.\<close>

definition keeps :: "getopt_state \<Rightarrow> getopt_state \<Rightarrow> bool" where
  "keeps s s' \<longleftrightarrow> getopt_inv s' \<and> mset (argv s') = mset (argv s)"

lemma exchange_mset:
  assumes "first_nonopt s \<le> last_nonopt s" "last_nonopt s \<le> optind s" "optind s \<le> length (argv s)"
  shows "mset (argv (exchange s)) = mset (argv s)" "length (argv (exchange s)) = length (argv s)"
proof -
  let ?A = "take (first_nonopt s) (argv s)" and ?N = "take (last_nonopt s - first_nonopt s) (drop (first_nonopt s) (argv s))"
  let ?P = "take (optind s - last_nonopt s) (drop (last_nonopt s) (argv s))" and ?R = "drop (optind s) (argv s)"
  have N: "?A @ ?N = take (last_nonopt s) (argv s)" using assms by (metis le_add_diff_inverse take_add)
  then have P: "?A @ ?N @ ?P = take (optind s) (argv s)" using assms by (metis append_assoc le_add_diff_inverse take_add)
  then have split: "?A @ ?N @ ?P @ ?R = argv s" by (metis append_assoc append_take_drop_id)
  have "exchange_loop (?A @ ?N @ ?P @ ?R) (first_nonopt s) (last_nonopt s) (optind s) = ?A @ ?P @ ?N @ ?R"
    using exchange_loop_rotates [of ?A ?N ?P ?R] assms by simp
  then have e: "argv (exchange s) = ?A @ ?P @ ?N @ ?R" unfolding split by (simp add: exchange_def)
  have "mset (?A @ ?P @ ?N @ ?R) = mset (?A @ ?N @ ?P @ ?R)" by simp
  then show m: "mset (argv (exchange s)) = mset (argv s)" unfolding e split .
  show "length (argv (exchange s)) = length (argv s)" using m by (metis size_mset)
qed

lemma fetch_state_keeps:
  assumes inv: "getopt_inv s"
  defines "s' \<equiv> end_of_options (skip_operands (permute_args s))"
  shows "mset (argv s') = mset (argv s)" "length (argv s') = length (argv s)" "first_nonopt s' \<le> last_nonopt s'"
    "last_nonopt s' \<le> optind s'" "optind s' \<le> length (argv s')" "nextchar s' = nextchar s"
    "optind s' < length (argv s') \<longrightarrow> \<not> operand (argv s' ! optind s')"
proof -
  define s1 where "s1 = (if last_nonopt s > optind s then s\<lparr>last_nonopt := optind s\<rparr> else s)"
  define s2 where "s2 = (if first_nonopt s1 > optind s1 then s1\<lparr>first_nonopt := optind s1\<rparr> else s1)"
  have s2: "first_nonopt s2 \<le> last_nonopt s2" "last_nonopt s2 \<le> optind s2" "optind s2 \<le> length (argv s2)" "argv s2 = argv s"
    "optind s2 = optind s" "nextchar s2 = nextchar s"
    using inv by (auto simp: s1_def s2_def getopt_inv_def)
  define s3 where "s3 = permute_args s"
  have s3_eq: "s3 = (if first_nonopt s2 \<noteq> last_nonopt s2 \<and> last_nonopt s2 \<noteq> optind s2 then exchange s2
      else if last_nonopt s2 \<noteq> optind s2 then s2\<lparr>first_nonopt := optind s2\<rparr> else s2)"
    by (simp add: s3_def permute_args_def s1_def s2_def Let_def)
  have s3: "mset (argv s3) = mset (argv s)" "length (argv s3) = length (argv s)" "first_nonopt s3 \<le> optind s3"
    "optind s3 \<le> length (argv s3)" "nextchar s3 = nextchar s"
    using s2 exchange_mset [OF s2(1-3)] unfolding s3_eq by (auto simp: exchange_def)
  define s4 where "s4 = skip_operands s3"
  have tw: "length (takeWhile operand (drop (optind s3) (argv s3))) \<le> length (argv s3) - optind s3"
    using length_takeWhile_le [of operand "drop (optind s3) (argv s3)"] by simp
  have s4: "argv s4 = argv s3" "first_nonopt s4 \<le> last_nonopt s4" "last_nonopt s4 = optind s4" "optind s4 \<le> length (argv s4)"
    "nextchar s4 = nextchar s" "optind s4 < length (argv s4) \<longrightarrow> \<not> operand (argv s4 ! optind s4)"
    using s3 tw nth_length_takeWhile [of operand "drop (optind s3) (argv s3)"]
    by (auto simp: s4_def skip_operands_def Let_def)
  have s': "s' = end_of_options s4" by (simp add: s'_def s4_def s3_def)
  let ?s5 = "s4\<lparr>optind := Suc (optind s4)\<rparr>"
  show "mset (argv s') = mset (argv s)" "length (argv s') = length (argv s)" "first_nonopt s' \<le> last_nonopt s'"
    "last_nonopt s' \<le> optind s'" "optind s' \<le> length (argv s')" "nextchar s' = nextchar s"
    "optind s' < length (argv s') \<longrightarrow> \<not> operand (argv s' ! optind s')"
    using s4 s3 exchange_mset [of ?s5] unfolding s'
    by (auto simp: end_of_options_def Let_def exchange_def)
qed

lemma complain_simps [simp]:
  "argv (complain b x y s) = argv s" "first_nonopt (complain b x y s) = first_nonopt s"
  "last_nonopt (complain b x y s) = last_nonopt s" "optind (complain b x y s) = optind s"
  "argv (opterr_msg_short c s) = argv s" "first_nonopt (opterr_msg_short c s) = first_nonopt s"
  "last_nonopt (opterr_msg_short c s) = last_nonopt s" "optind (opterr_msg_short c s) = optind s"
  "nextchar (opterr_msg_short c s) = nextchar s"
  by (simp_all add: complain_def opterr_msg_long_def opterr_msg_short_def)

lemma long_match_loop_bound:
  "0 \<le> long_match_loop name ds i found cnt \<Longrightarrow> found < int i \<Longrightarrow> long_match_loop name ds i found cnt < int (i + length ds)"
  by (induction name ds i found cnt rule: long_match_loop.induct) (fastforce simp: LONG_ERR_def split: if_splits)+

lemma long_match_bound: "0 \<le> long_match name lo \<Longrightarrow> nat (long_match name lo) < length lo"
  using long_match_loop_bound [of name lo 0 "-1" 0] by (simp add: long_match_def)

text \<open>Option values other than the two the scanner uses itself.\<close>

definition plain_values :: "option_desc list \<Rightarrow> bool" where
  "plain_values lo \<longleftrightarrow> (\<forall>d \<in> set lo. opt_val d \<noteq> LONG_NONE \<and> opt_val d \<noteq> LONG_ERR)"

lemma do_long_keeps:
  assumes "do_long body dd optstring lo want long_only s = (s', r)" "optind s < length (argv s)"
  shows "argv s' = argv s" "first_nonopt s' = first_nonopt s" "last_nonopt s' = last_nonopt s"
    "optind s' \<le> length (argv s)"
  using assms unfolding do_long_def Let_def
  by (auto split: if_splits option.splits)

lemma do_long_none:
  assumes "do_long body dd optstring lo want long_only s = (s', LONG_NONE)" "plain_values lo"
  shows "s' = s"
proof -
  let ?i = "long_match (takeWhile (\<lambda>c. c \<noteq> CHR ''='') body) lo"
  have "0 \<le> ?i \<Longrightarrow> lo ! nat ?i \<in> set lo" using long_match_bound by (intro nth_mem) blast
  then have "0 \<le> ?i \<Longrightarrow> opt_val (lo ! nat ?i) \<noteq> LONG_NONE" using assms(2) by (auto simp: plain_values_def)
  then show ?thesis using assms(1) unfolding do_long_def Let_def
    by (auto split: if_splits option.splits simp: LONG_NONE_def LONG_ERR_def)
qed

lemma short_option_keeps:
  assumes "first_nonopt s \<le> last_nonopt s" "last_nonopt s \<le> length (argv s)" "optind s < length (argv s)"
  shows "keeps s (fst (short_option optstring cs s))"
proof -
  have "argv s \<noteq> []" using assms(3) by auto
  then show ?thesis using assms unfolding short_option_def Let_def keeps_def getopt_inv_def by auto
qed

lemma keeps_trans_eq: "mset (argv s) = mset (argv s0) \<Longrightarrow> keeps s s' \<Longrightarrow> keeps s0 s'"
  by (simp add: keeps_def)

text \<open>Either the call returns from \<open>fetch_arg\<close>, or a cluster is at hand.\<close>

lemma fetch_arg_keeps:
  assumes inv: "getopt_inv s" and lo: "\<And>lo. longopts = Some lo \<Longrightarrow> plain_values lo"
    and nx: "nextchar s = None \<or> nextchar s = Some []"
    and f: "fetch_arg optstring longopts want long_only s = (s1, q)"
  shows "mset (argv s1) = mset (argv s)" "q \<noteq> None \<Longrightarrow> keeps s s1"
    "q = None \<Longrightarrow> first_nonopt s1 \<le> last_nonopt s1 \<and> last_nonopt s1 \<le> length (argv s1) \<and> optind s1 < length (argv s1)"
proof -
  define s' where "s' = end_of_options (skip_operands (permute_args s))"
  note k = fetch_state_keeps [OF inv, folded s'_def]
  have ne: "argv s' \<noteq> []" using k(2) inv by (auto simp: getopt_inv_def)
  have "mset (argv s1) = mset (argv s) \<and> (q \<noteq> None \<longrightarrow> keeps s s1) \<and>
    (q = None \<longrightarrow> first_nonopt s1 \<le> last_nonopt s1 \<and> last_nonopt s1 \<le> length (argv s1) \<and> optind s1 < length (argv s1))"
  proof (cases "optind s' \<ge> length (argv s')")
    case True
    then show ?thesis using f k ne nx by (auto simp: fetch_arg_def s'_def [symmetric] Let_def keeps_def getopt_inv_def)
  next
    case False
    define arg where "arg = argv s' ! optind s'"
    define dd where "dd \<longleftrightarrow> at arg (Suc 0) = CHR ''-''"
    show ?thesis
    proof (cases "\<exists>lo. longopts = Some lo \<and> (dd \<or> long_only)")
      case long: True
      then obtain lo' where lo': "longopts = Some lo'" "dd \<or> long_only" by auto
      obtain s2 r where d: "do_long (drop (if dd then 2 else 1) arg) dd optstring lo' want long_only s' = (s2, r)" by force
      have f2: "(s1, q) = (if r = LONG_ERR then (s2\<lparr>nextchar := None\<rparr>, Some 63)
          else if r \<noteq> LONG_NONE then (s2\<lparr>nextchar := None\<rparr>, Some r) else (s2\<lparr>nextchar := Some (tl arg)\<rparr>, None))"
        using f False lo' d by (simp add: fetch_arg_def s'_def [symmetric] Let_def arg_def [symmetric] dd_def [symmetric])
      have "r = LONG_NONE \<Longrightarrow> s2 = s'" using do_long_none d lo [OF lo'(1)] by metis
      then show ?thesis using f2 do_long_keeps [OF d] False k ne
        by (auto simp: keeps_def getopt_inv_def split: if_splits)
    next
      case no: False
      then have "(s1, q) = (s'\<lparr>nextchar := Some (tl arg)\<rparr>, None)"
        using f False by (auto simp: fetch_arg_def s'_def [symmetric] Let_def arg_def [symmetric] dd_def [symmetric] split: option.splits)
      then show ?thesis using False k by auto
    qed
  qed
  then show "mset (argv s1) = mset (argv s)" "q \<noteq> None \<Longrightarrow> keeps s s1"
    "q = None \<Longrightarrow> first_nonopt s1 \<le> last_nonopt s1 \<and> last_nonopt s1 \<le> length (argv s1) \<and> optind s1 < length (argv s1)"
    by auto
qed

lemma restart_inv: "getopt_inv s \<Longrightarrow> getopt_inv (restart s) \<and> argv (restart s) = argv s"
  by (auto simp: restart_def getopt_inv_def Suc_le_eq)

lemma getopt_common_keeps:
  assumes inv: "getopt_inv s" and lo: "\<And>lo. longopts = Some lo \<Longrightarrow> plain_values lo"
  shows "keeps s (fst (getopt_common optstring longopts want long_only s))"
proof -
  define t where "t = restart s"
  have t: "getopt_inv t" "argv t = argv s" using restart_inv [OF inv] by (simp_all add: t_def)
  show ?thesis
  proof (cases "\<exists>c cs. nextchar t = Some (c # cs)")
    case True
    then obtain c cs where cs: "nextchar t = Some (c # cs)" by auto
    then have "keeps t (fst (short_option optstring (c # cs) t))"
      using t(1) by (intro short_option_keeps) (auto simp: getopt_inv_def)
    then show ?thesis using cs t(2) by (simp add: getopt_common_def t_def [symmetric] keeps_def)
  next
    case False
    obtain s1 q where f: "fetch_arg optstring longopts want long_only t = (s1, q)" by force
    have nx: "nextchar t = None \<or> nextchar t = Some []"
      using False by (metis list.exhaust option.exhaust)
    note k = fetch_arg_keeps [OF t(1) lo nx f]
    have eq: "getopt_common optstring longopts want long_only s =
        (case q of Some r \<Rightarrow> (s1, r) | None \<Rightarrow> short_option optstring (the (nextchar s1)) s1)"
      using False f by (auto simp: getopt_common_def t_def [symmetric] Let_def split: option.split list.split)
    show ?thesis
    proof (cases q)
      case None
      then have "keeps s1 (fst (short_option optstring (the (nextchar s1)) s1))"
        using k by (intro short_option_keeps) auto
      then show ?thesis using None eq k(1) t(2) by (simp add: keeps_def)
    next
      case (Some r)
      then show ?thesis using eq k t(2) by (simp add: keeps_def)
    qed
  qed
qed

section \<open>A whole run over flags and operands\<close>

text \<open>All the calls up to the \<open>-1\<close>.\<close>

partial_function (option) getopt_all :: "string \<Rightarrow> getopt_state \<Rightarrow> (int list \<times> getopt_state) option" where
  "getopt_all optstring s =
     (let (s', r) = getopt optstring s in
      if r = -1 then Some ([], s')
      else Option.bind (getopt_all optstring s') (\<lambda>(rs, s''). Some (r # rs, s'')))"

text \<open>A letter that the option string lists without a colon, and an argument made of such letters.\<close>

definition plain_flag :: "string \<Rightarrow> char \<Rightarrow> bool" where
  "plain_flag optstring c \<longleftrightarrow> dropWhile (\<lambda>x. x \<noteq> c) optstring \<noteq> [] \<and> at (dropWhile (\<lambda>x. x \<noteq> c) optstring) 1 \<noteq> CHR '':''"

definition flag_arg :: "string \<Rightarrow> string \<Rightarrow> bool" where
  "flag_arg optstring a \<longleftrightarrow> (\<exists>cs. a = CHR ''-'' # cs \<and> cs \<noteq> [] \<and> CHR ''-'' \<noteq> hd cs \<and> NUL \<noteq> hd cs \<and> (\<forall>c \<in> set cs. plain_flag optstring c))"

text \<open>Where the scanner is: \<open>A\<close> is done, \<open>N\<close> are the operands passed over, \<open>P\<close> the options behind
  them, \<open>R\<close> is still to come.\<close>

definition layout :: "getopt_state \<Rightarrow> string list \<Rightarrow> string list \<Rightarrow> string list \<Rightarrow> string list \<Rightarrow> bool" where
  "layout s A N P R \<longleftrightarrow> argv s = A @ N @ P @ R \<and> first_nonopt s = length A \<and>
     last_nonopt s = length A + length N \<and> optind s = length A + length N + length P"

lemma layout_skip:
  assumes "layout s A N P R"
  shows "layout (skip_operands (permute_args s)) (A @ P) (N @ takeWhile operand R) [] (dropWhile operand R)"
    "nextchar (skip_operands (permute_args s)) = nextchar s"
proof -
  define s3 where "s3 = permute_args s"
  have s3: "argv s3 = A @ P @ N @ R" "first_nonopt s3 = length (A @ P)" "optind s3 = length (A @ P @ N)" "nextchar s3 = nextchar s"
    using assms exchange_loop_rotates [of A N P R]
    by (auto simp: s3_def permute_args_def layout_def exchange_def)
  then show "layout (skip_operands (permute_args s)) (A @ P) (N @ takeWhile operand R) [] (dropWhile operand R)"
    "nextchar (skip_operands (permute_args s)) = nextchar s"
    by (simp_all add: skip_operands_def Let_def s3_def [symmetric] layout_def)
qed

lemma flag_arg_not_operand: "flag_arg optstring a \<Longrightarrow> \<not> operand a \<and> a \<noteq> ''--''"
  by (auto simp: flag_arg_def operand_def neq_Nil_conv)

lemma short_flag:
  assumes "plain_flag optstring c" "optind s < length (argv s)"
  shows "short_option optstring (c # cs) s =
    (if cs = [] then s\<lparr>optarg := None, nextchar := None, optind := optind s + 1\<rparr>
     else s\<lparr>optarg := None, nextchar := Some cs\<rparr>, uchar c)"
  using assms by (auto simp: short_option_def plain_flag_def Let_def)

text \<open>A cluster of flags is returned letter by letter.\<close>

lemma getopt_all_cluster:
  "cs \<noteq> [] \<Longrightarrow> \<forall>c \<in> set cs. plain_flag optstring c \<Longrightarrow> optind s < length (argv s) \<Longrightarrow> 0 < optind s \<Longrightarrow>
   getopt_all optstring (s\<lparr>nextchar := Some cs\<rparr>) =
     Option.bind (getopt_all optstring (s\<lparr>optarg := None, nextchar := None, optind := optind s + 1\<rparr>))
       (\<lambda>(rs, s''). Some (map uchar cs @ rs, s''))"
proof (induction cs arbitrary: s)
  case (Cons c cs)
  let ?s = "s\<lparr>nextchar := Some (c # cs)\<rparr>"
  have g: "getopt optstring ?s = short_option optstring (c # cs) ?s"
    using Cons.prems by (simp add: getopt_def getopt_common_def restart_def)
  have ne: "uchar c \<noteq> -1" using uchar_bounds(1) [of c] by linarith
  show ?case
  proof (cases "cs = []")
    case True
    then show ?thesis using g ne Cons.prems by (subst getopt_all.simps) (simp add: short_flag)
  next
    case False
    have "getopt_all optstring ?s = Option.bind (getopt_all optstring ((s\<lparr>optarg := None\<rparr>)\<lparr>nextchar := Some cs\<rparr>))
        (\<lambda>(rs, s''). Some (uchar c # rs, s''))"
      using g ne Cons.prems False by (subst getopt_all.simps) (simp add: short_flag)
    also have "getopt_all optstring ((s\<lparr>optarg := None\<rparr>)\<lparr>nextchar := Some cs\<rparr>) =
        Option.bind (getopt_all optstring (s\<lparr>optarg := None, nextchar := None, optind := optind s + 1\<rparr>))
          (\<lambda>(rs, s''). Some (map uchar cs @ rs, s''))"
      using Cons.IH [of "s\<lparr>optarg := None\<rparr>"] False Cons.prems by simp
    finally show ?thesis by (simp add: bind_assoc case_prod_beta split_def)
  qed
qed simp

text \<open>The run: the flags come out in order, and at the end the options stand before the operands.\<close>

lemma getopt_all_layout:
  assumes "layout s A N P R" "nextchar s = None" "0 < optind s" "\<forall>a \<in> set R. operand a \<or> flag_arg optstring a"
  shows "\<exists>s'. getopt_all optstring s = Some (map uchar (concat (map tl (filter (\<lambda>a. \<not> operand a) R))), s') \<and>
    argv s' = A @ P @ filter (\<lambda>a. \<not> operand a) R @ N @ filter operand R \<and>
    optind s' = length (A @ P @ filter (\<lambda>a. \<not> operand a) R)"
  using assms
proof (induction "length R" arbitrary: s A N P R rule: less_induct)
  case less
  define s2 where "s2 = skip_operands (permute_args s)"
  define T where "T = takeWhile operand R"
  define D where "D = dropWhile operand R"
  have R: "R = T @ D" "\<forall>a \<in> set T. operand a" by (auto simp: T_def D_def dest: set_takeWhileD)
  have fil: "filter operand T = T" "filter (\<lambda>a. \<not> operand a) T = []" using R(2) by (auto simp: filter_empty_conv)
  have s2: "layout s2 (A @ P) (N @ T) [] D" "nextchar s2 = None"
    using layout_skip [OF less.prems(1)] less.prems(2) by (simp_all add: s2_def T_def D_def)
  have r: "restart s = s" using less.prems(3) by (simp add: restart_def)
  show ?case
  proof (cases D)
    case Nil
    have e: "end_of_options s2 = s2" using s2(1) Nil by (simp add: end_of_options_def layout_def)
    have "getopt optstring s = (s2\<lparr>optind := first_nonopt s2\<rparr>, -1)"
      using s2 Nil less.prems(2) r e by (simp add: getopt_def getopt_common_def fetch_arg_def s2_def [symmetric] Let_def layout_def)
    then show ?thesis using s2(1) Nil R fil by (subst getopt_all.simps) (simp add: layout_def)
  next
    case (Cons a D')
    have no: "\<not> operand a" using Cons unfolding D_def by (metis dropWhile_eq_Cons_conv)
    then have fa: "flag_arg optstring a" using less.prems(4) R(1) Cons by auto
    then obtain cs where cs: "a = CHR ''-'' # cs" "cs \<noteq> []" "\<forall>c \<in> set cs. plain_flag optstring c" by (auto simp: flag_arg_def)
    have at: "argv s2 ! optind s2 = a" "optind s2 < length (argv s2)" "0 < optind s2"
      using s2(1) Cons less.prems(1,3) by (auto simp: layout_def nth_append)
    have e: "end_of_options s2 = s2" using at flag_arg_not_operand [OF fa] by (simp add: end_of_options_def)
    have "fetch_arg optstring None False False s = (s2\<lparr>nextchar := Some cs\<rparr>, None)"
      using at e cs by (simp add: fetch_arg_def s2_def [symmetric] Let_def)
    then have "getopt optstring s = short_option optstring cs (s2\<lparr>nextchar := Some cs\<rparr>)"
      using less.prems(2) r by (simp add: getopt_def getopt_common_def)
    also have "\<dots> = getopt optstring (s2\<lparr>nextchar := Some cs\<rparr>)"
      using cs(2) at(3) by (cases cs) (simp_all add: getopt_def getopt_common_def restart_def)
    finally have "getopt_all optstring s = getopt_all optstring (s2\<lparr>nextchar := Some cs\<rparr>)"
      by (subst (1 2) getopt_all.simps) simp
    also have "\<dots> = Option.bind (getopt_all optstring (s2\<lparr>optarg := None, nextchar := None, optind := optind s2 + 1\<rparr>))
        (\<lambda>(rs, s''). Some (map uchar cs @ rs, s''))"
      by (rule getopt_all_cluster [OF cs(2,3) at(2,3)])
    finally have eq: "getopt_all optstring s = \<dots>" .
    let ?s3 = "s2\<lparr>optarg := None, nextchar := None, optind := optind s2 + 1\<rparr>"
    have "layout ?s3 (A @ P) (N @ T) [a] D'" using s2(1) Cons by (simp add: layout_def)
    then obtain s' where "getopt_all optstring ?s3 = Some (map uchar (concat (map tl (filter (\<lambda>a. \<not> operand a) D'))), s')"
      "argv s' = (A @ P) @ [a] @ filter (\<lambda>a. \<not> operand a) D' @ (N @ T) @ filter operand D'"
      "optind s' = length ((A @ P) @ [a] @ filter (\<lambda>a. \<not> operand a) D')"
      using less.hyps [of D' ?s3 "A @ P" "N @ T" "[a]"] less.prems(4) R(1) Cons by auto
    then show ?thesis using eq R(1) Cons fil no cs(1) by auto
  qed
qed

section \<open>Which long option a name means\<close>

definition hits :: "(string \<Rightarrow> bool) \<Rightarrow> option_desc list \<Rightarrow> nat list" where
  "hits P ds = filter (\<lambda>k. P (opt_name (ds ! k))) [0..<length ds]"

lemma hits_Cons: "hits P (d # ds) = (if P (opt_name d) then [0] else []) @ map Suc (hits P ds)"
proof -
  have "[0..<length (d # ds)] = 0 # map Suc [0..<length ds]" by (simp add: upt_conv_Cons map_Suc_upt del: upt_Suc)
  then show ?thesis by (simp add: hits_def filter_map comp_def)
qed

lemma long_match_loop_spec:
  "long_match_loop name ds i found cnt =
     (case hits (\<lambda>n. n = name) ds of
        k # _ \<Rightarrow> int (i + k)
      | [] \<Rightarrow> let ps = hits (\<lambda>n. take (length name) n = name) ds in
          if cnt + length ps = 1 then (if ps = [] then found else int (i + hd ps))
          else if cnt + length ps > 1 then LONG_ERR else -1)"
proof (induction name ds i found cnt rule: long_match_loop.induct)
  case (1 name i found cnt)
  then show ?case by (simp add: hits_def)
next
  case (2 name d ds i found cnt)
  show ?case
  proof (cases "opt_name d = name")
    case True
    then show ?thesis by (simp add: hits_Cons)
  next
    case False
    then show ?thesis using 2
      by (cases "hits (\<lambda>n. n = name) ds"; cases "hits (\<lambda>n. take (length name) n = name) ds")
        (auto simp: hits_Cons Let_def)
  qed
qed

text \<open>The first option with exactly the name; else the only option the name is a prefix of; else an error.\<close>

lemma long_match_spec:
  "long_match name lo =
     (case hits (\<lambda>n. n = name) lo of
        k # _ \<Rightarrow> int k
      | [] \<Rightarrow> (case hits (\<lambda>n. take (length name) n = name) lo of
          [] \<Rightarrow> -1 | [k] \<Rightarrow> int k | _ \<Rightarrow> LONG_ERR))"
  by (auto simp: long_match_def long_match_loop_spec Let_def split: list.split)

end
