(* ===== verification/Cact_Errno.thy ===== *)
theory Cact_Errno
  imports Cact_Heap
begin

text \<open>Names the components share: the error numbers of \<open>include/errno.h\<close> they return (\<open>ENOMEM\<close> and
  \<open>EINVAL\<close> are with the heap), \<open>nio_map\<close> of \<open>src/nodeio.c\<close>, which turns a result of the kernel into
  a return value and an error number, and \<open>struct timespec\<close>.\<close>

definition EPERM :: int where "EPERM = 1"
definition ENOENT :: int where "ENOENT = 2"
definition ESRCH :: int where "ESRCH = 3"
definition EINTR :: int where "EINTR = 4"
definition EIO :: int where "EIO = 5"
definition EAGAIN :: int where "EAGAIN = 11"
definition EFAULT :: int where "EFAULT = 14"
definition EBUSY :: int where "EBUSY = 16"
definition EEXIST :: int where "EEXIST = 17"
definition ERANGE :: int where "ERANGE = 34"
definition EDEADLK :: int where "EDEADLK = 35"
definition ENAMETOOLONG :: int where "ENAMETOOLONG = 36"
definition ETIMEDOUT :: int where "ETIMEDOUT = 110"

lemmas errno_defs = EPERM_def ENOENT_def ESRCH_def EINTR_def EIO_def EAGAIN_def EFAULT_def EBUSY_def
  EEXIST_def ERANGE_def EDEADLK_def ENAMETOOLONG_def ETIMEDOUT_def ENOMEM_def EINVAL_def

text \<open>A call returns its value and, when it sets \<open>errno\<close>, the error number.\<close>

definition nio_map :: "int \<Rightarrow> int \<times> int option" where
  "nio_map r =
     (if r \<ge> 0 then (r, None)
      else (-1, Some (if r = -1 then EIO else if 0 < - r \<and> - r \<le> 133 then - r else EIO)))"

record timespec =
  tv_sec :: int
  tv_nsec :: int

end
