(* ===== verification/Cact_Path.thy ===== *)
theory Cact_Path
  imports Cact_Errno "HOL-Library.Word"
begin

text \<open>
  Path names: \<open>src/libgen.c\<close>, and \<open>realpath\<close> and \<open>mkostemp\<close> of \<open>src/stdlib.c\<close>.  A buffer that holds
  a string is the list of its characters; the functions that shorten their argument in place return
  its new content too.
\<close>

section \<open>\<open>dirname\<close> and \<open>basename\<close>\<close>

function strip_slashes :: "nat \<Rightarrow> string \<Rightarrow> string" where
  "strip_slashes k p = (if length p > k \<and> last p = CHR ''/'' then strip_slashes k (butlast p) else p)"
  by pat_completeness auto
termination
  by (relation "measure (\<lambda>(k, p). length p)") auto

declare strip_slashes.simps [simp del]

fun last_slash :: "string \<Rightarrow> nat \<Rightarrow> nat option \<Rightarrow> nat option" where
  "last_slash [] i r = r"
| "last_slash (c # cs) i r = last_slash cs (Suc i) (if c = CHR ''/'' then Some i else r)"

text \<open>The result, and what is left in the argument.\<close>

definition dirname :: "string option \<Rightarrow> string \<times> string option" where
  "dirname path = (case path of None \<Rightarrow> (''.'', None)
     | Some p0 \<Rightarrow>
       if p0 = [] then (''.'', path)
       else let p = strip_slashes 1 p0 in
         case last_slash p 0 None of
           None \<Rightarrow> (''.'', Some p)
         | Some i \<Rightarrow> let q = take (if i = 0 then 1 else i) p in (q, Some q))"

fun base_start :: "string \<Rightarrow> nat \<Rightarrow> nat" where
  "base_start p 0 = 0"
| "base_start p (Suc n) = (if p ! n \<noteq> CHR ''/'' then base_start p n else Suc n)"

definition basename :: "string option \<Rightarrow> string \<times> string option" where
  "basename path = (case path of None \<Rightarrow> (''.'', None)
     | Some p0 \<Rightarrow>
       if p0 = [] then (''.'', path)
       else let p = strip_slashes 0 p0 in
         if p = [] then (''/'', path)
         else (drop (base_start p (length p)) p, Some p))"

lemma strip_slashes_snoc: "p \<noteq> [] \<Longrightarrow> last p \<noteq> CHR ''/'' \<Longrightarrow> k \<le> 1 \<Longrightarrow> strip_slashes k (p @ replicate n CHR ''/'') = p"
proof (induction n)
  case 0
  then show ?case by (subst strip_slashes.simps) simp
next
  case (Suc n)
  have "p @ replicate (Suc n) CHR ''/'' = (p @ replicate n CHR ''/'') @ [CHR ''/'']" by (simp add: replicate_append_same)
  moreover have "k < length ((p @ replicate n CHR ''/'') @ [CHR ''/''])" using Suc.prems by (cases p) auto
  ultimately show ?case using Suc by (subst strip_slashes.simps) (simp del: append_assoc)
qed

lemma last_slash_append: "last_slash (xs @ ys) i r = last_slash ys (i + length xs) (last_slash xs i r)"
  by (induction xs arbitrary: i r) auto

lemma last_slash_none: "CHR ''/'' \<notin> set xs \<Longrightarrow> last_slash xs i r = r"
  by (induction xs arbitrary: i r) auto

lemma base_start_slash: "CHR ''/'' \<notin> set b \<Longrightarrow> base_start (a @ CHR ''/'' # b) (length a + 1 + k) = length a + 1" if "k \<le> length b"
  using that
proof (induction k)
  case (Suc k)
  have "b ! k \<in> set b" using Suc.prems(2) by simp
  then have "b ! k \<noteq> CHR ''/''" using Suc.prems(1) by metis
  then have "(a @ CHR ''/'' # b) ! (length a + 1 + k) \<noteq> CHR ''/''" by (simp add: nth_append)
  then show ?case using Suc by simp
qed (simp add: nth_append)

lemma base_start_none: "CHR ''/'' \<notin> set p \<Longrightarrow> k \<le> length p \<Longrightarrow> base_start p k = 0"
  by (induction k) (auto simp: in_set_conv_nth)

text \<open>A path with a directory part, and any number of slashes at its end.\<close>

lemma dirname_basename:
  fixes n :: nat
  assumes "d \<noteq> []" "b \<noteq> []" "CHR ''/'' \<notin> set b"
  defines "p \<equiv> d @ CHR ''/'' # b @ replicate n CHR ''/''"
  shows "fst (dirname (Some p)) = d" "fst (basename (Some p)) = b"
proof -
  let ?q = "d @ CHR ''/'' # b"
  have l: "last ?q \<noteq> CHR ''/''" using assms(2,3) last_in_set by fastforce
  have p: "p = ?q @ replicate n CHR ''/''" by (simp add: p_def)
  have s: "strip_slashes k p = ?q" if "k \<le> 1" for k using strip_slashes_snoc [OF _ l that] by (simp add: p)
  have "last_slash ?q 0 None = Some (length d)" using assms(3) by (simp add: last_slash_append last_slash_none)
  then show "fst (dirname (Some p)) = d" using s [of 1] assms(1) by (simp add: dirname_def p_def Let_def)
  have "base_start ?q (length ?q) = length d + 1" using base_start_slash [OF le_refl assms(3), of d] by simp
  then show "fst (basename (Some p)) = b" using s [of 0] by (simp add: basename_def p_def Let_def)
qed

lemma dirname_plain:
  assumes "b \<noteq> []" "CHR ''/'' \<notin> set b"
  shows "fst (dirname (Some (b @ replicate n CHR ''/''))) = ''.''" "fst (basename (Some (b @ replicate n CHR ''/''))) = b"
proof -
  have l: "last b \<noteq> CHR ''/''" using assms last_in_set by fastforce
  show "fst (dirname (Some (b @ replicate n CHR ''/''))) = ''.''" "fst (basename (Some (b @ replicate n CHR ''/''))) = b"
    using strip_slashes_snoc [OF assms(1) l] assms last_slash_none [OF assms(2)] base_start_none [OF assms(2)]
    by (simp_all add: dirname_def basename_def Let_def)
qed

section \<open>\<open>realpath\<close>\<close>

definition PATHBUF_MAX :: nat where "PATHBUF_MAX = 512"

function drop_tail :: "string \<Rightarrow> string" where
  "drop_tail p = (if length p > 1 \<and> last p \<noteq> CHR ''/'' then drop_tail (butlast p) else p)"
  by pat_completeness auto
termination
  by (relation "measure length") auto

declare drop_tail.simps [simp del]

definition rp_remove_last :: "string \<Rightarrow> string" where
  "rp_remove_last out =
     (if length out \<le> 1 then out
      else let o2 = drop_tail (strip_slashes 1 out) in if length o2 > 1 then butlast o2 else o2)"

text \<open>The component at the front, cut after 255 characters.\<close>

definition component :: "string \<Rightarrow> string" where
  "component q = take 255 (takeWhile (\<lambda>c. c \<noteq> CHR ''/'') q)"

lemma component_rest:
  assumes "dropWhile (\<lambda>c. c = CHR ''/'') p = q" "q \<noteq> []"
  shows "component q \<noteq> []" "length (drop (length (component q)) q) < length p"
proof -
  have "hd q \<noteq> CHR ''/''" using hd_dropWhile [of "\<lambda>c. c = CHR ''/''" p] assms by simp
  then show ne: "component q \<noteq> []" using assms(2) by (cases q) (auto simp: component_def)
  have "length q \<le> length p" using length_dropWhile_le [of "\<lambda>c. c = CHR ''/''" p] assms(1) by simp
  then show "length (drop (length (component q)) q) < length p"
    using ne assms(2) unfolding length_drop length_greater_0_conv [symmetric] by linarith
qed

function realpath_loop :: "string \<Rightarrow> string \<Rightarrow> string option" where
  "realpath_loop p out =
     (let q = dropWhile (\<lambda>c. c = CHR ''/'') p in
      if q = [] then Some out
      else let name = component q; r = drop (length name) q in
        if name = ''.'' then realpath_loop r out
        else if name = ''..'' then realpath_loop r (rp_remove_last out)
        else if length out + length name + 2 > PATHBUF_MAX then None
        else realpath_loop r (out @ (if out \<noteq> ''/'' then ''/'' else []) @ name))"
  by pat_completeness auto
termination
  by (relation "measure (\<lambda>(p, out). length p)") (simp_all only: wf_measure in_measure case_prod_conv, (erule component_rest(2) [OF refl])+)

declare realpath_loop.simps [simp del]

text \<open>\<open>cwd\<close> is the answer of \<open>getcwd\<close>, \<open>buf\<close> whether there is a buffer for the result.\<close>

definition realpath :: "string option \<Rightarrow> bool \<Rightarrow> string option \<Rightarrow> int + string" where
  "realpath path buf cwd = (case path of None \<Rightarrow> Inl ENOENT
     | Some p \<Rightarrow>
       if p = [] then Inl ENOENT
       else if \<not> buf then Inl ENOMEM
       else case (if hd p = CHR ''/'' then Some ''/'' else cwd) of
         None \<Rightarrow> Inl ENOENT
       | Some out \<Rightarrow> (case realpath_loop p out of None \<Rightarrow> Inl ENAMETOOLONG | Some r \<Rightarrow> Inr r))"

text \<open>The reference: the components of the path, resolved on a stack, and printed.\<close>

function comps :: "string \<Rightarrow> string list" where
  "comps p =
     (let q = dropWhile (\<lambda>c. c = CHR ''/'') p in
      if q = [] then [] else takeWhile (\<lambda>c. c \<noteq> CHR ''/'') q # comps (dropWhile (\<lambda>c. c \<noteq> CHR ''/'') q))"
  by pat_completeness auto
termination
proof (relation "measure length", goal_cases)
  case (2 p q)
  then have "hd q \<noteq> CHR ''/''" using hd_dropWhile [of "\<lambda>c. c = CHR ''/''" p] by simp
  then have "length (dropWhile (\<lambda>c. c \<noteq> CHR ''/'') q) < length q"
    using 2(2) by (cases q) (auto simp: less_Suc_eq_le length_dropWhile_le)
  also have "\<dots> \<le> length p" using 2(1) length_dropWhile_le [of "\<lambda>c. c = CHR ''/''" p] by simp
  finally show ?case by simp
qed simp

declare comps.simps [simp del]

definition resolve :: "string list \<Rightarrow> string \<Rightarrow> string list" where
  "resolve st c = (if c = ''.'' then st else if c = ''..'' then butlast st else st @ [c])"

definition render :: "string list \<Rightarrow> string" where
  "render st = (if st = [] then ''/'' else concat (map (\<lambda>c. CHR ''/'' # c) st))"

definition good_comp :: "string \<Rightarrow> bool" where
  "good_comp c \<longleftrightarrow> c \<noteq> [] \<and> CHR ''/'' \<notin> set c"

fun fits :: "string list \<Rightarrow> string list \<Rightarrow> bool" where
  "fits st [] = True"
| "fits st (c # cs) \<longleftrightarrow>
     (c = ''.'' \<or> c = ''..'' \<or> length (render st) + length c + 2 \<le> PATHBUF_MAX) \<and> fits (resolve st c) cs"

lemma render_snoc: "render (st @ [c]) = (if st = [] then [] else render st) @ CHR ''/'' # c"
  by (simp add: render_def)

lemma drop_tail_comp:
  "CHR ''/'' \<notin> set c \<Longrightarrow> drop_tail (a @ CHR ''/'' # c) = a @ ''/''"
proof (induction c rule: rev_induct)
  case Nil
  then show ?case by (subst drop_tail.simps) simp
next
  case (snoc x c)
  have "drop_tail (a @ CHR ''/'' # c @ [x]) = drop_tail (butlast (a @ CHR ''/'' # c @ [x]))"
    using snoc.prems by (subst drop_tail.simps) auto
  also have "butlast (a @ CHR ''/'' # c @ [x]) = a @ CHR ''/'' # c" by (simp add: butlast_append)
  finally show ?case using snoc by simp
qed

lemma remove_last_render:
  assumes "\<forall>c \<in> set st. good_comp c"
  shows "rp_remove_last (render st) = render (butlast st)"
proof (cases st rule: rev_cases)
  case Nil
  then show ?thesis by (simp add: rp_remove_last_def render_def)
next
  case (snoc st' c)
  then have c: "c \<noteq> []" "CHR ''/'' \<notin> set c" using assms by (auto simp: good_comp_def)
  define a where "a = (if st' = [] then [] else render st')"
  have r: "render st = a @ CHR ''/'' # c" using snoc by (simp add: render_snoc a_def)
  have "last c \<noteq> CHR ''/''" using c last_in_set [OF c(1)] by metis
  then have l: "last (render st) \<noteq> CHR ''/''" using c(1) by (simp add: r)
  then have s: "strip_slashes 1 (render st) = render st" using r strip_slashes_snoc [of "render st" 1 0] by simp
  have long: "\<not> length (render st) \<le> 1" using c by (cases c) (auto simp: r)
  have "rp_remove_last (render st) = (let o2 = a @ ''/'' in if length o2 > 1 then butlast o2 else o2)"
    using long s drop_tail_comp [OF c(2), of a] by (simp add: rp_remove_last_def r)
  also have "\<dots> = render st'" by (cases "st' = []") (auto simp: a_def render_def)
  finally show ?thesis using snoc by simp
qed

lemma good_resolve: "\<forall>c \<in> set st. good_comp c \<Longrightarrow> good_comp c \<Longrightarrow> \<forall>d \<in> set (resolve st c). good_comp d"
  by (auto simp: resolve_def dest: in_set_butlastD)

lemma render_root: "\<forall>c \<in> set st. good_comp c \<Longrightarrow> render st = ''/'' \<longleftrightarrow> st = []"
  by (cases st) (auto simp: render_def good_comp_def)

lemma comps_good: "c \<in> set (comps p) \<Longrightarrow> good_comp c"
proof (induction p rule: comps.induct)
  case (1 p)
  define q where "q = dropWhile (\<lambda>c. c = CHR ''/'') p"
  show ?case
  proof (cases "q = []")
    case True
    then show ?thesis using "1.prems" by (subst (asm) comps.simps) (simp add: q_def)
  next
    case False
    then have "hd q \<noteq> CHR ''/''" using hd_dropWhile [of "\<lambda>c. c = CHR ''/''" p] by (simp add: q_def)
    then have "good_comp (takeWhile (\<lambda>c. c \<noteq> CHR ''/'') q)"
      using False by (cases q) (auto simp: good_comp_def dest: set_takeWhileD)
    moreover have "c = takeWhile (\<lambda>c. c \<noteq> CHR ''/'') q \<or> c \<in> set (comps (dropWhile (\<lambda>c. c \<noteq> CHR ''/'') q))"
      using "1.prems" False by (subst (asm) comps.simps) (simp add: q_def [symmetric])
    ultimately show ?thesis using "1.IH" [of q] False q_def by auto
  qed
qed

lemma realpath_loop_resolves:
  "\<forall>c \<in> set (comps p). length c \<le> 255 \<Longrightarrow> \<forall>c \<in> set st. good_comp c \<Longrightarrow>
   realpath_loop p (render st) = (if fits st (comps p) then Some (render (foldl resolve st (comps p))) else None)"
proof (induction "length p" arbitrary: p st rule: less_induct)
  case less
  define q where "q = dropWhile (\<lambda>c. c = CHR ''/'') p"
  show ?case
  proof (cases "q = []")
    case True
    then show ?thesis by (subst realpath_loop.simps, subst (1 2) comps.simps) (simp add: q_def)
  next
    case False
    define c where "c = takeWhile (\<lambda>c. c \<noteq> CHR ''/'') q"
    define r where "r = dropWhile (\<lambda>c. c \<noteq> CHR ''/'') q"
    have cs: "comps p = c # comps r" using False by (subst comps.simps) (simp add: q_def [symmetric] c_def r_def)
    have "component q = c" using less.prems(1) cs by (simp add: component_def c_def [symmetric])
    moreover have "drop (length c) q = r" unfolding c_def r_def by (metis dropWhile_eq_drop)
    ultimately have eq: "realpath_loop p out = (if c = ''.'' then realpath_loop r out
        else if c = ''..'' then realpath_loop r (rp_remove_last out)
        else if length out + length c + 2 > PATHBUF_MAX then None
        else realpath_loop r (out @ (if out \<noteq> ''/'' then ''/'' else []) @ c))" for out
      using False by (subst realpath_loop.simps) (auto simp: q_def [symmetric] Let_def)
    have "length r < length p"
      using component_rest(2) [OF q_def [symmetric] False] \<open>component q = c\<close> \<open>drop (length c) q = r\<close> by metis
    then have ih: "\<forall>c \<in> set st'. good_comp c \<Longrightarrow> realpath_loop r (render st') =
        (if fits st' (comps r) then Some (render (foldl resolve st' (comps r))) else None)" for st'
      using less.hyps less.prems(1) cs by simp
    have gc: "good_comp c" using comps_good [of c p] cs by simp
    have app: "render st @ (if render st \<noteq> ''/'' then ''/'' else []) @ c = render (st @ [c])"
      using render_root [OF less.prems(2)] by (auto simp: render_snoc)
    show ?thesis
      using eq [of "render st"] ih [of "resolve st c"] good_resolve [OF less.prems(2) gc] app
        remove_last_render [OF less.prems(2)] unfolding cs
      by (auto simp: resolve_def)
  qed
qed

text \<open>The result fits the buffer, terminator included.\<close>

lemma render_fits:
  "length (render st) < PATHBUF_MAX \<Longrightarrow> \<forall>c \<in> set st. good_comp c \<Longrightarrow> fits st cs \<Longrightarrow> \<forall>c \<in> set cs. good_comp c \<Longrightarrow>
   length (render (foldl resolve st cs)) < PATHBUF_MAX"
proof (induction st cs rule: fits.induct)
  case (2 st c cs)
  have "length (render (butlast st)) \<le> length (render st)"
    by (cases st rule: rev_cases) (auto simp: render_snoc, simp add: render_def)
  then have "length (render (resolve st c)) < PATHBUF_MAX"
    using 2 by (auto simp: resolve_def render_snoc)
  then show ?case using 2 good_resolve [of st c] by auto
qed simp

section \<open>\<open>mkostemp\<close>\<close>

definition O_RDWR :: nat where "O_RDWR = 0x0002"
definition O_CREAT :: nat where "O_CREAT = 0x0040"
definition O_EXCL :: nat where "O_EXCL = 0x0080"

definition temp_chars :: string where
  "temp_chars = ''abcdefghijklmnopqrstuvwxyz0123456789''"

text \<open>The attempts: each one has the six bytes that \<open>getrandom\<close> gives (\<open>None\<close> when it falls short) and
  what \<open>open\<close> answers for a name and flags.  The result is the descriptor and the name in the
  template.\<close>

fun temp_attempts ::
  "(string \<Rightarrow> nat \<Rightarrow> int) \<Rightarrow> nat \<Rightarrow> string \<Rightarrow> string \<Rightarrow> nat list option list \<Rightarrow> (int + int) \<times> string" where
  "temp_attempts opn flags stem nm [] = (Inl EEXIST, nm)"
| "temp_attempts opn flags stem nm (None # rs) = (Inl EEXIST, nm)"
| "temp_attempts opn flags stem nm (Some rnd # rs) =
     (let nm' = stem @ map (\<lambda>b. temp_chars ! (b mod 36)) rnd;
          fd = opn nm' (or (or O_RDWR O_CREAT) flags)
      in if fd \<ge> 0 then (Inr fd, nm') else temp_attempts opn flags stem nm' rs)"

definition mkostemp :: "(string \<Rightarrow> nat \<Rightarrow> int) \<Rightarrow> nat list option list \<Rightarrow> string option \<Rightarrow> nat \<Rightarrow> (int + int) \<times> string option" where
  "mkostemp opn rnds tmpl flags = (case tmpl of None \<Rightarrow> (Inl EINVAL, None)
     | Some t \<Rightarrow>
       if length t < 6 \<or> drop (length t - 6) t \<noteq> ''XXXXXX'' then (Inl EINVAL, tmpl)
       else let (r, nm) = temp_attempts opn flags (take (length t - 6) t) t (take 128 rnds) in (r, Some nm))"

definition mkstemp :: "(string \<Rightarrow> nat \<Rightarrow> int) \<Rightarrow> nat list option list \<Rightarrow> string option \<Rightarrow> (int + int) \<times> string option" where
  "mkstemp opn rnds tmpl = mkostemp opn rnds tmpl 0"

lemma temp_chars_mod: "temp_chars ! (b mod 36) \<in> set temp_chars"
  by (intro nth_mem) (simp add: temp_chars_def)

lemma temp_attempts_name:
  "temp_attempts opn flags stem nm rs = (Inr fd, nm') \<Longrightarrow> (\<forall>r. Some r \<in> set rs \<longrightarrow> length r = 6) \<Longrightarrow>
   fd = opn nm' (or (or O_RDWR O_CREAT) flags) \<and> 0 \<le> fd \<and>
   (\<exists>x. nm' = stem @ x \<and> length x = 6 \<and> set x \<subseteq> set temp_chars)"
proof (induction opn flags stem nm rs rule: temp_attempts.induct)
  case (3 opn flags stem nm rnd rs)
  let ?x = "map (\<lambda>b. temp_chars ! (b mod 36)) rnd"
  have x: "length ?x = 6" "set ?x \<subseteq> set temp_chars" using 3(3) temp_chars_mod by auto
  show ?case
  proof (cases "opn (stem @ ?x) (or (or O_RDWR O_CREAT) flags) \<ge> 0")
    case True
    then show ?thesis using 3(2) x by (auto simp: Let_def)
  next
    case False
    then show ?thesis using 3(1) [OF refl refl] 3(2,3) by (auto simp: Let_def)
  qed
qed simp_all

text \<open>The file is opened without \<open>O_EXCL\<close>: a name that exists already is accepted.\<close>

lemma mkstemp_reuses:
  assumes "opn (stem @ ''aaaaaa'') (or O_RDWR O_CREAT) = fd" "0 \<le> fd"
  shows "mkstemp opn (Some [0, 0, 0, 0, 0, 0] # rs) (Some (stem @ ''XXXXXX'')) = (Inr fd, Some (stem @ ''aaaaaa''))"
  using assms by (simp add: mkstemp_def mkostemp_def temp_chars_def)

lemma mkstemp_not_exclusive: "and (or O_RDWR O_CREAT) O_EXCL = 0"
  by (simp add: O_RDWR_def O_CREAT_def O_EXCL_def)

end
