(* ===== verification/Cact_Process.thy ===== *)
theory Cact_Process
  imports Cact_Errno
begin

text \<open>
  Handlers and process-wide settings: \<open>atexit\<close> and \<open>exit\<close> of \<open>src/stdlib.c\<close>, \<open>src/atfork.c\<close>,
  \<open>src/locale.c\<close> and \<open>src/sched.c\<close>.
\<close>

section \<open>A registry of handlers with a fixed capacity\<close>

text \<open>What both handler tables promise: a handler that is accepted comes last, and one is refused
  exactly when the table is full or the handler is not admissible.\<close>

locale handler_registry =
  fixes registered :: "'s \<Rightarrow> 'h list"
    and register :: "'h \<Rightarrow> 's \<Rightarrow> 's \<times> bool"
    and admissible :: "'h \<Rightarrow> bool"
    and capacity :: nat
  assumes accepts: "admissible h \<Longrightarrow> length (registered s) < capacity \<Longrightarrow>
      snd (register h s) \<and> registered (fst (register h s)) = registered s @ [h]"
    and refuses: "\<not> admissible h \<or> capacity \<le> length (registered s) \<Longrightarrow> register h s = (s, False)"
begin

lemma register_bound: "length (registered s) \<le> capacity \<Longrightarrow> length (registered (fst (register h s))) \<le> capacity"
  by (cases "admissible h \<and> length (registered s) < capacity") (auto simp: accepts refuses)

definition register_all :: "'h list \<Rightarrow> 's \<Rightarrow> 's" where
  "register_all hs s = foldl (\<lambda>s h. fst (register h s)) s hs"

lemma registered_all:
  "length (registered s) \<le> capacity \<Longrightarrow>
   registered (register_all hs s) = registered s @ take (capacity - length (registered s)) (filter admissible hs)"
  unfolding register_all_def
proof (induction hs arbitrary: s)
  case (Cons h hs)
  show ?case
  proof (cases "admissible h \<and> length (registered s) < capacity")
    case True
    then have r: "registered (fst (register h s)) = registered s @ [h]" using accepts by blast
    then have "length (registered (fst (register h s))) \<le> capacity" using True by simp
    then show ?thesis using Cons.IH [of "fst (register h s)"] r True by (simp add: take_Cons' Suc_diff_Suc)
  next
    case False
    then have "register h s = (s, False)" using refuses by (meson not_less)
    then show ?thesis using Cons False by auto
  qed
qed simp

end

section \<open>\<open>atexit\<close> and \<open>exit\<close>\<close>

definition ATEXIT_MAX :: nat where "ATEXIT_MAX = 32"

text \<open>A handler is the address of its function; the state is the table and the rest of the process.\<close>

record 'w exit_state =
  atexit_handlers :: "nat list"
  eworld :: 'w
  eerrno :: int

definition atexit :: "nat \<Rightarrow> 'w exit_state \<Rightarrow> 'w exit_state \<times> int" where
  "atexit f s =
     (if f = 0 \<or> length (atexit_handlers s) \<ge> ATEXIT_MAX then (s\<lparr>eerrno := ENOMEM\<rparr>, -1)
      else (s\<lparr>atexit_handlers := atexit_handlers s @ [f]\<rparr>, 0))"

text \<open>\<open>exit\<close> up to the system call: the table is emptied from its end, each entry before it is
  called.  \<open>run\<close> is what a handler does; it may register others, so that the loop need not end.\<close>

partial_function (option) exit_loop ::
  "(nat \<Rightarrow> 'w exit_state \<Rightarrow> 'w exit_state) \<Rightarrow> 'w exit_state \<Rightarrow> 'w exit_state option" where
  "exit_loop run s =
     (if atexit_handlers s = [] then Some s
      else exit_loop run (run (last (atexit_handlers s)) (s\<lparr>atexit_handlers := butlast (atexit_handlers s)\<rparr>)))"

definition atexit_register :: "nat \<Rightarrow> 'w exit_state \<Rightarrow> 'w exit_state \<times> bool" where
  "atexit_register f s = (let (s', r) = atexit f s in if r = 0 then (s', True) else (s, False))"

interpretation exit_table: handler_registry "atexit_handlers :: 'w exit_state \<Rightarrow> nat list" atexit_register "\<lambda>f. f \<noteq> 0" ATEXIT_MAX
  by unfold_locales (auto simp: atexit_register_def atexit_def)

lemma exit_loop_order:
  assumes quiet: "\<And>f s. atexit_handlers (run f s) = atexit_handlers s"
  shows "\<exists>s'. exit_loop run s = Some s' \<and> atexit_handlers s' = [] \<and>
    (\<forall>act. (\<forall>f t. eworld (run f t) = act f (eworld t)) \<longrightarrow>
       eworld s' = foldl (\<lambda>w f. act f w) (eworld s) (rev (atexit_handlers s)))"
proof (induction "atexit_handlers s" arbitrary: s rule: rev_induct)
  case Nil
  then show ?case by (subst exit_loop.simps) simp
next
  case (snoc f fs)
  let ?t = "run f (s\<lparr>atexit_handlers := fs\<rparr>)"
  have h: "atexit_handlers s = fs @ [f]" using snoc.hyps(2) by simp
  have t: "atexit_handlers ?t = fs" using quiet by simp
  have e: "exit_loop run s = exit_loop run ?t" using h by (subst exit_loop.simps) simp
  obtain s' where s': "exit_loop run ?t = Some s'" "atexit_handlers s' = []"
    "\<forall>act. (\<forall>f t. eworld (run f t) = act f (eworld t)) \<longrightarrow> eworld s' = foldl (\<lambda>w f. act f w) (eworld ?t) (rev fs)"
    using snoc.hyps(1) [OF t [symmetric]] t by auto
  then show ?case using e h by (auto simp: s'(3))
qed

section \<open>\<open>pthread_atfork\<close>\<close>

definition ATFORK_MAX :: nat where "ATFORK_MAX = 32"

record atfork_entry =
  prepare :: nat
  parent :: nat
  child :: nat

definition pthread_atfork :: "nat \<Rightarrow> nat \<Rightarrow> nat \<Rightarrow> atfork_entry list \<Rightarrow> atfork_entry list \<times> int" where
  "pthread_atfork p q c g =
     (if length g \<ge> ATFORK_MAX then (g, ENOMEM)
      else (g @ [\<lparr>prepare = p, parent = q, child = c\<rparr>], 0))"

text \<open>The three hooks of \<open>fork\<close>: the handlers that are called, in the order of the calls.\<close>

definition atfork_prepare :: "atfork_entry list \<Rightarrow> nat list" where
  "atfork_prepare g = filter (\<lambda>f. f \<noteq> 0) (map (\<lambda>i. prepare (g ! i)) (rev [0..<length g]))"

definition atfork_parent :: "atfork_entry list \<Rightarrow> nat list" where
  "atfork_parent g = filter (\<lambda>f. f \<noteq> 0) (map (\<lambda>i. parent (g ! i)) [0..<length g])"

definition atfork_child :: "atfork_entry list \<Rightarrow> nat list" where
  "atfork_child g = filter (\<lambda>f. f \<noteq> 0) (map (\<lambda>i. child (g ! i)) [0..<length g])"

definition atfork_register :: "atfork_entry \<Rightarrow> atfork_entry list \<Rightarrow> atfork_entry list \<times> bool" where
  "atfork_register e g = (let (g', r) = pthread_atfork (prepare e) (parent e) (child e) g in (g', r = 0))"

interpretation fork_table: handler_registry "\<lambda>g. g" atfork_register "\<lambda>_. True" ATFORK_MAX
  by unfold_locales (auto simp: atfork_register_def pthread_atfork_def ENOMEM_def)

lemma map_nth_upt: "map (\<lambda>i. f (xs ! i)) [0..<length xs] = map f xs"
  by (auto intro: nth_equalityI)

text \<open>The prepare handlers run in the reverse order of registration, the others in its order.\<close>

lemma atfork_orders:
  fixes es :: "atfork_entry list"
  assumes "length es \<le> ATFORK_MAX"
  defines "g \<equiv> fork_table.register_all es []"
  shows "atfork_prepare g = rev (filter (\<lambda>f. f \<noteq> 0) (map prepare es))"
    "atfork_parent g = filter (\<lambda>f. f \<noteq> 0) (map parent es)" "atfork_child g = filter (\<lambda>f. f \<noteq> 0) (map child es)"
proof -
  have g: "g = es" using fork_table.registered_all [of "[]" es] assms(1) by (simp add: g_def)
  show "atfork_prepare g = rev (filter (\<lambda>f. f \<noteq> 0) (map prepare es))"
    by (simp add: atfork_prepare_def g rev_map [symmetric] map_nth_upt rev_filter)
  show "atfork_parent g = filter (\<lambda>f. f \<noteq> 0) (map parent es)" "atfork_child g = filter (\<lambda>f. f \<noteq> 0) (map child es)"
    by (simp_all add: atfork_parent_def atfork_child_def g map_nth_upt)
qed

section \<open>Locale and scheduling\<close>

definition c_names :: "string list" where
  "c_names = [''C'', ''POSIX'', ''C.UTF-8'']"

definition setlocale :: "string option \<Rightarrow> string option" where
  "setlocale loc = (case loc of None \<Rightarrow> Some ''C''
     | Some l \<Rightarrow> if l = [] \<or> l \<in> set c_names then Some ''C'' else None)"

definition names_self :: "int \<Rightarrow> int \<Rightarrow> bool" where
  "names_self self pid \<longleftrightarrow> pid = 0 \<or> pid = self"

definition policy_supported :: "int \<Rightarrow> bool" where
  "policy_supported p \<longleftrightarrow> p = 0"

text \<open>The calls return a value or set \<open>errno\<close>; a null parameter is \<open>None\<close>.\<close>

definition sched_setscheduler :: "int \<Rightarrow> int \<Rightarrow> int \<Rightarrow> int option \<Rightarrow> int + int" where
  "sched_setscheduler self pid pol param =
     (if pid < 0 \<or> param = None then Inl EINVAL
      else if \<not> policy_supported pol then Inl EINVAL
      else if param \<noteq> Some 0 then Inl EINVAL
      else if \<not> names_self self pid then Inl EPERM else Inr 0)"

definition sched_getscheduler :: "int \<Rightarrow> int \<Rightarrow> int + int" where
  "sched_getscheduler self pid =
     (if pid < 0 then Inl EINVAL else if \<not> names_self self pid then Inl EPERM else Inr 0)"

definition sched_setparam :: "int \<Rightarrow> int \<Rightarrow> int option \<Rightarrow> int + int" where
  "sched_setparam self pid param =
     (if pid < 0 \<or> param = None then Inl EINVAL
      else if param \<noteq> Some 0 then Inl EINVAL
      else if \<not> names_self self pid then Inl EPERM else Inr 0)"

definition sched_getparam :: "int \<Rightarrow> int \<Rightarrow> bool \<Rightarrow> int + int" where
  "sched_getparam self pid has_param =
     (if pid < 0 \<or> \<not> has_param then Inl EINVAL else if \<not> names_self self pid then Inl EPERM else Inr 0)"

definition sched_get_priority_max :: "int \<Rightarrow> int + int" where
  "sched_get_priority_max pol = (if \<not> policy_supported pol then Inl EINVAL else Inr 0)"

definition sched_get_priority_min :: "int \<Rightarrow> int + int" where
  "sched_get_priority_min pol = (if \<not> policy_supported pol then Inl EINVAL else Inr 0)"

definition sched_rr_get_interval :: "int \<Rightarrow> bool \<Rightarrow> int + int" where
  "sched_rr_get_interval pid has_interval = (if pid < 0 \<or> \<not> has_interval then Inl EINVAL else Inl EINVAL)"

end
