(* ===== verification/Cact_Calendar.thy ===== *)
theory Cact_Calendar
  imports Cact_Prelude
begin

text \<open>
  The civil calendar of \<open>src/time.c\<close> and \<open>src/tz.c\<close>: day numbers, broken-down time and back.  Both
  files have their own copy of the day count (\<open>_days_from_civil\<close>, \<open>days_from_civil\<close>) and of the
  leap-year rule, with the same text.  \<open>long\<close> is 32 bits wide; where a product can leave that
  range the wrap-around is written out.
\<close>

section \<open>Day numbers\<close>

record tm =
  tm_sec :: int
  tm_min :: int
  tm_hour :: int
  tm_mday :: int
  tm_mon :: int
  tm_year :: int
  tm_wday :: int
  tm_yday :: int
  tm_isdst :: int

definition is_leap :: "int \<Rightarrow> bool" where
  "is_leap y \<longleftrightarrow> y smod 4 = 0 \<and> (y smod 100 \<noteq> 0 \<or> y smod 400 = 0)"

definition month_days :: "int list" where
  "month_days = [31, 28, 31, 30, 31, 30, 31, 31, 30, 31, 30, 31]"

definition days_in_month :: "int \<Rightarrow> int \<Rightarrow> int" where
  "days_in_month y m = (if m = 2 \<and> is_leap y then 29 else month_days ! nat (m - 1))"

definition days_from_civil :: "int \<Rightarrow> int \<Rightarrow> int \<Rightarrow> int" where
  "days_from_civil y0 m d =
     (let y = y0 - (if m \<le> 2 then 1 else 0);
          era = (if y \<ge> 0 then y else y - 399) sdiv 400;
          yoe = y - era * 400;
          mp = (m + 9) smod 12;
          doy = (153 * mp + 2) div 5 + d - 1;
          doe = yoe * 365 + yoe div 4 - yoe div 100 + doy
      in era * 146097 + doe - 719468)"

definition weekday_of :: "int \<Rightarrow> int" where
  "weekday_of days = (let w = (days + 4) smod 7 in if w < 0 then w + 7 else w)"

section \<open>Broken-down time\<close>

definition year_days :: "int \<Rightarrow> int" where
  "year_days y = (if is_leap y then 366 else 365)"

lemma year_days_pos [simp]: "0 < year_days y" "year_days y \<le> 366" "365 \<le> year_days y"
  by (simp_all add: year_days_def)

function year_up :: "int \<Rightarrow> int \<Rightarrow> int \<times> int" where
  "year_up y days = (if days < year_days y then (y, days) else year_up (y + 1) (days - year_days y))"
  by pat_completeness auto
termination
proof (relation "measure (\<lambda>(y, days). nat days)", goal_cases)
  case (2 y days)
  then have "days - year_days y < days" "0 < days" using year_days_pos(1) [of y] by linarith+
  then show ?case by auto
qed simp

function year_down :: "int \<Rightarrow> int \<Rightarrow> int \<times> int" where
  "year_down y days = (let days' = days + year_days y in if days' \<ge> 0 then (y, days') else year_down (y - 1) days')"
  by pat_completeness auto
termination
proof (relation "measure (\<lambda>(y, days). nat (- days))", goal_cases)
  case (2 y days x)
  then have "days < 0" "- x < - days" using year_days_pos(1) [of y] by linarith+
  then show ?case by auto
qed simp

declare year_up.simps [simp del] year_down.simps [simp del]

function month_loop :: "int \<Rightarrow> nat \<Rightarrow> int \<Rightarrow> nat \<times> int" where
  "month_loop y m days =
     (if m < 12 then
        let d = (if m = 1 \<and> is_leap y then 29 else month_days ! m)
        in if days < d then (m, days) else month_loop y (Suc m) (days - d)
      else (m, days))"
  by pat_completeness auto
termination
  by (relation "measure (\<lambda>(y, m, days). 12 - m)") auto

declare month_loop.simps [simp del]

definition fill_gmtime :: "int \<Rightarrow> tm" where
  "fill_gmtime t =
     (let days0 = t sdiv 86400;
          rem0 = t smod 86400;
          (days, rem) = (if rem0 < 0 then (days0 - 1, rem0 + 86400) else (days0, rem0));
          (y, yday) = (if days \<ge> 0 then year_up 1970 days else year_down 1969 days);
          (m, mday) = month_loop y 0 yday
      in \<lparr>tm_sec = rem smod 60, tm_min = (rem sdiv 60) smod 60, tm_hour = (rem sdiv 60) sdiv 60,
          tm_mday = mday + 1, tm_mon = int m, tm_year = y - 1900,
          tm_wday = weekday_of days, tm_yday = yday, tm_isdst = 0\<rparr>)"

definition civil_seconds :: "tm \<Rightarrow> int" where
  "civil_seconds tm = s32 (days_from_civil (tm_year tm + 1900) (tm_mon tm + 1) (tm_mday tm) * 86400
     + tm_hour tm * 3600 + tm_min tm * 60 + tm_sec tm)"

section \<open>The day count is the calendar's\<close>

lemma smod_div: "0 \<le> x \<Longrightarrow> 0 < k \<Longrightarrow> x smod k = x mod k" "0 \<le> x \<Longrightarrow> 0 < k \<Longrightarrow> x sdiv k = x div k" for x k :: int
  by (simp_all add: signed_divide_int_def signed_modulo_int_def sgn_if)

lemma sdiv_neg: "x \<le> 0 \<Longrightarrow> 0 < k \<Longrightarrow> x sdiv k = - ((- x) div k)" "x \<le> 0 \<Longrightarrow> 0 < k \<Longrightarrow> x smod k = - ((- x) mod k)" for x k :: int
  by (auto simp: signed_divide_int_def signed_modulo_int_def sgn_if minus_mod_eq_mult_div)

lemma smod_eq_0: "0 < k \<Longrightarrow> x smod k = 0 \<longleftrightarrow> x mod k = 0" for x k :: int
  by (auto simp: signed_modulo_int_def sgn_if mod_eq_0_iff_dvd)

lemma is_leap_mod: "is_leap y \<longleftrightarrow> y mod 4 = 0 \<and> (y mod 100 \<noteq> 0 \<or> y mod 400 = 0)"
  by (simp add: is_leap_def smod_eq_0)

lemma era_floor: "(if y \<ge> 0 then y else y - 399) sdiv 400 = y div 400" for y :: int
proof (cases "0 \<le> y")
  case False
  then have "(y - 399) sdiv 400 = - ((399 - y) div 400)" by (simp add: sdiv_neg)
  also have "(399 - y) div 400 = - (y div 400)"
  proof (rule int_div_pos_eq)
    have "a * 400 + b = y \<Longrightarrow> 399 - y = 400 * (- a) + (399 - b)" for a b by simp
    then show "399 - y = 400 * (- (y div 400)) + (399 - y mod 400)" using div_mult_mod_eq [of y 400] by blast
    show "0 \<le> 399 - y mod 400" "399 - y mod 400 < 400"
      using pos_mod_bound [of 400 y] pos_mod_sign [of 400 y] by linarith+
  qed
  finally show ?thesis using False by simp
qed (simp add: smod_div)

definition march_days :: "int \<Rightarrow> int" where
  "march_days y = 365 * y + y div 4 - y div 100 + y div 400"

lemma era_march:
  fixes y :: int
  shows "y div 400 * 146097 + (y mod 400 * 365 + y mod 400 div 4 - y mod 400 div 100) = march_days y"
proof -
  define q r where "q = y div 400" and "r = y mod 400"
  have y: "y = 400 * q + r" by (simp add: q_def r_def)
  have 4: "a * 4 + b = r \<Longrightarrow> y = 4 * (100 * q + a) + b" for a b :: int using y by simp
  have 100: "a * 100 + b = r \<Longrightarrow> y = 100 * (4 * q + a) + b" for a b :: int using y by simp
  have "y div 4 = 100 * q + r div 4" by (rule int_div_pos_eq [OF 4 [OF div_mult_mod_eq]]) simp_all
  moreover have "y div 100 = 4 * q + r div 100" by (rule int_div_pos_eq [OF 100 [OF div_mult_mod_eq]]) simp_all
  ultimately show ?thesis unfolding march_days_def q_def [symmetric] r_def [symmetric] by (simp add: y)
qed

lemma days_from_civil_march:
  assumes "1 \<le> m"
  shows "days_from_civil y m d =
     march_days (y - (if m \<le> 2 then 1 else 0)) + (153 * ((m + 9) mod 12) + 2) div 5 + d - 719469"
proof -
  have mp: "(m + 9) smod 12 = (m + 9) mod 12" using assms by (intro smod_div(1)) auto
  have alg: "A + B = E \<Longrightarrow> A + (B + (C + d - 1)) - 719468 = E + C + d - 719469" for A B C E :: int by simp
  show ?thesis
    unfolding days_from_civil_def Let_def era_floor minus_div_mult_eq_mod mp by (rule alg [OF era_march])
qed

lemma div_carry: "0 < k \<Longrightarrow> (y + 1) div k = y div k + (if (y + 1) mod k = 0 then 1 else 0)" for y k :: int
proof -
  assume k: "0 < k"
  define q r where "q = (y + 1) div k" and "r = (y + 1) mod k"
  have y: "y = q * k + (r - 1)" using div_mult_mod_eq [of "y + 1" k] unfolding q_def r_def by linarith
  have r: "0 \<le> r" "r < k" using k by (simp_all add: r_def)
  have "y div k = (if r = 0 then q - 1 else q)"
  proof (cases "r = 0")
    case True
    then have "y = (q - 1) * k + (k - 1)" using y by (simp add: algebra_simps)
    then show ?thesis using k True by (simp add: div_pos_pos_trivial)
  next
    case False
    then have "0 \<le> r - 1" "r - 1 < k" using r by auto
    then show ?thesis using y False by (simp add: div_pos_pos_trivial)
  qed
  then show "(y + 1) div k = y div k + (if (y + 1) mod k = 0 then 1 else 0)"
    unfolding q_def r_def by auto
qed

lemma march_days_step: "march_days (y + 1) = march_days y + year_days (y + 1)"
proof -
  have a: "(y + 1) mod 400 = 0 \<Longrightarrow> (y + 1) mod 100 = 0" unfolding mod_eq_0_iff_dvd by (rule dvd_trans [of 100 400]) simp_all
  have b: "(y + 1) mod 100 = 0 \<Longrightarrow> (y + 1) mod 4 = 0" unfolding mod_eq_0_iff_dvd by (rule dvd_trans [of 4 100]) simp_all
  have d: "(y + 1) div 4 = y div 4 + of_bool ((y + 1) mod 4 = 0)" "(y + 1) div 100 = y div 100 + of_bool ((y + 1) mod 100 = 0)"
    "(y + 1) div 400 = y div 400 + of_bool ((y + 1) mod 400 = 0)"
    using div_carry [of 4 y] div_carry [of 100 y] div_carry [of 400 y] by (simp_all only: of_bool_def)
  have yd: "year_days (y + 1) = 365 + of_bool ((y + 1) mod 4 = 0) - of_bool ((y + 1) mod 100 = 0) + of_bool ((y + 1) mod 400 = 0)"
    using a b unfolding year_days_def is_leap_mod
    by (cases "(y + 1) mod 4 = 0"; cases "(y + 1) mod 100 = 0"; cases "(y + 1) mod 400 = 0") simp_all
  show ?thesis unfolding march_days_def d yd by (simp only: algebra_simps)
qed

lemma days_epoch: "days_from_civil 1970 1 1 = 0"
  by (simp add: days_from_civil_march march_days_def)

lemma days_next_year: "days_from_civil (y + 1) 1 1 = days_from_civil y 1 1 + year_days y"
  using march_days_step [of "y - 1"] by (simp add: days_from_civil_march)

lemma days_next_day: "days_from_civil y m (d + 1) = days_from_civil y m d + 1"
  by (simp add: days_from_civil_def Let_def)

lemma days_next_month:
  assumes "1 \<le> m" "m < 12"
  shows "days_from_civil y (m + 1) 1 = days_from_civil y m 1 + days_in_month y m"
proof -
  have "m \<in> {1, 2, 3, 4, 5, 6, 7, 8, 9, 10, 11}" using assms unfolding insert_iff empty_iff by arith
  then show ?thesis
    using march_days_step [of "y - 1"]
    by (auto simp: days_from_civil_march days_in_month_def month_days_def year_days_def)
qed

lemma days_december: "days_from_civil (y + 1) 1 1 = days_from_civil y 12 1 + 31"
  by (simp add: days_from_civil_march)

lemma days_of_month: "days_from_civil y m d = days_from_civil y m 1 + (d - 1)"
  by (simp add: days_from_civil_def Let_def)

lemma month_end:
  assumes "1 \<le> m" "m \<le> 12"
  shows "days_from_civil y m 1 + days_in_month y m = (if m = 12 then days_from_civil (y + 1) 1 1 else days_from_civil y (m + 1) 1)"
  using assms days_december [of y] days_next_month [of m y] by (auto simp: days_in_month_def month_days_def)

section \<open>The broken-down time is right\<close>

lemma year_up_spec:
  "0 \<le> days \<Longrightarrow> year_up y days = (y', d) \<Longrightarrow>
   0 \<le> d \<and> d < year_days y' \<and> days_from_civil y' 1 1 + d = days_from_civil y 1 1 + days"
proof (induction y days rule: year_up.induct)
  case (1 y days)
  show ?case
  proof (cases "days < year_days y")
    case True
    then show ?thesis using 1 by (subst (asm) year_up.simps) simp
  next
    case False
    then have "year_up (y + 1) (days - year_days y) = (y', d)" using 1(3) by (subst (asm) year_up.simps) simp
    then show ?thesis using 1(1) [OF False] False days_next_year [of y] by simp
  qed
qed

lemma year_down_spec:
  "days < 0 \<Longrightarrow> year_down y days = (y', d) \<Longrightarrow>
   0 \<le> d \<and> d < year_days y' \<and> days_from_civil y' 1 1 + d = days_from_civil (y + 1) 1 1 + days"
proof (induction y days rule: year_down.induct)
  case (1 y days)
  show ?case
  proof (cases "days + year_days y \<ge> 0")
    case True
    then show ?thesis using 1 days_next_year [of y] by (subst (asm) year_down.simps) (auto simp: Let_def)
  next
    case False
    then have "year_down (y - 1) (days + year_days y) = (y', d)" using 1(3) by (subst (asm) year_down.simps) (simp add: Let_def)
    then show ?thesis using 1(1) [OF refl False] False days_next_year [of y] by simp
  qed
qed

lemma month_loop_spec:
  "m < 12 \<Longrightarrow> 0 \<le> days \<Longrightarrow> days_from_civil y (int m + 1) 1 + days < days_from_civil (y + 1) 1 1 \<Longrightarrow>
   month_loop y m days = (m', d) \<Longrightarrow>
   m' < 12 \<and> 0 \<le> d \<and> d < days_in_month y (int m' + 1) \<and>
   days_from_civil y (int m' + 1) 1 + d = days_from_civil y (int m + 1) 1 + days"
proof (induction y m days rule: month_loop.induct)
  case (1 y m days)
  let ?d = "days_in_month y (int m + 1)"
  have d: "(if m = 1 \<and> is_leap y then 29 else month_days ! m) = ?d" by (auto simp: days_in_month_def)
  have eq: "month_loop y m days = (if days < ?d then (m, days) else month_loop y (Suc m) (days - ?d))"
    using 1(2) by (subst month_loop.simps) (simp only: Let_def d if_True)
  show ?case
  proof (cases "days < ?d")
    case True
    then show ?thesis using 1(2-5) eq by auto
  next
    case False
    have e: "days_from_civil y (int m + 1) 1 + ?d = (if int m + 1 = 12 then days_from_civil (y + 1) 1 1 else days_from_civil y (int m + 1 + 1) 1)"
      using 1(2) by (intro month_end) auto
    then have m: "Suc m < 12" using 1(2,4) False by (auto split: if_splits)
    then have e': "days_from_civil y (int (Suc m) + 1) 1 = days_from_civil y (int m + 1) 1 + ?d" using e by (simp add: add.commute)
    have ih: "month_loop y (Suc m) (days - ?d) = (m', d) \<Longrightarrow>
        m' < 12 \<and> 0 \<le> d \<and> d < days_in_month y (int m' + 1) \<and>
        days_from_civil y (int m' + 1) 1 + d = days_from_civil y (int (Suc m) + 1) 1 + (days - ?d)"
      using False m 1(3,4) by (intro 1(1) [OF 1(2) refl, unfolded d]) (simp_all only: e', simp_all)
    have "month_loop y (Suc m) (days - ?d) = (m', d)" using eq False 1(5) by simp
    from ih [OF this] show ?thesis unfolding e' by simp
  qed
qed

definition valid_tm :: "tm \<Rightarrow> bool" where
  "valid_tm tm \<longleftrightarrow> 0 \<le> tm_sec tm \<and> tm_sec tm < 60 \<and> 0 \<le> tm_min tm \<and> tm_min tm < 60 \<and> 0 \<le> tm_hour tm \<and> tm_hour tm < 24 \<and>
     0 \<le> tm_mon tm \<and> tm_mon tm < 12 \<and> 1 \<le> tm_mday tm \<and> tm_mday tm \<le> days_in_month (tm_year tm + 1900) (tm_mon tm + 1)"

definition tm_day :: "tm \<Rightarrow> int" where
  "tm_day tm = days_from_civil (tm_year tm + 1900) (tm_mon tm + 1) (tm_mday tm)"

definition tm_seconds :: "tm \<Rightarrow> int" where
  "tm_seconds tm = tm_day tm * 86400 + tm_hour tm * 3600 + tm_min tm * 60 + tm_sec tm"

lemma civil_seconds_wraps: "civil_seconds tm = s32 (tm_seconds tm)"
  by (simp add: civil_seconds_def tm_seconds_def tm_day_def)

lemma smod_floor: "0 < b \<Longrightarrow> (if a smod b < 0 then a smod b + b else a smod b) = a mod b" for a b :: int
proof -
  assume b: "0 < b"
  have e: "(a smod b) mod b = a mod b" using b by (simp add: signed_modulo_int_def sgn_if mod_minus_eq abs_if)
  have l: "- b < a smod b" "a smod b < b"
    using b pos_mod_bound [of b "- a"] pos_mod_bound [of b a] pos_mod_sign [of b a] pos_mod_sign [of b "- a"]
    unfolding signed_modulo_int_def sgn_if abs_if by (simp_all split: if_splits del: pos_mod_bound pos_mod_sign)
  show ?thesis
  proof (cases "a smod b < 0")
    case True
    then have "(a smod b + b) mod b = a smod b + b" using l by (intro mod_pos_pos_trivial) auto
    then show ?thesis using e True by simp
  next
    case False
    then have "(a smod b) mod b = a smod b" using l by (intro mod_pos_pos_trivial) auto
    then show ?thesis using e False by simp
  qed
qed

lemma sdiv_floor: "0 < b \<Longrightarrow> (if a smod b < 0 then a sdiv b - 1 else a sdiv b) = a div b" for a b :: int
proof -
  assume b: "0 < b"
  define c where "c = (if a smod b < 0 then 1 else 0 :: int)"
  have m: "a smod b + c * b = a mod b" using smod_floor [OF b, of a] by (simp add: c_def split: if_splits)
  have "(a sdiv b - c) * b + (a smod b + c * b) = (a sdiv b) * b + a smod b" by (simp add: algebra_simps)
  also have "\<dots> = (a div b) * b + a mod b" by (simp add: sdiv_mult_smod_eq)
  finally have "(a sdiv b - c) * b = (a div b) * b" unfolding m by (simp only: add_right_cancel)
  then show ?thesis using b by (simp add: c_def split: if_splits)
qed

lemma floor_day: "(if t smod 86400 < 0 then (t sdiv 86400 - 1, t smod 86400 + 86400) else (t sdiv 86400, t smod 86400)) =
    (t div 86400, t mod 86400)" for t :: int
  using smod_floor [of 86400 t] sdiv_floor [of 86400 t] by (auto split: if_splits)

lemma weekday_of_mod: "weekday_of days = (days + 4) mod 7"
  using smod_floor [of 7 "days + 4"] by (simp add: weekday_of_def Let_def)

lemma hms_alg: "q * 60 + s = r \<Longrightarrow> h * 60 + m = q \<Longrightarrow> h * 3600 + m * 60 + s = r" for q :: int
  by auto

lemma hms: "r div 60 div 60 * 3600 + (r div 60) mod 60 * 60 + r mod 60 = r" for r :: int
  by (rule hms_alg [OF div_mult_mod_eq div_mult_mod_eq])

lemma sixty: "0 < (60 :: int)"
  by simp

lemma hour_bound: "0 \<le> r \<Longrightarrow> r < 86400 \<Longrightarrow> 0 \<le> r div 60 div 60 \<and> r div 60 div 60 < 24" for r :: int
  by (simp add: zdiv_zmult2_eq [symmetric] div_int_pos_iff)

lemma fill_gmtime_spec:
  "valid_tm (fill_gmtime t) \<and> tm_seconds (fill_gmtime t) = t \<and> tm_wday (fill_gmtime t) = (t div 86400 + 4) mod 7 \<and>
   days_from_civil (tm_year (fill_gmtime t) + 1900) 1 1 + tm_yday (fill_gmtime t) = t div 86400 \<and>
   0 \<le> tm_yday (fill_gmtime t) \<and> tm_yday (fill_gmtime t) < year_days (tm_year (fill_gmtime t) + 1900) \<and>
   tm_isdst (fill_gmtime t) = 0"
proof -
  define days rem where "days = t div 86400" and "rem = t mod 86400"
  obtain y yd where yd: "(if days \<ge> 0 then year_up 1970 days else year_down 1969 days) = (y, yd)" by force
  have y: "0 \<le> yd \<and> yd < year_days y \<and> days_from_civil y 1 1 + yd = days"
    using yd year_up_spec [of days 1970 y yd] year_down_spec [of days 1969 y yd] days_epoch by (auto split: if_splits)
  obtain m md where m: "month_loop y 0 yd = (m, md)" by force
  have m2: "m < 12 \<and> 0 \<le> md \<and> md < days_in_month y (int m + 1) \<and> days_from_civil y (int m + 1) 1 + md = days"
    using month_loop_spec [of 0 yd y m md] y m days_next_year [of y] by simp
  have rem: "0 \<le> rem" "rem < 86400" by (simp_all add: rem_def)
  have r60: "0 \<le> rem div 60" using rem by (simp add: div_int_pos_iff)
  have g: "fill_gmtime t = \<lparr>tm_sec = rem mod 60, tm_min = (rem div 60) mod 60, tm_hour = (rem div 60) div 60,
      tm_mday = md + 1, tm_mon = int m, tm_year = y - 1900, tm_wday = weekday_of days, tm_yday = yd, tm_isdst = 0\<rparr>"
    unfolding fill_gmtime_def Let_def floor_day days_def [symmetric] rem_def [symmetric] prod.case yd m
      smod_div(1) [OF rem(1) sixty] smod_div(2) [OF rem(1) sixty] smod_div(1) [OF r60 sixty] smod_div(2) [OF r60 sixty]
    by (rule refl)
  have day: "tm_day (fill_gmtime t) = days"
    using m2 days_of_month [of y "int m + 1" "md + 1"] by (simp add: g tm_day_def)
  have "tm_seconds (fill_gmtime t) = days * 86400 + (rem div 60 div 60 * 3600 + (rem div 60) mod 60 * 60 + rem mod 60)"
    unfolding tm_seconds_def day by (simp only: g tm.select_convs add.assoc)
  then have sec: "tm_seconds (fill_gmtime t) = t" unfolding hms unfolding days_def rem_def by simp
  have "valid_tm (fill_gmtime t)" using m2 hour_bound [OF rem] by (simp add: g valid_tm_def)
  moreover have "tm_wday (fill_gmtime t) = (t div 86400 + 4) mod 7" by (simp only: g tm.select_convs weekday_of_mod days_def)
  ultimately show ?thesis using sec y by (simp add: g days_def)
qed

end
