(* ===== verification/Cact_Tz.thy ===== *)
theory Cact_Tz
  imports Cact_Calendar
begin

text \<open>
  The time zone engine of \<open>src/tz.c\<close>: the parser of POSIX \<open>TZ\<close> strings, the zone files, the rules
  that place a transition in a year, and the lookup of the offset in effect at an instant.

  The static record \<open>tz\<close> is \<open>tzstate\<close>, together with the public variables \<open>tzname\<close>, \<open>timezone\<close> and
  \<open>daylight\<close>.  A pointer into the string being parsed is the suffix it points at.  An abbreviation
  is its buffer of 12 bytes; \<open>buf_str\<close> is the string in it.  \<open>long\<close> is 32 bits wide: a sum or a
  product that can leave the range is reduced by \<open>s32\<close>.
\<close>

section \<open>The parsed zone\<close>

record zone =
  east :: int
  isdst :: int
  abbr :: string

datatype rule_kind = RULE_NONE | RULE_JULIAN | RULE_DAY | RULE_MONTH

record rule =
  kind :: rule_kind
  rule_n :: int
  rule_m :: int
  rule_w :: int
  rule_d :: int
  rule_time :: int

definition TZ_MAXTYPES :: int where
  "TZ_MAXTYPES = 64"

definition TZ_MAXTRANS :: nat where
  "TZ_MAXTRANS = 512"

definition TZ_FILE_MAX :: nat where
  "TZ_FILE_MAX = 8192"

definition TZ_PATH_MAX :: nat where
  "TZ_PATH_MAX = 256"

record tzstate =
  tz_valid :: bool
  tz_key :: string
  st :: zone
  dt :: zone
  has_dst :: bool
  start_rule :: rule
  end_rule :: rule
  tz_named :: bool
  tz_footer :: bool
  types :: "zone list"
  trans :: "int list"
  ttype :: "nat list"
  first_std :: int
  std_idx :: int
  dst_idx :: int
  tzname0 :: string
  tzname1 :: string
  timezone :: int
  daylight :: int

text \<open>Writing a string into a character array from its start, and reading it back.\<close>

definition put_buf :: "string \<Rightarrow> string \<Rightarrow> string" where
  "put_buf xs buf = xs @ drop (length xs) buf"

definition buf_str :: "string \<Rightarrow> string" where
  "buf_str buf = takeWhile (\<lambda>c. c \<noteq> NUL) buf"

lemma length_put_buf [simp]: "length xs \<le> length buf \<Longrightarrow> length (put_buf xs buf) = length buf"
  by (simp add: put_buf_def)

lemma buf_str_put [simp]: "NUL \<notin> set xs \<Longrightarrow> buf_str (put_buf (xs @ [NUL]) buf) = xs"
  by (auto simp: put_buf_def buf_str_def takeWhile_tail)

section \<open>Transitions\<close>

text \<open>\<open>year_of_days\<close> starts from an estimate and steps up, then down.\<close>

function years_up :: "int \<Rightarrow> int \<Rightarrow> int" where
  "years_up days y = (if days_from_civil (y + 1) 1 1 \<le> days then years_up days (y + 1) else y)"
  by pat_completeness auto
termination
proof (relation "measure (\<lambda>(days, y). nat (days + 1 - days_from_civil (y + 1) 1 1))", goal_cases)
  case (2 days y)
  then show ?case using days_next_year [of "y + 1"] year_days_pos(1) [of "y + 1"] by auto
qed simp

function years_down :: "int \<Rightarrow> int \<Rightarrow> int" where
  "years_down days y = (if days_from_civil y 1 1 > days then years_down days (y - 1) else y)"
  by pat_completeness auto
termination
proof (relation "measure (\<lambda>(days, y). nat (days_from_civil y 1 1 - days))", goal_cases)
  case (2 days y)
  then show ?case using days_next_year [of "y - 1"] year_days_pos(1) [of "y - 1"] by auto
qed simp

declare years_up.simps [simp del] years_down.simps [simp del]

definition year_of_days :: "int \<Rightarrow> int" where
  "year_of_days days = years_down days (years_up days (1970 + days sdiv 365))"

text \<open>The day of the year on which month \<open>m\<close> begins, counted from 0.\<close>

fun month_start :: "int \<Rightarrow> nat \<Rightarrow> int" where
  "month_start y 0 = 0"
| "month_start y (Suc m) = (if m = 0 then 0 else month_start y m + days_in_month y (int m))"

function julian_split :: "nat \<Rightarrow> int \<Rightarrow> nat \<times> int" where
  "julian_split mm dd =
     (if mm < 12
      then if dd \<le> days_in_month 1 (int mm) then (mm, dd)
           else julian_split (Suc mm) (dd - days_in_month 1 (int mm))
      else (mm, dd))"
  by pat_completeness auto
termination by (relation "measure (\<lambda>(mm, dd). 12 - mm)") auto

function back_by_weeks :: "int \<Rightarrow> int \<Rightarrow> int" where
  "back_by_weeks lim day = (if day \<ge> lim then back_by_weeks lim (day - 7) else day)"
  by pat_completeness auto
termination by (relation "measure (\<lambda>(lim, day). nat (day + 1 - lim))") auto

declare julian_split.simps [simp del] back_by_weeks.simps [simp del]

definition clamp :: "int \<Rightarrow> int \<Rightarrow> int \<Rightarrow> int" where
  "clamp lo hi x = (if x < lo then lo else if x > hi then hi else x)"

definition rule_doy :: "rule \<Rightarrow> int \<Rightarrow> int" where
  "rule_doy r y =
     (case kind r of
        RULE_JULIAN \<Rightarrow>
          (let (mm, dd) = julian_split 1 (clamp 1 365 (rule_n r))
           in month_start y mm + dd - 1)
      | RULE_DAY \<Rightarrow> clamp 0 365 (rule_n r)
      | _ \<Rightarrow>
          (let m = clamp 1 12 (rule_m r);
               w = clamp 1 5 (rule_w r);
               d = clamp 0 6 (rule_d r);
               first = month_start y (nat m);
               wd = weekday_of (days_from_civil y 1 1 + first);
               day = first + (d - wd + 7) smod 7 + (w - 1) * 7
           in back_by_weeks (first + days_in_month y m) day))"

definition transition_utc :: "tzstate \<Rightarrow> rule \<Rightarrow> int \<Rightarrow> bool \<Rightarrow> int" where
  "transition_utc tz r y to_dst =
     (let base = s32 ((days_from_civil y 1 1 + rule_doy r y) * 86400 + rule_time r)
      in s32 (base - (if to_dst then east (dt tz) else east (st tz))))"

definition dst_active :: "tzstate \<Rightarrow> int \<Rightarrow> int \<Rightarrow> bool" where
  "dst_active tz t y =
     (let s = transition_utc tz (start_rule tz) y True;
          e = transition_utc tz (end_rule tz) y False
      in if s \<le> e then t \<ge> s \<and> t < e else t \<ge> s \<or> t < e)"

section \<open>The parser of POSIX strings\<close>

definition is_alpha :: "char \<Rightarrow> bool" where
  "is_alpha c \<longleftrightarrow> 65 \<le> schar c \<and> schar c \<le> 90 \<or> 97 \<le> schar c \<and> schar c \<le> 122"

definition is_digit :: "char \<Rightarrow> bool" where
  "is_digit c \<longleftrightarrow> 48 \<le> schar c \<and> schar c \<le> 57"

text \<open>\<open>parse_name\<close> returns whether it found a name, the buffer and the rest of the string; when
  there is no name the rest is the string itself.\<close>

definition parse_name :: "string \<Rightarrow> string \<Rightarrow> bool \<times> string \<times> string" where
  "parse_name p out =
     (let cap = length out;
          (ok, xs, q) =
            (if at p 0 = CHR ''<''
             then let body = takeWhile (\<lambda>c. c \<noteq> CHR ''>'') (tl p);
                      xs = take (cap - 1) body;
                      q = drop (length xs) (tl p)
                  in (at q 0 = CHR ''>'', xs, tl q)
             else let body = takeWhile is_alpha p
                  in (True, take (cap - 1) body, drop (length body) p))
      in if ok \<and> xs \<noteq> [] then (True, put_buf (xs @ [NUL]) out, q) else (False, put_buf xs out, p))"

fun read_num :: "int \<Rightarrow> string \<Rightarrow> int \<times> string" where
  "read_num acc [] = (acc, [])"
| "read_num acc (c # p) = (if is_digit c then read_num (s32 (acc * 10 + (schar c - 48))) p else (acc, c # p))"

text \<open>\<open>parse_offset\<close> returns the seconds, whether there was an offset, and the rest.\<close>

definition parse_seconds :: "int \<Rightarrow> string \<Rightarrow> int \<times> string" where
  "parse_seconds secs p =
     (if at p 0 = CHR '':'' then let (ss, q) = read_num 0 (tl p) in (s32 (secs + ss), q) else (secs, p))"

definition parse_minutes :: "int \<Rightarrow> string \<Rightarrow> int \<times> string" where
  "parse_minutes secs p =
     (if at p 0 = CHR '':'' then let (mm, q) = read_num 0 (tl p) in parse_seconds (s32 (secs + mm * 60)) q
      else (secs, p))"

definition parse_offset :: "string \<Rightarrow> int \<times> bool \<times> string" where
  "parse_offset p0 =
     (let signed = at p0 0 = CHR ''+'' \<or> at p0 0 = CHR ''-'';
          neg = at p0 0 = CHR ''-'';
          p = (if signed then tl p0 else p0)
      in if \<not> is_digit (at p 0) then (0, False, if neg then p0 else p)
         else let (hh, q) = read_num 0 p;
                  (secs, r) = parse_minutes (s32 (hh * 3600)) q
              in (if neg then s32 (- secs) else secs, True, r))"

definition rule_fields :: "string \<Rightarrow> int \<Rightarrow> rule \<times> string" where
  "rule_fields p default_time =
     (let r = \<lparr>kind = RULE_NONE, rule_n = 0, rule_m = 0, rule_w = 0, rule_d = 0, rule_time = default_time\<rparr>
      in if at p 0 = CHR ''J''
         then let (n, q) = read_num 0 (tl p) in (r\<lparr>kind := RULE_JULIAN, rule_n := n\<rparr>, q)
         else if at p 0 = CHR ''M''
         then let (m, q) = read_num 0 (tl p);
                  (w, q1) = (if at q 0 = CHR ''.'' then read_num 0 (tl q) else (0, q));
                  (d, q2) = (if at q1 0 = CHR ''.'' then read_num 0 (tl q1) else (0, q1))
              in (r\<lparr>kind := RULE_MONTH, rule_m := m, rule_w := w, rule_d := d\<rparr>, q2)
         else let (n, q) = read_num 0 p in (r\<lparr>kind := RULE_DAY, rule_n := n\<rparr>, q))"

definition parse_rule :: "string \<Rightarrow> int \<Rightarrow> rule \<times> string" where
  "parse_rule p default_time =
     (let (r, q) = rule_fields p default_time
      in if at q 0 = CHR ''/''
         then let (t, present, q1) = parse_offset (tl q)
              in (r\<lparr>rule_time := if present then t else default_time\<rparr>, q1)
         else (r, q))"

definition set_utc_default :: "tzstate \<Rightarrow> tzstate" where
  "set_utc_default tz = tz\<lparr>tz_valid := True, has_dst := False,
     st := \<lparr>east = 0, isdst = 0, abbr = put_buf (''UTC'' @ [NUL]) (abbr (st tz))\<rparr>,
     dt := \<lparr>east = 0, isdst = 1, abbr = put_buf (''UTC'' @ [NUL]) (abbr (dt tz))\<rparr>,
     start_rule := (start_rule tz)\<lparr>kind := RULE_NONE\<rparr>, end_rule := (end_rule tz)\<lparr>kind := RULE_NONE\<rparr>\<rparr>"

definition default_us_rules :: "tzstate \<Rightarrow> tzstate" where
  "default_us_rules tz = tz\<lparr>
     start_rule := \<lparr>kind = RULE_MONTH, rule_n = 0, rule_m = 3, rule_w = 2, rule_d = 0, rule_time = 2 * 3600\<rparr>,
     end_rule := \<lparr>kind = RULE_MONTH, rule_n = 0, rule_m = 11, rule_w = 1, rule_d = 0, rule_time = 2 * 3600\<rparr>\<rparr>"

text \<open>The part of \<open>parse_posix\<close> after the name of the daylight-saving zone.\<close>

definition parse_dst :: "string \<Rightarrow> tzstate \<Rightarrow> tzstate" where
  "parse_dst p tz =
     (let (v, present, q) = parse_offset p;
          tz1 = tz\<lparr>dt := (dt tz)\<lparr>east := if present then s32 (- v) else s32 (east (st tz) + 3600)\<rparr>\<rparr>
      in if at q 0 = CHR '',''
         then let (s, q1) = parse_rule (tl q) (2 * 3600);
                  q2 = (if at q1 0 = CHR '','' then tl q1 else q1);
                  (e, _) = parse_rule q2 (2 * 3600)
              in tz1\<lparr>start_rule := s, end_rule := e\<rparr>
         else default_us_rules tz1)"

definition parse_posix :: "string \<Rightarrow> tzstate \<Rightarrow> tzstate" where
  "parse_posix spec tz0 =
     (let (ok, nm, p) = parse_name spec (abbr (st tz0));
          tz1 = tz0\<lparr>tz_valid := True, has_dst := False, st := \<lparr>east = 0, isdst = 0, abbr = nm\<rparr>\<rparr>
      in if \<not> ok then set_utc_default tz1
         else let (v, _, q) = parse_offset p;
                  tz2 = tz1\<lparr>st := (st tz1)\<lparr>east := s32 (- v)\<rparr>\<rparr>;
                  (ok2, nm2, q2) = parse_name q (abbr (dt tz2))
              in if ok2 then parse_dst q2 (tz2\<lparr>has_dst := True, dt := (dt tz2)\<lparr>isdst := 1, abbr := nm2\<rparr>\<rparr>)
                 else tz2\<lparr>dt := (dt tz2)\<lparr>abbr := nm2, east := 0\<rparr>\<rparr>)"

section \<open>Zone files\<close>

text \<open>
  The bytes the parser reads are those of the buffer \<open>buf[TZ_FILE_MAX]\<close> on its stack, of which the
  first \<open>n\<close> came from the file.  A read at any other offset returns what happens to be there:
  \<open>junk\<close> stands for it, so that a result that does not depend on \<open>junk\<close> was computed from the file.
\<close>

definition byte_at :: "(int \<Rightarrow> char) \<Rightarrow> string \<Rightarrow> int \<Rightarrow> int" where
  "byte_at junk file i = uchar (if 0 \<le> i \<and> i < int (length file) then file ! nat i else junk i)"

definition rd_be32 :: "(int \<Rightarrow> int) \<Rightarrow> int \<Rightarrow> int" where
  "rd_be32 b i = b i * 16777216 + b (i + 1) * 65536 + b (i + 2) * 256 + b (i + 3)"

fun rd_be64 :: "(int \<Rightarrow> int) \<Rightarrow> int \<Rightarrow> nat \<Rightarrow> int" where
  "rd_be64 b i 0 = 0"
| "rd_be64 b i (Suc k) = rd_be64 b i k * 256 + b (i + int k)"

text \<open>What a \<open>read\<close> of the zone file returns: bytes (none at the end of the file), a signal, or a
  failure.  The script of a file ends with the end of the file.\<close>

datatype read_result = Bytes string | Interrupted | Failed

fun read_loop :: "read_result list \<Rightarrow> string \<Rightarrow> nat \<Rightarrow> string option" where
  "read_loop [] got cap = Some got"
| "read_loop (r # rs) got cap =
     (if length got \<ge> cap then Some got
      else case r of
        Bytes xs \<Rightarrow> if xs = [] then Some got else read_loop rs (got @ take (cap - length got) xs) cap
      | Interrupted \<Rightarrow> read_loop rs got cap
      | Failed \<Rightarrow> None)"

definition tz_read_whole :: "(string \<Rightarrow> read_result list option) \<Rightarrow> string \<Rightarrow> nat \<Rightarrow> string option" where
  "tz_read_whole fs path cap = (case fs path of None \<Rightarrow> None | Some rs \<Rightarrow> read_loop rs [] cap)"

function type_search :: "int list \<Rightarrow> int \<Rightarrow> nat \<Rightarrow> nat \<Rightarrow> nat" where
  "type_search ts t lo hi =
     (if lo < hi
      then let mid = lo + (hi - lo + 1) div 2
           in if ts ! mid \<le> t then type_search ts t mid hi else type_search ts t lo (mid - 1)
      else lo)"
  by pat_completeness auto
termination by (relation "measure (\<lambda>(ts, t, lo, hi). hi - lo)") auto

declare type_search.simps [simp del]

definition tz_type_at :: "tzstate \<Rightarrow> int \<Rightarrow> int" where
  "tz_type_at tz t =
     (if trans tz = [] \<or> t < trans tz ! 0 then first_std tz
      else int (ttype tz ! type_search (trans tz) t 0 (length (trans tz) - 1)))"

fun recent_loop :: "tzstate \<Rightarrow> int \<Rightarrow> nat \<Rightarrow> int" where
  "recent_loop tz want_dst 0 = -1"
| "recent_loop tz want_dst (Suc i) =
     (let idx = ttype tz ! i
      in if idx < length (types tz) \<and> isdst (types tz ! idx) = want_dst then int idx
         else recent_loop tz want_dst i)"

definition tz_recent_type :: "tzstate \<Rightarrow> int \<Rightarrow> int" where
  "tz_recent_type tz want_dst = recent_loop tz want_dst (length (trans tz))"

definition zone_path :: "string \<Rightarrow> string" where
  "zone_path spec =
     (let name = (if at spec 0 = CHR '':'' then tl spec else spec)
      in if at name 0 = CHR ''/'' then take (TZ_PATH_MAX - 1) name
         else take (TZ_PATH_MAX - 1) (''/usr/share/zoneinfo/'' @ name))"

text \<open>The six counts of a header at offset \<open>off\<close>, converted to \<open>long\<close>.\<close>

record counts =
  cnt_ut :: int
  cnt_std :: int
  cnt_leap :: int
  cnt_time :: int
  cnt_type :: int
  cnt_char :: int

definition read_counts :: "(int \<Rightarrow> int) \<Rightarrow> int \<Rightarrow> counts" where
  "read_counts b off = \<lparr>cnt_ut = s32 (rd_be32 b off), cnt_std = s32 (rd_be32 b (off + 4)),
     cnt_leap = s32 (rd_be32 b (off + 8)), cnt_time = s32 (rd_be32 b (off + 12)),
     cnt_type = s32 (rd_be32 b (off + 16)), cnt_char = s32 (rd_be32 b (off + 20))\<rparr>"

definition has_magic :: "(int \<Rightarrow> int) \<Rightarrow> int \<Rightarrow> bool" where
  "has_magic b off \<longleftrightarrow> map b [off, off + 1, off + 2, off + 3] = map uchar ''TZif''"

text \<open>The header to use: its counts, the offset of its data and the width of a time.\<close>

definition choose_block :: "(int \<Rightarrow> int) \<Rightarrow> int \<Rightarrow> (counts \<times> int \<times> int) option" where
  "choose_block b n =
     (let c = read_counts b 20
      in if b 4 \<ge> 50
         then let skip = s32 (cnt_time c * 5 + cnt_type c * 6 + cnt_char c + cnt_leap c * 8 + cnt_std c + cnt_ut c);
                  off = s32 (44 + skip)
              in if s32 (off + 44) > n \<or> \<not> has_magic b off then None
                 else Some (read_counts b (off + 20), off + 44, 8)
         else Some (c, 44, 4))"

definition trans_time :: "(int \<Rightarrow> int) \<Rightarrow> int \<Rightarrow> int \<Rightarrow> int" where
  "trans_time b tp ent =
     (if ent = 8 then (let v = rd_be64 b tp 8 in if v < 2 ^ 63 then v else v - 2 ^ 64) else s32 (rd_be32 b tp))"

fun read_trans :: "(int \<Rightarrow> int) \<Rightarrow> int \<Rightarrow> int \<Rightarrow> int \<Rightarrow> nat \<Rightarrow> int \<Rightarrow> (int \<times> nat) list \<Rightarrow> (int \<times> nat) list" where
  "read_trans b off ent idx 0 j acc = acc"
| "read_trans b off ent idx (Suc k) j acc =
     (if length acc < TZ_MAXTRANS
      then let sv = trans_time b (s32 (off + j * ent)) ent
           in read_trans b off ent idx k (j + 1)
                (if sv > 2147483647 \<or> sv < - 2147483648 then acc else acc @ [(sv, nat (b (s32 (idx + j))))])
      else acc)"

text \<open>The abbreviation of a type: at most 11 bytes, up to a zero or the end of the character table.\<close>

fun read_abbr :: "(int \<Rightarrow> int) \<Rightarrow> int \<Rightarrow> int \<Rightarrow> int \<Rightarrow> nat \<Rightarrow> string" where
  "read_abbr b cp cnt i 0 = []"
| "read_abbr b cp cnt i (Suc k) =
     (if i < cnt \<and> b (cp + i) \<noteq> 0 then char_of (b (cp + i)) # read_abbr b cp cnt (i + 1) k else [])"

definition read_type :: "(int \<Rightarrow> int) \<Rightarrow> int \<Rightarrow> int \<Rightarrow> int \<Rightarrow> zone \<Rightarrow> int \<Rightarrow> zone" where
  "read_type b ti cp cnt old k =
     \<lparr>east = s32 (rd_be32 b (ti + k * 6)), isdst = (if b (ti + k * 6 + 4) \<noteq> 0 then 1 else 0),
      abbr = put_buf (read_abbr b cp cnt (b (ti + k * 6 + 5)) (length (abbr old) - 1) @ [NUL]) (abbr old)\<rparr>"

definition first_standard :: "zone list \<Rightarrow> nat" where
  "first_standard zs = (let n = length (takeWhile (\<lambda>z. isdst z \<noteq> 0) zs) in if n < length zs then n else 0)"

definition footer_spec :: "(int \<Rightarrow> int) \<Rightarrow> int \<Rightarrow> int \<Rightarrow> string" where
  "footer_spec b n d_end =
     (if s32 (d_end + 1) < n \<and> b d_end = 10
      then take 127 (takeWhile (\<lambda>c. c \<noteq> CHR 0x0A) (map (\<lambda>q. char_of (b q)) [d_end + 1..n - 1]))
      else [])"

text \<open>An abbreviation buffer holds zeros before its first use; what stands behind its terminator is
  never read.\<close>

definition blank_zone :: zone where
  "blank_zone = \<lparr>east = 0, isdst = 0, abbr = replicate 12 NUL\<rparr>"

definition old_type :: "tzstate \<Rightarrow> nat \<Rightarrow> zone" where
  "old_type tz k = (if k < length (types tz) then types tz ! k else blank_zone)"

definition load_block :: "(int \<Rightarrow> int) \<Rightarrow> int \<Rightarrow> counts \<Rightarrow> int \<Rightarrow> int \<Rightarrow> tzstate \<Rightarrow> tzstate" where
  "load_block b n c off ent tz =
     (let tr = read_trans b off ent (s32 (off + cnt_time c * ent)) (nat (cnt_time c)) 0 [];
          ti = s32 (off + cnt_time c * (ent + 1));
          cp = s32 (ti + cnt_type c * 6);
          zs = map (\<lambda>k. read_type b ti cp (cnt_char c) (old_type tz k) (int k)) [0..<nat (cnt_type c)];
          tz1 = tz\<lparr>trans := map fst tr, ttype := map snd tr, types := zs, first_std := int (first_standard zs)\<rparr>;
          spec = (if b 4 \<ge> 50
                  then footer_spec b n (s32 (off + cnt_time c * (ent + 1) + cnt_type c * 6 + cnt_char c
                         + cnt_leap c * (ent + 4) + cnt_std c + cnt_ut c))
                  else []);
          tz2 = (if spec \<noteq> [] then (parse_posix (buf_str spec) tz1)\<lparr>tz_footer := True\<rparr> else tz1);
          si = tz_recent_type tz2 0
      in tz2\<lparr>std_idx := if si < 0 then first_std tz2 else si, dst_idx := tz_recent_type tz2 1, tz_named := True\<rparr>)"

definition read_zone_bytes :: "(int \<Rightarrow> char) \<Rightarrow> string \<Rightarrow> tzstate \<Rightarrow> tzstate option" where
  "read_zone_bytes junk file tz =
     (let b = byte_at junk file; n = int (length file)
      in if n < 44 \<or> \<not> has_magic b 0 then None
         else case choose_block b n of
           None \<Rightarrow> None
         | Some (c, off, ent) \<Rightarrow>
             if cnt_type c \<le> 0 \<or> cnt_type c > TZ_MAXTYPES \<or> cnt_time c < 0 then None
             else if s32 (off + cnt_time c * (ent + 1) + cnt_type c * 6 + cnt_char c) > n then None
             else Some (load_block b n c off ent tz))"

definition tz_read_zone :: "(string \<Rightarrow> read_result list option) \<Rightarrow> (int \<Rightarrow> char) \<Rightarrow> string \<Rightarrow> tzstate \<Rightarrow> tzstate option" where
  "tz_read_zone fs junk spec tz =
     (case tz_read_whole fs (zone_path spec) TZ_FILE_MAX of
        None \<Rightarrow> None
      | Some file \<Rightarrow> read_zone_bytes junk file tz)"

section \<open>The state and its lookup\<close>

definition refresh_public_names :: "tzstate \<Rightarrow> tzstate" where
  "refresh_public_names tz =
     (if tz_named tz
      then let s = (if tz_footer tz then st tz else types tz ! nat (std_idx tz));
               d = (if tz_footer tz then (if has_dst tz then dt tz else st tz)
                    else if dst_idx tz \<ge> 0 then types tz ! nat (dst_idx tz) else s)
           in tz\<lparr>tzname0 := buf_str (abbr s), tzname1 := buf_str (abbr d), timezone := s32 (- east s),
                 daylight := if (if tz_footer tz then has_dst tz else dst_idx tz \<ge> 0) then 1 else 0\<rparr>
      else tz\<lparr>tzname0 := buf_str (abbr (st tz)),
              tzname1 := buf_str (abbr (if has_dst tz then dt tz else st tz)),
              timezone := s32 (- east (st tz)), daylight := if has_dst tz then 1 else 0\<rparr>)"

definition names_file :: "string \<Rightarrow> bool" where
  "names_file spec \<longleftrightarrow> at spec 0 = CHR '':'' \<or> CHR ''/'' \<in> set spec \<and> CHR '','' \<notin> set spec"

text \<open>\<open>tzset\<close>: the value of \<open>TZ\<close> in the environment is an argument, and so are the files.\<close>

definition tzset :: "(string \<Rightarrow> read_result list option) \<Rightarrow> (int \<Rightarrow> char) \<Rightarrow> string option \<Rightarrow> tzstate \<Rightarrow> tzstate" where
  "tzset fs junk tzenv tz =
     (let spec = (case tzenv of None \<Rightarrow> ''UTC'' | Some v \<Rightarrow> if v = [] then ''UTC'' else v)
      in if tz_valid tz \<and> tz_key tz = spec then tz
         else let tz1 = tz\<lparr>tz_key := take 127 spec, tz_named := False, tz_footer := False\<rparr>;
                  tz2 = (if names_file spec
                         then case tz_read_zone fs junk spec tz1 of Some z \<Rightarrow> z | None \<Rightarrow> parse_posix ''UTC0'' tz1
                         else parse_posix spec tz1)
              in refresh_public_names tz2)"

definition lookup :: "tzstate \<Rightarrow> int \<Rightarrow> int \<times> int \<times> string" where
  "lookup tz t =
     (if tz_named tz \<and> trans tz \<noteq> [] \<and> (t \<le> last (trans tz) \<or> \<not> tz_footer tz)
      then let i = tz_type_at tz t;
               z = types tz ! nat (if i < 0 \<or> i \<ge> int (length (types tz)) then 0 else i)
           in (east z, isdst z, buf_str (abbr z))
      else if \<not> has_dst tz then (east (st tz), 0, buf_str (abbr (st tz)))
      else let days = s32 (t + east (st tz));
               day = (if days < 0 \<and> days smod 86400 \<noteq> 0 then days sdiv 86400 - 1 else days sdiv 86400)
           in if dst_active tz t (year_of_days day)
              then (east (dt tz), 1, buf_str (abbr (dt tz)))
              else (east (st tz), 0, buf_str (abbr (st tz))))"

definition cact_tz_offset_utc :: "(tzstate \<Rightarrow> tzstate) \<Rightarrow> int \<Rightarrow> tzstate \<Rightarrow> tzstate \<times> int \<times> int" where
  "cact_tz_offset_utc refresh t tz0 =
     (let tz = refresh tz0; (e, d, _) = lookup tz t in (tz, e, d))"

definition cact_tz_offset_for_tm :: "(tzstate \<Rightarrow> tzstate) \<Rightarrow> tm \<Rightarrow> tzstate \<Rightarrow> tzstate \<times> int \<times> int" where
  "cact_tz_offset_for_tm refresh tm tz0 =
     (let tz = refresh tz0
      in if has_dst tz \<and> tm_isdst tm > 0 then (tz, east (dt tz), 1)
         else if has_dst tz \<and> tm_isdst tm = 0 then (tz, east (st tz), 0)
         else if tm_isdst tm > 0 then (tz, east (dt tz), 1) else (tz, east (st tz), 0))"

fun settle :: "tzstate \<Rightarrow> int \<Rightarrow> nat \<Rightarrow> int \<Rightarrow> int" where
  "settle tz u 0 t = t"
| "settle tz u (Suc i) t =
     (let nxt = s32 (u - fst (lookup tz t)) in if nxt = t then t else settle tz u i nxt)"

definition cact_tz_utc_from_tm :: "(tzstate \<Rightarrow> tzstate) \<Rightarrow> tm \<Rightarrow> tzstate \<Rightarrow> tzstate \<times> int" where
  "cact_tz_utc_from_tm refresh tm tz0 =
     (let u = civil_seconds tm; tz = refresh tz0
      in (tz, if \<not> has_dst tz then s32 (u - east (st tz))
              else if tm_isdst tm > 0 then s32 (u - east (dt tz))
              else if tm_isdst tm = 0 then s32 (u - east (st tz))
              else settle tz u 3 (s32 (u - east (st tz)))))"

section \<open>The year of a day, and the day of a rule\<close>

lemma years_up_spec: "d < days_from_civil (years_up d y + 1) 1 1"
proof (induction d y rule: years_up.induct)
  case (1 d y)
  then show ?case by (subst years_up.simps) (auto simp: years_up.simps [of d y])
qed

lemma years_down_spec:
  "d < days_from_civil (y + 1) 1 1 \<Longrightarrow>
   days_from_civil (years_down d y) 1 1 \<le> d \<and> d < days_from_civil (years_down d y + 1) 1 1"
proof (induction d y rule: years_down.induct)
  case (1 d y)
  show ?case
  proof (cases "days_from_civil y 1 1 > d")
    case True
    then have "years_down d y = years_down d (y - 1)" by (subst years_down.simps) simp
    then show ?thesis using 1(1) [OF True] True by simp
  next
    case False
    then have "years_down d y = y" by (subst years_down.simps) simp
    then show ?thesis using 1(2) False by simp
  qed
qed

lemma year_of_days_spec:
  "days_from_civil (year_of_days d) 1 1 \<le> d \<and> d < days_from_civil (year_of_days d + 1) 1 1"
  unfolding year_of_days_def by (rule years_down_spec) (rule years_up_spec)

lemma month_start_days:
  "1 \<le> m \<Longrightarrow> m \<le> 12 \<Longrightarrow> days_from_civil y (int m) 1 = days_from_civil y 1 1 + month_start y m"
proof (induction m)
  case (Suc m)
  show ?case
  proof (cases "m = 0")
    case True
    then show ?thesis by simp
  next
    case False
    then have "days_from_civil y (int m + 1) 1 = days_from_civil y (int m) 1 + days_in_month y (int m)"
      using Suc.prems by (intro days_next_month) auto
    then show ?thesis using Suc False by (simp add: add.commute)
  qed
qed simp

lemma month_bounds: "1 \<le> m \<Longrightarrow> m \<le> 12 \<Longrightarrow> 28 \<le> days_in_month y m \<and> days_in_month y m \<le> 31"
proof -
  assume m: "1 \<le> m" "m \<le> 12"
  then have "m \<in> {1, 2, 3, 4, 5, 6, 7, 8, 9, 10, 11, 12}" unfolding insert_iff empty_iff by arith
  then show ?thesis by (auto simp: days_in_month_def month_days_def)
qed

lemma back_by_weeks_spec:
  "back_by_weeks lim day < lim \<and> (\<exists>k\<ge>0. back_by_weeks lim day = day - 7 * k) \<and>
   (back_by_weeks lim day = day \<or> lim \<le> back_by_weeks lim day + 7)"
proof (induction lim day rule: back_by_weeks.induct)
  case (1 lim day)
  show ?case
  proof (cases "day \<ge> lim")
    case True
    then have e: "back_by_weeks lim day = back_by_weeks lim (day - 7)" by (subst back_by_weeks.simps) simp
    from 1 [OF True] obtain k where k: "k \<ge> 0" "back_by_weeks lim (day - 7) = day - 7 - 7 * k" by blast
    then have "back_by_weeks lim day = day - 7 * (k + 1)" by (simp add: e)
    then show ?thesis using 1 [OF True] True k(1) e by (intro conjI exI [of _ "k + 1"]) auto
  next
    case False
    then have "back_by_weeks lim day = day" by (subst back_by_weeks.simps) simp
    then show ?thesis using False by auto
  qed
qed

lemma weekday_step:
  assumes "0 \<le> d" "d < 7" "0 \<le> (w :: int)" "w < 7"
  shows "0 \<le> (d - w + 7) smod 7" "(d - w + 7) smod 7 < 7" "(w + (d - w + 7) smod 7 + 7 * k) mod 7 = d"
proof -
  have e: "(d - w + 7) smod 7 = (d - w) mod 7" using assms by (simp add: smod_div)
  show "0 \<le> (d - w + 7) smod 7" "(d - w + 7) smod 7 < 7" by (simp_all add: e)
  have "(w + (d - w) mod 7 + 7 * k) mod 7 = (w + (d - w)) mod 7"
    by (metis mod_add_right_eq mod_mult_self2)
  then show "(w + (d - w + 7) smod 7 + 7 * k) mod 7 = d" unfolding e using assms by simp
qed

text \<open>A rule \<open>Mm.w.d\<close> falls in month \<open>m\<close>, on weekday \<open>d\<close>, in its \<open>w\<close>-th week, the last for 5.\<close>

lemma rule_doy_month:
  fixes y :: int
  assumes k: "kind r = RULE_MONTH" and r: "1 \<le> rule_m r" "rule_m r \<le> 12" "1 \<le> rule_w r" "rule_w r \<le> 5"
    "0 \<le> rule_d r" "rule_d r \<le> 6"
  defines "first \<equiv> month_start y (nat (rule_m r))" and "dim \<equiv> days_in_month y (rule_m r)"
  shows "first \<le> rule_doy r y" "rule_doy r y < first + dim"
    "weekday_of (days_from_civil y 1 1 + rule_doy r y) = rule_d r"
    "if rule_w r \<le> 4 then (rule_doy r y - first) div 7 = rule_w r - 1 else first + dim \<le> rule_doy r y + 7"
proof -
  define wd where "wd = weekday_of (days_from_civil y 1 1 + first)"
  define x where "x = (rule_d r - wd + 7) smod 7"
  define day where "day = first + x + (rule_w r - 1) * 7"
  have wd: "0 \<le> wd" "wd < 7" by (simp_all add: wd_def weekday_of_mod)
  have x: "0 \<le> x" "x < 7" using weekday_step(1,2) [of "rule_d r" wd] r(5,6) wd by (simp_all add: x_def)
  have dim: "28 \<le> dim" using month_bounds [OF r(1,2)] by (simp add: dim_def)
  have eq: "rule_doy r y = back_by_weeks (first + dim) day"
    using r by (simp add: rule_doy_def k clamp_def Let_def first_def dim_def day_def x_def wd_def)
  obtain j where j: "j \<ge> 0" "rule_doy r y = day - 7 * j" and lt: "rule_doy r y < first + dim"
    and lst: "rule_doy r y = day \<or> first + dim \<le> rule_doy r y + 7"
    using back_by_weeks_spec [of "first + dim" day] unfolding eq by blast
  have weeks: "rule_doy r y = first + x + 7 * (rule_w r - 1 - j)" using j by (simp add: day_def)
  have early: "rule_doy r y = day" if "rule_w r \<le> 4"
    using that x(2) dim by (subst eq, subst back_by_weeks.simps) (auto simp: day_def)
  show "rule_doy r y < first + dim" by (rule lt)
  show "first \<le> rule_doy r y"
    using lst dim x r(3) by (auto simp: day_def)
  have "days_from_civil y 1 1 + rule_doy r y + 4 = days_from_civil y 1 1 + first + 4 + x + 7 * (rule_w r - 1 - j)"
    by (simp add: weeks)
  then have "weekday_of (days_from_civil y 1 1 + rule_doy r y) =
      ((days_from_civil y 1 1 + first + 4) mod 7 + x + 7 * (rule_w r - 1 - j)) mod 7"
    unfolding weekday_of_mod by (metis mod_add_left_eq)
  also have "\<dots> = (wd + x + 7 * (rule_w r - 1 - j)) mod 7" by (simp add: wd_def weekday_of_mod)
  also have "\<dots> = rule_d r" unfolding x_def using r(5,6) wd by (intro weekday_step(3)) auto
  finally show "weekday_of (days_from_civil y 1 1 + rule_doy r y) = rule_d r" .
  show "if rule_w r \<le> 4 then (rule_doy r y - first) div 7 = rule_w r - 1 else first + dim \<le> rule_doy r y + 7"
  proof (cases "rule_w r \<le> 4")
    case True
    then have "rule_doy r y - first = x + (rule_w r - 1) * 7" by (simp add: early day_def)
    then show ?thesis using True x by simp
  next
    case False
    then have "day = first + x + 28" using r(4) by (simp add: day_def)
    moreover have "dim \<le> 31" using month_bounds [OF r(1,2)] by (simp add: dim_def)
    ultimately show ?thesis using False lst x by auto
  qed
qed

end
