(* ===== verification/Cact_Tz_Lemmas.thy ===== *)
theory Cact_Tz_Lemmas
  imports Cact_Tz
begin

text \<open>
  What the parsers and the tables of \<open>Cact_Tz\<close> compute: \<open>Jn\<close> rules, the binary search in a zone
  file's table, the round trip of POSIX strings, the bounds of the abbreviation buffers, and the
  bytes of a zone file that are read.
\<close>

section \<open>Rules that count a year of 365 days\<close>

lemma month_start_12: "month_start 1 12 = 334"
  by (simp add: eval_nat_numeral days_in_month_def month_days_def is_leap_mod)

lemma days_in_december: "days_in_month y 12 = 31"
  by (simp add: days_in_month_def month_days_def)

lemma julian_split_spec:
  "1 \<le> mm \<Longrightarrow> mm \<le> 12 \<Longrightarrow> 1 \<le> dd \<Longrightarrow> month_start 1 mm + dd \<le> 365 \<Longrightarrow> julian_split mm dd = (m', d') \<Longrightarrow>
   1 \<le> m' \<and> m' \<le> 12 \<and> 1 \<le> d' \<and> d' \<le> days_in_month 1 (int m') \<and> month_start 1 m' + d' = month_start 1 mm + dd"
proof (induction mm dd rule: julian_split.induct)
  case (1 mm dd)
  show ?case
  proof (cases "mm < 12")
    case False
    then have "mm = 12" using 1 by simp
    then show ?thesis using 1(3-6) by (simp add: julian_split.simps month_start_12 days_in_december)
  next
    case True
    show ?thesis
    proof (cases "dd \<le> days_in_month 1 (int mm)")
      case le: True
      then have "julian_split mm dd = (mm, dd)" using True by (subst julian_split.simps) simp
      then show ?thesis using 1(2-6) le by auto
    next
      case gt: False
      have s: "month_start 1 (Suc mm) = month_start 1 mm + days_in_month 1 (int mm)" using 1(2) by simp
      have "julian_split mm dd = julian_split (Suc mm) (dd - days_in_month 1 (int mm))"
        using True gt by (subst julian_split.simps) simp
      then show ?thesis using 1(1) [OF True gt] 1(2-6) True gt s by simp
    qed
  qed
qed

lemma rule_doy_julian:
  assumes k: "kind r = RULE_JULIAN" and n: "1 \<le> rule_n r" "rule_n r \<le> 365"
  shows "\<exists>m d. 1 \<le> m \<and> m \<le> 12 \<and> 1 \<le> d \<and> d \<le> days_in_month 1 (int m) \<and>
    month_start 1 m + d = rule_n r \<and> rule_doy r y = month_start y m + d - 1"
proof -
  obtain m d where md: "julian_split 1 (rule_n r) = (m, d)" by force
  have "month_start 1 1 + rule_n r \<le> 365" using n by simp
  from julian_split_spec [OF _ _ n(1) this md]
  have "1 \<le> m \<and> m \<le> 12 \<and> 1 \<le> d \<and> d \<le> days_in_month 1 (int m) \<and> month_start 1 m + d = rule_n r" by simp
  moreover have "rule_doy r y = month_start y m + d - 1"
    using n md by (simp add: rule_doy_def k clamp_def)
  ultimately show ?thesis by blast
qed

section \<open>The binary search\<close>

lemma type_search_spec:
  "sorted ts \<Longrightarrow> lo \<le> hi \<Longrightarrow> hi < length ts \<Longrightarrow> ts ! lo \<le> t \<Longrightarrow> (\<forall>i. hi < i \<and> i < length ts \<longrightarrow> t < ts ! i) \<Longrightarrow>
   type_search ts t lo hi < length ts \<and> ts ! type_search ts t lo hi \<le> t \<and>
   (\<forall>i. type_search ts t lo hi < i \<and> i < length ts \<longrightarrow> t < ts ! i)"
proof (induction ts t lo hi rule: type_search.induct)
  case (1 ts t lo hi)
  show ?case
  proof (cases "lo < hi")
    case False
    then show ?thesis using 1(4-7) by (subst (1 2 3) type_search.simps) auto
  next
    case True
    define mid where "mid = lo + (hi - lo + 1) div 2"
    have mid: "lo < mid" "mid \<le> hi" using True by (auto simp: mid_def)
    note srt = 1(3)
    show ?thesis
    proof (cases "ts ! mid \<le> t")
      case le: True
      have "type_search ts t lo hi = type_search ts t mid hi"
        using True le by (subst type_search.simps) (simp add: mid_def Let_def)
      then show ?thesis using 1(1) [OF True mid_def le] srt mid le 1(5,7) by simp
    next
      case gt: False
      have "t < ts ! i" if "mid - 1 < i" "i < length ts" for i
      proof -
        have "mid \<le> i" using that mid by simp
        then show ?thesis using sorted_nth_mono [OF srt, of mid i] that gt by simp
      qed
      moreover have "type_search ts t lo hi = type_search ts t lo (mid - 1)"
        using True gt by (subst type_search.simps) (simp add: mid_def Let_def)
      ultimately show ?thesis using 1(2) [OF True mid_def gt] srt mid 1(5,6) by simp
    qed
  qed
qed

lemma tz_type_at_spec:
  assumes "sorted (trans tz)" "trans tz \<noteq> []" "trans tz ! 0 \<le> t"
  shows "\<exists>i < length (trans tz). tz_type_at tz t = int (ttype tz ! i) \<and> trans tz ! i \<le> t \<and>
    (\<forall>j. i < j \<and> j < length (trans tz) \<longrightarrow> t < trans tz ! j)"
proof -
  have "tz_type_at tz t = int (ttype tz ! type_search (trans tz) t 0 (length (trans tz) - 1))"
    using assms by (simp add: tz_type_at_def)
  moreover have "\<forall>i. length (trans tz) - 1 < i \<and> i < length (trans tz) \<longrightarrow> t < trans tz ! i" by auto
  ultimately show ?thesis
    using type_search_spec [OF assms(1), of 0 "length (trans tz) - 1" t] assms(2,3) by auto
qed

section \<open>Printing and parsing a POSIX string\<close>

lemma is_digit_dec: "d < 10 \<Longrightarrow> is_digit (digit_char d)"
  by (simp add: is_digit_def)

lemma read_num_dec: "n < 2147483648 \<Longrightarrow> read_num 0 (dec n @ rest) = read_num (int n) rest"
proof (induction n arbitrary: rest rule: dec.induct)
  case (1 n)
  show ?case
  proof (cases "n < 10")
    case True
    then show ?thesis by (subst dec.simps) (simp add: is_digit_dec)
  next
    case False
    have "read_num 0 (dec n @ rest) = read_num (int (n div 10)) (digit_char (n mod 10) # rest)"
      using 1 False by (subst dec.simps) simp
    also have "\<dots> = read_num (s32 (int (n div 10) * 10 + int (n mod 10))) rest"
      by (simp add: is_digit_dec)
    also have "int (n div 10) * 10 + int (n mod 10) = int n"
      by (metis of_nat_add of_nat_mult of_nat_numeral div_mult_mod_eq)
    finally show ?thesis using 1(2) by simp
  qed
qed

lemma read_num_stop: "\<not> is_digit (at rest 0) \<Longrightarrow> read_num acc rest = (acc, rest)"
  by (cases rest) auto

lemma read_num_show:
  "n < 2147483648 \<Longrightarrow> \<not> is_digit (at rest 0) \<Longrightarrow> read_num 0 (dec n @ rest) = (int n, rest)"
  by (simp add: read_num_dec read_num_stop)

lemma at_dec: "is_digit (at (dec n @ rest) 0)"
proof -
  obtain c cs where c: "dec n = c # cs" by (cases "dec n") auto
  then have "c \<in> digit_char ` {..<10}" using dec_digits [of n] by auto
  then show ?thesis using c is_digit_dec by auto
qed

text \<open>An offset of \<open>t\<close> seconds as \<open>[-]hh:mm:ss\<close>.\<close>

definition show_secs :: "int \<Rightarrow> string" where
  "show_secs t =
     (let a = nat \<bar>t\<bar>
      in (if t < 0 then ''-'' else '''') @ dec (a div 60 div 60) @ '':'' @ dec (a div 60 mod 60) @ '':'' @ dec (a mod 60))"

lemma parse_offset_unsigned:
  assumes "a < 2147483648" "\<not> is_digit (at rest 0)"
  defines "xs \<equiv> dec (a div 60 div 60) @ '':'' @ dec (a div 60 mod 60) @ '':'' @ dec (a mod 60) @ rest"
  shows "is_digit (at xs 0)"
    "(let (hh, q) = read_num 0 xs in parse_minutes (s32 (hh * 3600)) q) = (int a, rest)"
proof -
  define h m s where "h = a div 60 div 60" and "m = a div 60 mod 60" and "s = a mod 60"
  define q where "q = a div 60"
  have "q * 60 + s = a" "h * 60 + m = q" by (simp_all add: q_def h_def m_def s_def)
  then have a: "a = h * 3600 + m * 60 + s" by linarith
  have nd: "\<not> is_digit (CHR '':'')" by (simp add: is_digit_def schar_def uchar_def)
  have b: "h < 2147483648" using assms(1) a by linarith
  have b': "m < 60" "s < 60" by (simp_all add: m_def s_def)
  show "is_digit (at xs 0)" unfolding xs_def by (rule at_dec)
  have xs: "xs = dec h @ CHR '':'' # dec m @ CHR '':'' # dec s @ rest" by (simp add: xs_def h_def m_def s_def)
  have "read_num 0 xs = (int h, CHR '':'' # dec m @ CHR '':'' # dec s @ rest)"
    unfolding xs using b nd by (intro read_num_show) simp_all
  moreover have "read_num 0 (dec m @ CHR '':'' # dec s @ rest) = (int m, CHR '':'' # dec s @ rest)"
    using b' nd by (intro read_num_show) simp_all
  moreover have "read_num 0 (dec s @ rest) = (int s, rest)" using b' assms(2) by (intro read_num_show) simp_all
  moreover have "int h * 3600 < 2147483648" "int h * 3600 + int m * 60 < 2147483648" using assms(1) a by linarith+
  ultimately show "(let (hh, q) = read_num 0 xs in parse_minutes (s32 (hh * 3600)) q) = (int a, rest)"
    using assms(1) a by (simp add: parse_minutes_def parse_seconds_def)
qed

lemma parse_offset_show:
  assumes "- 2147483648 < t" "t < 2147483648" "\<not> is_digit (at rest 0)"
  shows "parse_offset (show_secs t @ rest) = (t, True, rest)"
proof -
  define a where "a = nat \<bar>t\<bar>"
  define xs where "xs = dec (a div 60 div 60) @ '':'' @ dec (a div 60 mod 60) @ '':'' @ dec (a mod 60) @ rest"
  have a: "a < 2147483648" using assms(1,2) by (simp add: a_def)
  note p = parse_offset_unsigned [OF a assms(3), folded xs_def]
  have nd: "at xs 0 \<noteq> CHR ''+''" "at xs 0 \<noteq> CHR ''-''"
    using p(1) by (auto simp: is_digit_def schar_def uchar_def)
  have e: "show_secs t @ rest = (if t < 0 then CHR ''-'' # xs else xs)" by (simp add: show_secs_def a_def xs_def Let_def)
  obtain hh q where hq: "read_num 0 xs = (hh, q)" by force
  then have m: "parse_minutes (s32 (hh * 3600)) q = (int a, rest)" using p(2) by simp
  show ?thesis
    using p(1) nd hq m assms(1,2) unfolding e parse_offset_def Let_def by (auto simp: a_def)
qed

text \<open>A rule that a string can express: the fields its kind does not use are 0.\<close>

definition wf_rule :: "rule \<Rightarrow> bool" where
  "wf_rule r \<longleftrightarrow> \<bar>rule_time r\<bar> < 2147483648 \<and>
     (case kind r of
        RULE_NONE \<Rightarrow> False
      | RULE_MONTH \<Rightarrow> rule_n r = 0 \<and> (\<forall>x \<in> {rule_m r, rule_w r, rule_d r}. 0 \<le> x \<and> x < 2147483648)
      | _ \<Rightarrow> rule_m r = 0 \<and> rule_w r = 0 \<and> rule_d r = 0 \<and> 0 \<le> rule_n r \<and> rule_n r < 2147483648)"

definition show_rule :: "rule \<Rightarrow> string" where
  "show_rule r =
     (case kind r of
        RULE_JULIAN \<Rightarrow> ''J'' @ dec (nat (rule_n r))
      | RULE_MONTH \<Rightarrow> ''M'' @ dec (nat (rule_m r)) @ ''.'' @ dec (nat (rule_w r)) @ ''.'' @ dec (nat (rule_d r))
      | _ \<Rightarrow> dec (nat (rule_n r))) @ ''/'' @ show_secs (rule_time r)"

lemma not_digit [simp]: "\<not> is_digit (CHR ''.'')" "\<not> is_digit (CHR ''/'')" "\<not> is_digit (CHR '','')" "\<not> is_digit NUL"
  by (simp_all add: is_digit_def schar_def uchar_def)

lemma digit_not_letter: "is_digit c \<Longrightarrow> c \<noteq> CHR ''J'' \<and> c \<noteq> CHR ''M''"
  by (auto simp: is_digit_def schar_def uchar_def)

lemma rule_fields_show:
  assumes "wf_rule r"
  shows "rule_fields (show_rule r @ rest) dflt = (r\<lparr>rule_time := dflt\<rparr>, ''/'' @ show_secs (rule_time r) @ rest)"
proof -
  define tail where "tail = CHR ''/'' # show_secs (rule_time r) @ rest"
  have t: "\<not> is_digit (at tail 0)" by (simp add: tail_def)
  show ?thesis
  proof (cases "kind r")
    case RULE_NONE
    then show ?thesis using assms by (simp add: wf_rule_def)
  next
    case RULE_JULIAN
    then have "read_num 0 (dec (nat (rule_n r)) @ tail) = (rule_n r, tail)"
      using assms read_num_show [OF _ t, of "nat (rule_n r)"] by (simp add: wf_rule_def nat_less_iff)
    then show ?thesis using assms RULE_JULIAN by (simp add: rule_fields_def show_rule_def wf_rule_def tail_def)
  next
    case RULE_DAY
    then have "read_num 0 (dec (nat (rule_n r)) @ tail) = (rule_n r, tail)"
      using assms read_num_show [OF _ t, of "nat (rule_n r)"] by (simp add: wf_rule_def nat_less_iff)
    then show ?thesis
      using assms RULE_DAY digit_not_letter [OF at_dec [of "nat (rule_n r)" tail]]
      by (simp add: rule_fields_def show_rule_def wf_rule_def tail_def)
  next
    case RULE_MONTH
    then have f: "0 \<le> rule_m r" "rule_m r < 2147483648" "0 \<le> rule_w r" "rule_w r < 2147483648"
        "0 \<le> rule_d r" "rule_d r < 2147483648" "rule_n r = 0"
      using assms by (auto simp: wf_rule_def)
    have "read_num 0 (dec (nat (rule_m r)) @ CHR ''.'' # xs) = (rule_m r, CHR ''.'' # xs)"
      "read_num 0 (dec (nat (rule_w r)) @ CHR ''.'' # xs) = (rule_w r, CHR ''.'' # xs)"
      "read_num 0 (dec (nat (rule_d r)) @ tail) = (rule_d r, tail)" for xs
      using f t by (simp_all add: read_num_show nat_less_iff)
    then show ?thesis using f RULE_MONTH by (simp add: rule_fields_def show_rule_def tail_def)
  qed
qed

lemma parse_rule_show:
  assumes "wf_rule r" "\<not> is_digit (at rest 0)"
  shows "parse_rule (show_rule r @ rest) dflt = (r, rest)"
proof -
  have "parse_offset (show_secs (rule_time r) @ rest) = (rule_time r, True, rest)"
    using assms by (intro parse_offset_show) (auto simp: wf_rule_def)
  then show ?thesis by (simp add: parse_rule_def rule_fields_show [OF assms(1)])
qed

definition wf_name :: "string \<Rightarrow> bool" where
  "wf_name xs \<longleftrightarrow> xs \<noteq> [] \<and> length xs \<le> 11 \<and> (\<forall>c \<in> set xs. is_alpha c)"

lemma takeWhile_alpha: "(\<forall>c \<in> set xs. is_alpha c) \<Longrightarrow> \<not> is_alpha (at rest 0) \<Longrightarrow> takeWhile is_alpha (xs @ rest) = xs"
  by (cases rest) (simp_all add: takeWhile_tail)

lemma parse_name_show:
  assumes "wf_name xs" "\<not> is_alpha (at rest 0)" "length out = 12"
  shows "parse_name (xs @ rest) out = (True, put_buf (xs @ [NUL]) out, rest)"
proof -
  obtain x xs' where x: "xs = x # xs'" using assms(1) by (cases xs) (auto simp: wf_name_def)
  then have "x \<noteq> CHR ''<''" using assms(1) by (auto simp: wf_name_def is_alpha_def schar_def uchar_def)
  moreover have "takeWhile is_alpha (xs @ rest) = xs" using assms by (intro takeWhile_alpha) (auto simp: wf_name_def)
  ultimately show ?thesis using assms x by (auto simp: parse_name_def Let_def wf_name_def)
qed

lemma alpha_not_NUL: "(\<forall>c \<in> set xs. is_alpha c) \<Longrightarrow> NUL \<notin> set xs"
  by (auto simp: is_alpha_def)

lemma alpha_not_digit: "is_alpha c \<Longrightarrow> \<not> is_digit c"
  by (auto simp: is_digit_def is_alpha_def)

lemma show_secs_start: "\<not> is_alpha (at (show_secs t @ rest) 0)"
proof -
  have "\<not> is_alpha (at (dec n @ xs) 0)" for n xs
    using at_dec [of n xs] alpha_not_digit by blast
  moreover have "\<not> is_alpha (CHR ''-'')" by (simp add: is_alpha_def schar_def uchar_def)
  ultimately show ?thesis by (simp add: show_secs_def Let_def)
qed

text \<open>The string of a zone with daylight-saving time, every field written out.\<close>

definition show_posix :: "string \<Rightarrow> int \<Rightarrow> string \<Rightarrow> int \<Rightarrow> rule \<Rightarrow> rule \<Rightarrow> string" where
  "show_posix std e1 dst e2 r1 r2 =
     std @ show_secs (- e1) @ dst @ show_secs (- e2) @ '','' @ show_rule r1 @ '','' @ show_rule r2"

lemma parse_posix_show:
  assumes names: "wf_name std" "wf_name dst" and off: "\<bar>e1\<bar> < 2147483648" "\<bar>e2\<bar> < 2147483648"
    and rules: "wf_rule r1" "wf_rule r2" and bufs: "length (abbr (st tz)) = 12" "length (abbr (dt tz)) = 12"
  defines "z \<equiv> parse_posix (show_posix std e1 dst e2 r1 r2) tz"
  shows "has_dst z" "east (st z) = e1" "buf_str (abbr (st z)) = std" "east (dt z) = e2" "buf_str (abbr (dt z)) = dst"
    "start_rule z = r1" "end_rule z = r2" "isdst (st z) = 0" "isdst (dt z) = 1"
proof -
  define c where "c = CHR '','' # show_rule r1 @ CHR '','' # show_rule r2"
  define b where "b = show_secs (- e2) @ c"
  have d: "\<not> is_digit (at (dst @ b) 0)"
    using names(2) alpha_not_digit by (cases dst) (auto simp: wf_name_def)
  have p: "parse_name (std @ show_secs (- e1) @ dst @ b) (abbr (st tz)) =
      (True, put_buf (std @ [NUL]) (abbr (st tz)), show_secs (- e1) @ dst @ b)"
    using names bufs show_secs_start by (intro parse_name_show) auto
  have o1: "parse_offset (show_secs (- e1) @ dst @ b) = (- e1, True, dst @ b)"
    using off d by (intro parse_offset_show) auto
  have p2: "parse_name (dst @ b) (abbr (dt tz)) = (True, put_buf (dst @ [NUL]) (abbr (dt tz)), b)"
    using names bufs show_secs_start unfolding b_def by (intro parse_name_show) auto
  have o2: "parse_offset b = (- e2, True, c)"
    unfolding b_def using off by (intro parse_offset_show) (auto simp: c_def)
  have r1: "parse_rule (show_rule r1 @ CHR '','' # show_rule r2) 7200 = (r1, CHR '','' # show_rule r2)"
    using rules by (intro parse_rule_show) auto
  have r2: "parse_rule (show_rule r2) 7200 = (r2, [])" using parse_rule_show [OF rules(2), of "[]"] by simp
  have e: "show_posix std e1 dst e2 r1 r2 = std @ show_secs (- e1) @ dst @ b"
    by (simp add: show_posix_def b_def c_def)
  have "z = tz\<lparr>tz_valid := True, has_dst := True, st := \<lparr>east = e1, isdst = 0, abbr = put_buf (std @ [NUL]) (abbr (st tz))\<rparr>,
      dt := (dt tz)\<lparr>isdst := 1, abbr := put_buf (dst @ [NUL]) (abbr (dt tz)), east := e2\<rparr>,
      start_rule := r1, end_rule := r2\<rparr>"
    using off by (simp add: z_def e parse_posix_def p o1 p2 parse_dst_def o2 c_def r1 r2)
  moreover have "NUL \<notin> set std" "NUL \<notin> set dst" using names by (auto simp: wf_name_def dest: alpha_not_NUL)
  ultimately show "has_dst z" "east (st z) = e1" "buf_str (abbr (st z)) = std" "east (dt z) = e2" "buf_str (abbr (dt z)) = dst"
    "start_rule z = r1" "end_rule z = r2" "isdst (st z) = 0" "isdst (dt z) = 1" by simp_all
qed

end
