(* ===== verification/Cact_Tz_Files.thy ===== *)
theory Cact_Tz_Files
  imports Cact_Tz
begin

text \<open>
  The state of the time zone engine over any sequence of calls: whatever \<open>TZ\<close> holds and whatever
  bytes a zone file has, the buffers keep their terminators and the indices stay inside their
  tables.  And which bytes of a zone file are read.
\<close>

section \<open>The invariant\<close>

definition good_buf :: "string \<Rightarrow> bool" where
  "good_buf b \<longleftrightarrow> length b = 12 \<and> b ! 11 = NUL"

definition tz_tables :: "tzstate \<Rightarrow> bool" where
  "tz_tables tz \<longleftrightarrow> (\<forall>z \<in> set (types tz). good_buf (abbr z)) \<and> length (types tz) \<le> 64 \<and>
     length (trans tz) \<le> TZ_MAXTRANS \<and> length (ttype tz) = length (trans tz)"

definition tz_indices :: "tzstate \<Rightarrow> bool" where
  "tz_indices tz \<longleftrightarrow> types tz \<noteq> [] \<and> 0 \<le> first_std tz \<and> first_std tz < int (length (types tz)) \<and>
     0 \<le> std_idx tz \<and> std_idx tz < int (length (types tz)) \<and> dst_idx tz < int (length (types tz))"

definition tz_wf :: "tzstate \<Rightarrow> bool" where
  "tz_wf tz \<longleftrightarrow> good_buf (abbr (st tz)) \<and> good_buf (abbr (dt tz)) \<and> tz_tables tz \<and> (tz_named tz \<longrightarrow> tz_indices tz)"

lemma takeWhile_stop: "takeWhile (\<lambda>c. c \<noteq> x) (xs @ x # ys) = takeWhile (\<lambda>c. c \<noteq> x) xs"
  by (induction xs) auto

lemma good_buf_str: "good_buf b \<Longrightarrow> length (buf_str b) \<le> 11"
proof -
  assume b: "good_buf b"
  then have "b = take 11 b @ NUL # drop 12 b"
    using id_take_nth_drop [of 11 b] by (simp add: good_buf_def)
  then have "buf_str b = takeWhile (\<lambda>c. c \<noteq> NUL) (take 11 b @ NUL # drop 12 b)" by (simp add: buf_str_def)
  also have "\<dots> = takeWhile (\<lambda>c. c \<noteq> NUL) (take 11 b)" by (rule takeWhile_stop)
  finally have "length (buf_str b) \<le> length (take 11 b)" using length_takeWhile_le by metis
  then show ?thesis by simp
qed

lemma good_buf_put: "good_buf b \<Longrightarrow> length xs \<le> 11 \<Longrightarrow> good_buf (put_buf xs b)"
  by (auto simp: good_buf_def put_buf_def nth_append)

lemma good_buf_put_NUL: "good_buf b \<Longrightarrow> length xs \<le> 11 \<Longrightarrow> good_buf (put_buf (xs @ [NUL]) b)"
  by (auto simp: good_buf_def put_buf_def nth_append nth_Cons')

lemma parse_name_buf: "good_buf out \<Longrightarrow> parse_name p out = (ok, out', q) \<Longrightarrow> good_buf out'"
proof -
  assume b: "good_buf out" and p: "parse_name p out = (ok, out', q)"
  have "length out - 1 = 11" using b by (simp add: good_buf_def)
  then have "\<exists>xs. length xs \<le> 11 \<and> (out' = put_buf (xs @ [NUL]) out \<or> out' = put_buf xs out)"
    using p by (auto simp: parse_name_def Let_def split: if_splits
        intro: exI [of _ "take 11 _"] exI [of _ "[]"])
  then show ?thesis using b good_buf_put good_buf_put_NUL by blast
qed

lemma parse_dst_keeps:
  "abbr (st (parse_dst p tz)) = abbr (st tz)" "abbr (dt (parse_dst p tz)) = abbr (dt tz)"
  "tz_tables (parse_dst p tz) = tz_tables tz" "tz_indices (parse_dst p tz) = tz_indices tz"
  "tz_named (parse_dst p tz) = tz_named tz" "trans (parse_dst p tz) = trans tz"
  "types (parse_dst p tz) = types tz" "ttype (parse_dst p tz) = ttype tz" "first_std (parse_dst p tz) = first_std tz"
  by (simp_all add: parse_dst_def default_us_rules_def tz_tables_def tz_indices_def Let_def split: prod.splits)

lemma parse_posix_keeps:
  assumes "good_buf (abbr (st tz))" "good_buf (abbr (dt tz))"
  shows "good_buf (abbr (st (parse_posix spec tz)))" "good_buf (abbr (dt (parse_posix spec tz)))"
    "tz_named (parse_posix spec tz) = tz_named tz" "trans (parse_posix spec tz) = trans tz"
    "types (parse_posix spec tz) = types tz" "ttype (parse_posix spec tz) = ttype tz"
    "first_std (parse_posix spec tz) = first_std tz"
proof -
  obtain ok nm p where n: "parse_name spec (abbr (st tz)) = (ok, nm, p)" by (metis prod_cases3)
  obtain v pr q where o: "parse_offset p = (v, pr, q)" by (metis prod_cases3)
  obtain ok2 nm2 q2 where n2: "parse_name q (abbr (dt tz)) = (ok2, nm2, q2)" by (metis prod_cases3)
  have g: "good_buf nm" "good_buf nm2" using parse_name_buf n n2 assms by blast+
  have u: "good_buf (put_buf (''UTC'' @ [NUL]) nm)" "good_buf (put_buf (''UTC'' @ [NUL]) (abbr (dt tz)))"
    using g assms by (intro good_buf_put_NUL; simp)+
  have "good_buf (abbr (st (parse_posix spec tz))) \<and> good_buf (abbr (dt (parse_posix spec tz))) \<and>
    tz_named (parse_posix spec tz) = tz_named tz \<and> trans (parse_posix spec tz) = trans tz \<and>
    types (parse_posix spec tz) = types tz \<and> ttype (parse_posix spec tz) = ttype tz \<and>
    first_std (parse_posix spec tz) = first_std tz"
    using n o n2 g u by (simp add: parse_posix_def set_utc_default_def parse_dst_keeps Let_def)
  then show "good_buf (abbr (st (parse_posix spec tz)))" "good_buf (abbr (dt (parse_posix spec tz)))"
    "tz_named (parse_posix spec tz) = tz_named tz" "trans (parse_posix spec tz) = trans tz"
    "types (parse_posix spec tz) = types tz" "ttype (parse_posix spec tz) = ttype tz"
    "first_std (parse_posix spec tz) = first_std tz" by simp_all
qed

lemma read_trans_length: "length acc \<le> TZ_MAXTRANS \<Longrightarrow> length (read_trans b off ent idx k j acc) \<le> TZ_MAXTRANS"
proof (induction k arbitrary: j acc)
  case (Suc k)
  show ?case using Suc.prems by (auto simp: Let_def intro!: Suc.IH)
qed simp

lemma read_abbr_length: "length (read_abbr b cp cnt i k) \<le> k"
  by (induction k arbitrary: i) auto

lemma read_type_buf: "good_buf (abbr old) \<Longrightarrow> good_buf (abbr (read_type b ti cp cnt old k))"
proof -
  assume g: "good_buf (abbr old)"
  then have "length (abbr old) - 1 = 11" by (simp add: good_buf_def)
  then show ?thesis using g read_abbr_length [of b cp cnt _ 11] by (auto simp: read_type_def intro!: good_buf_put_NUL)
qed

lemma old_type_buf: "tz_tables tz \<Longrightarrow> good_buf (abbr (old_type tz k))"
  by (auto simp: old_type_def tz_tables_def blank_zone_def good_buf_def)

lemma recent_type_bound: "tz_recent_type tz w < int (length (types tz)) \<or> types tz = []"
proof -
  have "recent_loop tz w n < int (length (types tz)) \<or> types tz = []" for n
    by (induction n) (auto simp: Let_def)
  then show ?thesis by (simp add: tz_recent_type_def)
qed

lemma first_standard_bound: "zs \<noteq> [] \<Longrightarrow> first_standard zs < length zs"
  by (simp add: first_standard_def Let_def)

lemma load_block_wf:
  assumes wf: "good_buf (abbr (st tz))" "good_buf (abbr (dt tz))" "tz_tables tz" and c: "0 < cnt_type c" "cnt_type c \<le> TZ_MAXTYPES"
  shows "tz_wf (load_block b n c off ent tz)"
proof -
  define tr where "tr = read_trans b off ent (s32 (off + cnt_time c * ent)) (nat (cnt_time c)) 0 []"
  define ti where "ti = s32 (off + cnt_time c * (ent + 1))"
  define zs where "zs = map (\<lambda>k. read_type b ti (s32 (ti + cnt_type c * 6)) (cnt_char c) (old_type tz k) (int k)) [0..<nat (cnt_type c)]"
  define tz1 where "tz1 = tz\<lparr>trans := map fst tr, ttype := map snd tr, types := zs, first_std := int (first_standard zs)\<rparr>"
  have zs: "zs \<noteq> []" "length zs \<le> 64" "\<forall>z \<in> set zs. good_buf (abbr z)"
    using c wf(3) by (auto simp: zs_def TZ_MAXTYPES_def intro!: read_type_buf old_type_buf)
  have tr: "length tr \<le> TZ_MAXTRANS" unfolding tr_def by (rule read_trans_length) simp
  define tz2 where "tz2 = (let spec = (if b 4 \<ge> 50
                  then footer_spec b n (s32 (off + cnt_time c * (ent + 1) + cnt_type c * 6 + cnt_char c
                         + cnt_leap c * (ent + 4) + cnt_std c + cnt_ut c))
                  else []) in if spec \<noteq> [] then (parse_posix (buf_str spec) tz1)\<lparr>tz_footer := True\<rparr> else tz1)"
  have s1: "good_buf (abbr (st tz1))" "good_buf (abbr (dt tz1))" "trans tz1 = map fst tr" "ttype tz1 = map snd tr"
    "types tz1 = zs" "first_std tz1 = int (first_standard zs)"
    using wf by (simp_all add: tz1_def)
  have s2: "good_buf (abbr (st tz2))" "good_buf (abbr (dt tz2))" "trans tz2 = map fst tr" "ttype tz2 = map snd tr"
    "types tz2 = zs" "first_std tz2 = int (first_standard zs)"
    using s1 parse_posix_keeps [OF s1(1,2)] by (simp_all add: tz2_def Let_def)
  have "load_block b n c off ent tz = tz2\<lparr>std_idx := if tz_recent_type tz2 0 < 0 then first_std tz2 else tz_recent_type tz2 0,
      dst_idx := tz_recent_type tz2 1, tz_named := True\<rparr>"
    by (simp add: load_block_def Let_def tz2_def tz1_def zs_def ti_def tr_def)
  then show ?thesis
    using s2 zs tr first_standard_bound [OF zs(1)] recent_type_bound [of tz2 0] recent_type_bound [of tz2 1]
    by (auto simp: tz_wf_def tz_tables_def tz_indices_def)
qed

lemma tz_read_zone_wf:
  assumes "good_buf (abbr (st tz))" "good_buf (abbr (dt tz))" "tz_tables tz" "tz_read_zone fs junk spec tz = Some z"
  shows "tz_wf z"
  using assms load_block_wf [OF assms(1-3)]
  by (auto simp: tz_read_zone_def read_zone_bytes_def Let_def split: option.splits if_splits)

lemma tzset_wf:
  assumes "tz_wf tz"
  shows "tz_wf (tzset fs junk tzenv tz)"
proof -
  have r: "tz_wf (refresh_public_names z) = tz_wf z" for z
    by (simp add: refresh_public_names_def tz_wf_def tz_tables_def tz_indices_def Let_def)
  define tz1 where "tz1 spec = tz\<lparr>tz_key := take 127 spec, tz_named := False, tz_footer := False\<rparr>" for spec
  have t1: "good_buf (abbr (st (tz1 spec)))" "good_buf (abbr (dt (tz1 spec)))" "tz_tables (tz1 spec)" "\<not> tz_named (tz1 spec)" for spec
    using assms by (simp_all add: tz1_def tz_wf_def tz_tables_def)
  have p: "tz_wf (parse_posix x (tz1 spec))" for x spec
    using parse_posix_keeps [OF t1(1,2)] t1(3,4) [of spec] by (simp add: tz_wf_def tz_tables_def)
  show ?thesis
    using assms r p tz_read_zone_wf [OF t1(1-3)]
    by (auto simp: tzset_def Let_def tz1_def [symmetric] split: option.splits)
qed

section \<open>The bytes that are read\<close>

text \<open>Counts that a file of at most \<open>TZ_FILE_MAX\<close> bytes can have.\<close>

definition sound_counts :: "counts \<Rightarrow> bool" where
  "sound_counts c \<longleftrightarrow>
     (\<forall>x \<in> {cnt_ut c, cnt_std c, cnt_leap c, cnt_time c, cnt_type c, cnt_char c}. 0 \<le> x \<and> x \<le> 8192)"

definition agree :: "int \<Rightarrow> (int \<Rightarrow> int) \<Rightarrow> (int \<Rightarrow> int) \<Rightarrow> bool" where
  "agree n b b' \<longleftrightarrow> (\<forall>i. 0 \<le> i \<and> i < n \<longrightarrow> b i = b' i)"

lemma agreeD: "agree n b b' \<Longrightarrow> 0 \<le> i \<Longrightarrow> i < n \<Longrightarrow> b i = b' i"
  by (simp add: agree_def)

lemma rd_be32_agree: "agree n b b' \<Longrightarrow> 0 \<le> i \<Longrightarrow> i + 4 \<le> n \<Longrightarrow> rd_be32 b i = rd_be32 b' i"
  by (simp add: rd_be32_def agree_def)

lemma rd_be64_agree: "agree n b b' \<Longrightarrow> 0 \<le> i \<Longrightarrow> i + int k \<le> n \<Longrightarrow> rd_be64 b i k = rd_be64 b' i k"
  by (induction k) (simp_all add: agree_def)

lemma read_counts_agree: "agree n b b' \<Longrightarrow> 0 \<le> i \<Longrightarrow> i + 24 \<le> n \<Longrightarrow> read_counts b i = read_counts b' i"
  by (simp add: read_counts_def rd_be32_agree)

lemma has_magic_agree: "agree n b b' \<Longrightarrow> 0 \<le> i \<Longrightarrow> i + 4 \<le> n \<Longrightarrow> has_magic b i = has_magic b' i"
  by (simp add: has_magic_def agree_def)

lemma trans_time_agree:
  "agree n b b' \<Longrightarrow> 0 \<le> i \<Longrightarrow> ent = 4 \<or> ent = 8 \<Longrightarrow> i + ent \<le> n \<Longrightarrow> trans_time b i ent = trans_time b' i ent"
  using rd_be64_agree [of n b b' i 8] by (auto simp: trans_time_def rd_be32_agree)

lemma read_trans_agree:
  assumes ag: "agree n b b'" and n: "n \<le> 8192" and ent: "ent = 4 \<or> ent = 8"
  shows "0 \<le> j \<Longrightarrow> 0 \<le> off \<Longrightarrow> 0 \<le> idx \<Longrightarrow> off + (j + int k) * ent \<le> n \<Longrightarrow> idx + j + int k \<le> n \<Longrightarrow>
   read_trans b off ent idx k j acc = read_trans b' off ent idx k j acc"
proof (induction k arbitrary: j acc)
  case (Suc k)
  have e: "off + (j + int (Suc k)) * ent = off + j * ent + ent + int k * ent" by (simp add: algebra_simps)
  have jk: "0 \<le> j * ent" "0 \<le> int k * ent" using Suc.prems ent by auto
  have t: "trans_time b (s32 (off + j * ent)) ent = trans_time b' (s32 (off + j * ent)) ent"
    using Suc.prems jk e n ent by (intro trans_time_agree [OF ag]) auto
  have i: "b (s32 (idx + j)) = b' (s32 (idx + j))" using Suc.prems n by (intro agreeD [OF ag]) auto
  have "read_trans b off ent idx k (j + 1) acc' = read_trans b' off ent idx k (j + 1) acc'" for acc'
    using Suc.prems by (intro Suc.IH) (auto simp: algebra_simps)
  then show ?case by (simp add: t i Let_def)
qed simp

lemma read_abbr_agree:
  assumes ag: "agree n b b'" and cp: "0 \<le> cp" "cp + cnt \<le> n"
  shows "0 \<le> i \<Longrightarrow> read_abbr b cp cnt i k = read_abbr b' cp cnt i k"
proof (induction k arbitrary: i)
  case (Suc k)
  have "b (cp + i) = b' (cp + i)" if "i < cnt" using Suc.prems cp that by (intro agreeD [OF ag]) auto
  then show ?case using Suc by auto
qed simp

lemma read_type_agree:
  assumes ag: "agree n b b'" and ti: "0 \<le> ti" "0 \<le> k" "ti + k * 6 + 6 \<le> n" and cp: "0 \<le> cp" "cp + cnt \<le> n"
    and pos: "\<And>i. 0 \<le> b' i"
  shows "read_type b ti cp cnt old k = read_type b' ti cp cnt old k"
proof -
  have "b (ti + k * 6 + 5) = b' (ti + k * 6 + 5)" "b (ti + k * 6 + 4) = b' (ti + k * 6 + 4)"
    using ti by (intro agreeD [OF ag]; simp)+
  moreover have "rd_be32 b (ti + k * 6) = rd_be32 b' (ti + k * 6)" using ti by (intro rd_be32_agree [OF ag]) auto
  ultimately show ?thesis using read_abbr_agree [OF ag cp pos] by (simp add: read_type_def)
qed

lemma footer_agree: "agree n b b' \<Longrightarrow> 0 \<le> d \<Longrightarrow> d + 1 < 2147483648 \<Longrightarrow> footer_spec b n d = footer_spec b' n d"
proof -
  assume ag: "agree n b b'" and d: "0 \<le> d" "d + 1 < 2147483648"
  have m: "map (\<lambda>q. char_of (b q) :: char) [d + 1..n - 1] = map (\<lambda>q. char_of (b' q)) [d + 1..n - 1]"
    using d agreeD [OF ag] by simp
  have "s32 (d + 1) < n \<Longrightarrow> b d = b' d" using d by (intro agreeD [OF ag]) auto
  then show ?thesis unfolding footer_spec_def m by auto
qed

lemma load_block_agree:
  assumes ag: "agree n b b'" and n: "44 \<le> n" "n \<le> 8192" and ent: "ent = 4 \<or> ent = 8" and c: "sound_counts c" and off: "0 \<le> off"
    and fits: "off + cnt_time c * (ent + 1) + cnt_type c * 6 + cnt_char c \<le> n" and pos: "\<And>i. 0 \<le> b' i"
  shows "load_block b n c off ent tz = load_block b' n c off ent tz"
proof -
  note cs = c [unfolded sound_counts_def, simplified]
  define x where "x = cnt_time c * ent"
  have x: "cnt_time c * (ent + 1) = x + cnt_time c" "0 \<le> x" "x \<le> 65536" using cs ent by (auto simp: x_def algebra_simps)
  have ti: "s32 (off + cnt_time c * (ent + 1)) = off + x + cnt_time c"
    "s32 (off + cnt_time c * ent) = off + x"
    using x off fits cs n by (simp_all add: x_def [symmetric])
  have cp: "s32 (off + x + cnt_time c + cnt_type c * 6) = off + x + cnt_time c + cnt_type c * 6"
    using x off fits cs n by simp
  have tr: "read_trans b off ent (off + x) (nat (cnt_time c)) 0 [] = read_trans b' off ent (off + x) (nat (cnt_time c)) 0 []"
    using fits cs x off by (intro read_trans_agree [OF ag n(2) ent]) (auto simp: x_def)
  have ty: "read_type b (off + x + cnt_time c) (off + x + cnt_time c + cnt_type c * 6) (cnt_char c) old (int k) =
      read_type b' (off + x + cnt_time c) (off + x + cnt_time c + cnt_type c * 6) (cnt_char c) old (int k)"
    if "k < nat (cnt_type c)" for k old
    using that fits cs x off by (intro read_type_agree [OF ag]) (auto simp: pos)
  have zs: "map (\<lambda>k. read_type b (off + x + cnt_time c) (off + x + cnt_time c + cnt_type c * 6) (cnt_char c) (old_type tz k) (int k)) [0..<nat (cnt_type c)]
    = map (\<lambda>k. read_type b' (off + x + cnt_time c) (off + x + cnt_time c + cnt_type c * 6) (cnt_char c) (old_type tz k) (int k)) [0..<nat (cnt_type c)]"
    using ty by (intro map_cong) auto
  define l where "l = cnt_leap c * (ent + 4)"
  have l: "0 \<le> l" "l \<le> 98304" using cs ent by (auto simp: l_def)
  have b4: "b 4 = b' 4" using n by (intro agreeD [OF ag]) auto
  have ft: "footer_spec b n (s32 (off + (x + cnt_time c) + cnt_type c * 6 + cnt_char c + l + cnt_std c + cnt_ut c)) =
      footer_spec b' n (s32 (off + (x + cnt_time c) + cnt_type c * 6 + cnt_char c + l + cnt_std c + cnt_ut c))"
    using off x fits cs l n by (intro footer_agree [OF ag]) auto
  show ?thesis
    unfolding load_block_def Let_def ti cp tr zs b4 unfolding x(1) l_def [symmetric] ft ..
qed

lemma choose_block_agree:
  assumes ag: "agree n b b'" and n: "44 \<le> n" "n \<le> 8192" and c: "sound_counts (read_counts b 20)"
  shows "choose_block b n = choose_block b' n"
proof -
  have r: "read_counts b 20 = read_counts b' 20" "b 4 = b' 4"
    using n by (auto intro: read_counts_agree [OF ag] agreeD [OF ag])
  define c where "c = read_counts b 20"
  define sk where "sk = cnt_time c * 5 + cnt_type c * 6 + cnt_char c + cnt_leap c * 8 + cnt_std c + cnt_ut c"
  have sk: "0 \<le> sk" "sk \<le> 200000" using assms(4) by (auto simp: sk_def c_def sound_counts_def)
  have m: "has_magic b (44 + sk) = has_magic b' (44 + sk)" "read_counts b (44 + sk + 20) = read_counts b' (44 + sk + 20)"
    if "44 + sk + 44 \<le> n"
    using that sk has_magic_agree [OF ag, of "44 + sk"] read_counts_agree [OF ag, of "44 + sk + 20"] by simp_all
  show ?thesis
    unfolding choose_block_def Let_def r [symmetric] c_def [symmetric] sk_def [symmetric]
    using m sk by auto
qed

lemma choose_block_shape:
  "choose_block b n = Some (c, off, ent) \<Longrightarrow> (ent = 4 \<or> ent = 8) \<and> (sound_counts (read_counts b 20) \<longrightarrow> 0 \<le> off)"
  by (auto simp: choose_block_def Let_def sound_counts_def split: if_splits)

lemma byte_at_agree: "agree (int (length file)) (byte_at junk file) (byte_at junk' file)"
  by (simp add: agree_def byte_at_def)

lemma byte_at_pos: "0 \<le> byte_at junk file i"
  by (simp add: byte_at_def)

text \<open>With counts of a possible size, only bytes of the file are used.\<close>

lemma zone_reads_file:
  assumes len: "length file \<le> TZ_FILE_MAX" and hd1: "sound_counts (read_counts (byte_at junk file) 20)"
    and hd2: "\<And>c off ent. choose_block (byte_at junk file) (int (length file)) = Some (c, off, ent) \<Longrightarrow> sound_counts c"
  shows "read_zone_bytes junk' file tz = read_zone_bytes junk file tz"
proof -
  define b b' n where "b = byte_at junk file" and "b' = byte_at junk' file" and "n = int (length file)"
  have ag: "agree n b b'" by (simp add: b_def b'_def n_def byte_at_agree)
  have n: "n \<le> 8192" using len by (simp add: n_def TZ_FILE_MAX_def)
  have main: "read_zone_bytes junk' file tz = read_zone_bytes junk file tz" if n44: "44 \<le> n"
  proof -
    have cb: "choose_block b' n = choose_block b n"
      using choose_block_agree [OF ag n44 n] hd1 by (simp add: b_def)
    have hm: "has_magic b' 0 = has_magic b 0" using has_magic_agree [OF ag, of 0] n44 by simp
    have lb: "load_block b' n c off ent tz = load_block b n c off ent tz"
      if "choose_block b n = Some (c, off, ent)" "\<not> s32 (off + cnt_time c * (ent + 1) + cnt_type c * 6 + cnt_char c) > n"
        "off \<le> 250000" for c off ent
    proof -
      have s: "ent = 4 \<or> ent = 8" "0 \<le> off" "sound_counts c"
        using choose_block_shape [OF that(1)] hd1 hd2 that(1) by (auto simp: b_def n_def)
      then have "0 \<le> cnt_time c * (ent + 1)" "cnt_time c * (ent + 1) \<le> 73728" by (auto simp: sound_counts_def)
      then have "off + cnt_time c * (ent + 1) + cnt_type c * 6 + cnt_char c \<le> n"
        using that s n by (simp add: sound_counts_def)
      then show ?thesis using load_block_agree [OF ag n44 n s(1,3,2)] byte_at_pos by (simp add: b'_def)
    qed
    have "off \<le> 250000" if "choose_block b n = Some (c, off, ent)" for c off ent
      using that hd1 n by (auto simp: choose_block_def Let_def sound_counts_def b_def split: if_splits)
    then show ?thesis
      unfolding read_zone_bytes_def Let_def b_def [symmetric] b'_def [symmetric] n_def [symmetric] cb hm
      using lb by (auto split: option.splits)
  qed
  show ?thesis
  proof (cases "44 \<le> n")
    case False
    then show ?thesis by (simp add: read_zone_bytes_def n_def)
  qed (rule main)
qed

text \<open>The counts are signed and only their sum is checked: a file of 44 bytes with a negative
  number of characters is accepted, and its table is read from behind the end of the file.\<close>

definition evil_zone :: string where
  "evil_zone = ''TZif'' @ replicate 28 NUL @ [NUL, NUL, NUL, CHR 0x01, NUL, NUL, NUL, CHR 0x01, CHR 0xFF, CHR 0xFF, CHR 0xFC, CHR 0x18]"

lemma evil_zone_overread:
  "\<exists>z. read_zone_bytes (\<lambda>_. c) evil_zone tz = Some z \<and> trans z = [s32 (uchar c * 16843009)]"
proof -
  define b where "b = byte_at (\<lambda>_. c) evil_zone"
  define cs where "cs = \<lparr>cnt_ut = 0, cnt_std = 0, cnt_leap = 0, cnt_time = 1, cnt_type = 1, cnt_char = - 1000\<rparr>"
  have l: "length evil_zone = 44" by (simp add: evil_zone_def)
  have out: "b i = uchar c" if "44 \<le> i" for i
    using that by (simp add: b_def byte_at_def l)
  have inside: "b i = uchar (evil_zone ! nat i)" if "0 \<le> i" "i < 44" for i
    using that by (simp add: b_def byte_at_def l)
  have hm: "has_magic b 0" "b 4 = 0"
    by (simp_all add: has_magic_def inside evil_zone_def uchar_def nth_append)
  have rc: "read_counts b 20 = cs"
    by (simp add: read_counts_def rd_be32_def inside evil_zone_def uchar_def nth_append cs_def s32_def)
  have "choose_block b 44 = Some (cs, 44, 4)" using hm by (simp add: choose_block_def rc Let_def)
  then have "read_zone_bytes (\<lambda>_. c) evil_zone tz = Some (load_block b 44 cs 44 4 tz)"
    using hm by (simp add: read_zone_bytes_def l b_def [symmetric] cs_def TZ_MAXTYPES_def)
  moreover have "read_trans b 44 4 48 1 0 [] = [(s32 (uchar c * 16843009), nat (uchar c))]"
  proof -
    have "s32 (16843009 * uchar c) \<le> 2147483647" using s32_bounds(2) [of "16843009 * uchar c"] by linarith
    then show ?thesis
      by (simp add: not_less TZ_MAXTRANS_def trans_time_def rd_be32_def out Let_def mult.commute [of "uchar c"])
  qed
  ultimately show ?thesis
    using hm by (simp add: load_block_def Let_def cs_def)
qed

end
