(* ===== verification/Cact_Time.thy ===== *)
theory Cact_Time
  imports Cact_Tz Cact_Errno
begin

text \<open>
  The clocks and the time conversions of \<open>src/time.c\<close> on top of the zone engine.  The contents of
  \<open>/proc/time\<close> and \<open>/proc/wallclock\<close> (seconds and microseconds, \<open>None\<close> when the node cannot be read)
  are arguments; so is \<open>tzset\<close>, as the function \<open>refresh\<close> on the zone state.  A call returns its
  value, the error number it sets if any, and what it stores through its pointers; a sleep is the
  number of milliseconds handed to \<open>SYS_POLL\<close>.
\<close>

section \<open>Clocks\<close>

definition CLOCK_REALTIME :: int where
  "CLOCK_REALTIME = 0"

definition CLOCK_MONOTONIC :: int where
  "CLOCK_MONOTONIC = 1"

definition TIMER_ABSTIME :: int where
  "TIMER_ABSTIME = 1"

type_synonym reading = "(int \<times> int) option"

definition read_wallclock :: "reading \<Rightarrow> reading \<Rightarrow> reading" where
  "read_wallclock wall boot = (case wall of Some t \<Rightarrow> Some t | None \<Rightarrow> boot)"

definition gettimeofday :: "reading \<Rightarrow> reading \<Rightarrow> bool \<Rightarrow> int \<times> (int \<times> int) option" where
  "gettimeofday wall boot have_tv =
     (if \<not> have_tv then (0, None)
      else case read_wallclock wall boot of
        None \<Rightarrow> (-1, None)
      | Some (s, u) \<Rightarrow> (0, Some (s32 s, s32 u)))"

definition clock_gettime :: "reading \<Rightarrow> reading \<Rightarrow> int \<Rightarrow> int \<times> int option \<times> timespec option" where
  "clock_gettime wall boot clkid =
     (if clkid \<noteq> CLOCK_REALTIME \<and> clkid \<noteq> CLOCK_MONOTONIC then (-1, Some EINVAL, None)
      else case (if clkid = CLOCK_MONOTONIC then boot else read_wallclock wall boot) of
        None \<Rightarrow> (-1, None, None)
      | Some (s, u) \<Rightarrow> (0, None, Some \<lparr>tv_sec = s32 s, tv_nsec = s32 (s32 u * 1000)\<rparr>))"

definition clock_getres :: "int \<Rightarrow> int \<times> int option \<times> timespec option" where
  "clock_getres clkid =
     (if clkid \<noteq> CLOCK_REALTIME \<and> clkid \<noteq> CLOCK_MONOTONIC then (-1, Some EINVAL, None)
      else (0, None, Some \<lparr>tv_sec = 0, tv_nsec = 1000000\<rparr>))"

definition bad_timespec :: "timespec option \<Rightarrow> bool" where
  "bad_timespec ts = (case ts of None \<Rightarrow> True | Some t \<Rightarrow> tv_sec t < 0 \<or> tv_nsec t < 0 \<or> tv_nsec t \<ge> 1000000000)"

text \<open>\<open>dev\<close> is the result of the \<open>SETWALLCLOCK\<close> command on the time it is given.\<close>

definition clock_settime :: "(int \<times> int \<Rightarrow> int) \<Rightarrow> int \<Rightarrow> timespec option \<Rightarrow> int \<times> int option" where
  "clock_settime dev clkid tp =
     (if clkid \<noteq> CLOCK_REALTIME then (-1, Some EINVAL)
      else if bad_timespec tp then (-1, Some EINVAL)
      else nio_map (dev (u32 (tv_sec (the tp)), u32 (tv_nsec (the tp) sdiv 1000))))"

definition sleep_ms :: "timespec \<Rightarrow> int" where
  "sleep_ms req =
     (let ms = u32 (u32 (s32 (tv_sec req * 1000)) + u32 ((tv_nsec req + 999999) sdiv 1000000))
      in if ms = 0 then 1 else ms)"

definition nanosleep :: "timespec option \<Rightarrow> int \<times> int option \<times> int option" where
  "nanosleep req =
     (if bad_timespec req then (-1, Some EINVAL, None) else (0, None, Some (sleep_ms (the req))))"

text \<open>\<open>clock_nanosleep\<close> returns the error number itself; \<open>errno0\<close> is the value of \<open>errno\<close> before the
  call, which it returns when a clock cannot be read.\<close>

definition clock_nanosleep :: "reading \<Rightarrow> reading \<Rightarrow> int \<Rightarrow> int \<Rightarrow> int \<Rightarrow> timespec option \<Rightarrow> int \<times> int option" where
  "clock_nanosleep wall boot errno0 clkid flags req =
     (if clkid \<noteq> CLOCK_REALTIME \<and> clkid \<noteq> CLOCK_MONOTONIC then (EINVAL, None)
      else if and flags (not TIMER_ABSTIME) \<noteq> 0 then (EINVAL, None)
      else if bad_timespec req then (EINVAL, None)
      else if and flags TIMER_ABSTIME \<noteq> 0
      then case clock_gettime wall boot clkid of
             (_, e, None) \<Rightarrow> ((case e of Some x \<Rightarrow> x | None \<Rightarrow> errno0), None)
           | (_, _, Some now) \<Rightarrow>
               (let deadline = tv_sec (the req) * 1000000000 + tv_nsec (the req);
                    now_ns = tv_sec now * 1000000000 + tv_nsec now;
                    rel = deadline - now_ns
                in if rel \<le> 0 then (0, None)
                   else let sleep_for = \<lparr>tv_sec = s32 (rel sdiv 1000000000), tv_nsec = rel smod 1000000000\<rparr>;
                            (r, e, ms) = nanosleep (Some sleep_for)
                        in if r \<noteq> 0 then (the e, None) else (0, ms))
      else let (r, e, ms) = nanosleep req in if r \<noteq> 0 then (the e, None) else (0, ms))"

definition time :: "reading \<Rightarrow> reading \<Rightarrow> int" where
  "time wall boot = (case gettimeofday wall boot True of (_, Some (s, _)) \<Rightarrow> s | _ \<Rightarrow> -1)"

section \<open>Conversions\<close>

definition gmtime_r :: "int option \<Rightarrow> tm option" where
  "gmtime_r timep = (case timep of None \<Rightarrow> None | Some t \<Rightarrow> Some (fill_gmtime t))"

definition localtime_r :: "(tzstate \<Rightarrow> tzstate) \<Rightarrow> int \<Rightarrow> tzstate \<Rightarrow> tzstate \<times> tm" where
  "localtime_r refresh t tz =
     (let (tz', e, d) = cact_tz_offset_utc refresh t tz
      in (tz', (fill_gmtime (s32 (t + e)))\<lparr>tm_isdst := d\<rparr>))"

definition mktime :: "(tzstate \<Rightarrow> tzstate) \<Rightarrow> tm \<Rightarrow> tzstate \<Rightarrow> tzstate \<times> int \<times> tm" where
  "mktime refresh tm tz =
     (let y = s32 (tm_year tm + 1900); m = tm_mon tm; d = tm_mday tm
      in if m < 0 \<or> m > 11 \<or> d < 1 \<or> d > 31 \<or> y < 1 then (tz, -1, tm)
         else let (tz1, t) = cact_tz_utc_from_tm refresh tm tz;
                  days = days_from_civil y (m + 1) d;
                  wday = ((days + 4) smod 7 + 7) smod 7;
                  yday = days - days_from_civil y 1 1;
                  (tz2, _, isd) = cact_tz_offset_utc refresh t tz1
              in (tz2, t, tm\<lparr>tm_wday := wday, tm_yday := yday, tm_isdst := isd\<rparr>))"

section \<open>Text\<close>

function rev_digits :: "int \<Rightarrow> string" where
  "rev_digits v = (if v > 0 then char_of (48 + v mod 10) # rev_digits (v div 10) else [])"
  by pat_completeness auto
termination by (relation "measure nat") auto

declare rev_digits.simps [simp del]

definition app_int :: "int \<Rightarrow> nat \<Rightarrow> string" where
  "app_int v width =
     (let tmp = (if v = 0 then ''0'' else rev_digits v)
      in replicate (width - length tmp) CHR ''0'' @ rev tmp)"

definition day_names :: "string list" where
  "day_names = [''Sun'', ''Mon'', ''Tue'', ''Wed'', ''Thu'', ''Fri'', ''Sat'']"

definition month_names :: "string list" where
  "month_names = [''Jan'', ''Feb'', ''Mar'', ''Apr'', ''May'', ''Jun'', ''Jul'', ''Aug'', ''Sep'', ''Oct'', ''Nov'', ''Dec'']"

text \<open>The string \<open>asctime_r\<close> stores, or \<open>None\<close> when a table is read outside its bounds.\<close>

definition asctime_r :: "tm \<Rightarrow> string option" where
  "asctime_r tm =
     (let w = nat (tm_wday tm mod 8)
      in if w < 7 \<and> 0 \<le> tm_mon tm \<and> tm_mon tm < 12
         then Some (day_names ! w @ '' '' @ month_names ! nat (tm_mon tm) @ '' '' @ app_int (tm_mday tm) 2 @ '' ''
           @ app_int (tm_hour tm) 2 @ '':'' @ app_int (tm_min tm) 2 @ '':'' @ app_int (tm_sec tm) 2 @ '' ''
           @ app_int (s32 (tm_year tm + 1900)) 4 @ [CHR 0x0A])
         else None)"

definition ctime_r :: "int option \<Rightarrow> string option" where
  "ctime_r timep = (case gmtime_r timep of None \<Rightarrow> None | Some tm \<Rightarrow> asctime_r tm)"

section \<open>Sleeping long enough\<close>

lemma ceil_ms: "0 \<le> n \<Longrightarrow> n < 1000000000 \<Longrightarrow> n \<le> (n + 999999) div 1000000 * 1000000 \<and> (n + 999999) div 1000000 \<le> 1000" for n :: int
proof -
  assume n: "0 \<le> n" "n < 1000000000"
  define q r where "q = (n + 999999) div 1000000" and "r = (n + 999999) mod 1000000"
  have "q * 1000000 + r = n + 999999" "r < 1000000" "0 \<le> r" by (simp_all add: q_def r_def)
  then show ?thesis using n unfolding q_def [symmetric] by linarith
qed

lemma sleep_ms_enough:
  assumes "0 \<le> tv_sec r" "tv_sec r < 4294966" "0 \<le> tv_nsec r" "tv_nsec r < 1000000000"
  shows "tv_sec r * 1000000000 + tv_nsec r \<le> sleep_ms r * 1000000"
    "sleep_ms r * 1000000 < tv_sec r * 1000000000 + tv_nsec r + 1000001"
proof -
  define c where "c = (tv_nsec r + 999999) div 1000000"
  have c: "tv_nsec r \<le> c * 1000000" "c \<le> 1000" "0 \<le> c" "c * 1000000 < tv_nsec r + 1000000"
    using ceil_ms [of "tv_nsec r"] assms div_mult_mod_eq [of "tv_nsec r + 999999" 1000000]
      pos_mod_sign [of 1000000 "tv_nsec r + 999999"]
    by (auto simp: c_def div_int_pos_iff simp del: div_mult_mod_eq mult_div_mod_eq pos_mod_sign)
  have "(tv_nsec r + 999999) sdiv 1000000 = c" using assms by (simp add: smod_div c_def)
  moreover have "u32 (s32 (tv_sec r * 1000)) = tv_sec r * 1000"
    using assms by (simp add: u32_def s32_def mod_diff_left_eq)
  ultimately have e: "sleep_ms r = (if tv_sec r * 1000 + c = 0 then 1 else tv_sec r * 1000 + c)"
    using assms c by (simp add: sleep_ms_def Let_def)
  show "tv_sec r * 1000000000 + tv_nsec r \<le> sleep_ms r * 1000000"
    "sleep_ms r * 1000000 < tv_sec r * 1000000000 + tv_nsec r + 1000001"
    using c assms unfolding e by auto
qed

text \<open>Seconds past \<open>2 ^ 32 / 1000\<close> wrap around: a sleep of seven weeks and a day lasts less than a
  second.\<close>

lemma sleep_ms_wraps: "sleep_ms \<lparr>tv_sec = 4294968, tv_nsec = 0\<rparr> = 704"
  by (simp add: sleep_ms_def s32_def u32_def signed_divide_int_def)

section \<open>From a time to a date and back\<close>

lemma days_year_mono: "y \<le> y' \<Longrightarrow> days_from_civil y 1 1 \<le> days_from_civil y' 1 1"
proof (induction "nat (y' - y)" arbitrary: y)
  case (Suc n)
  then have "days_from_civil (y + 1) 1 1 \<le> days_from_civil y' 1 1" by (intro Suc.hyps) auto
  then show ?case using days_next_year [of y] year_days_pos(1) [of y] by linarith
qed simp

lemma fill_gmtime_day: "tm_day (fill_gmtime t) = t div 86400"
proof -
  note v = fill_gmtime_spec [of t, THEN conjunct1, unfolded valid_tm_def]
  define s where "s = tm_hour (fill_gmtime t) * 3600 + tm_min (fill_gmtime t) * 60 + tm_sec (fill_gmtime t)"
  have s: "0 \<le> s" "s < 86400" using v by (auto simp: s_def)
  have "t = tm_day (fill_gmtime t) * 86400 + s"
    using fill_gmtime_spec [of t] by (simp add: tm_seconds_def s_def)
  then have "t div 86400 = (tm_day (fill_gmtime t) * 86400 + s) div 86400" by simp
  also have "\<dots> = tm_day (fill_gmtime t)" using s by simp
  finally show ?thesis by simp
qed

lemma fill_gmtime_year:
  assumes "- 2147483648 \<le> t" "t < 2147483648"
  shows "1 \<le> tm_year (fill_gmtime t) + 1900" "tm_year (fill_gmtime t) < 1000000"
proof -
  define y where "y = tm_year (fill_gmtime t) + 1900"
  have d: "days_from_civil y 1 1 \<le> t div 86400" "t div 86400 < days_from_civil (y + 1) 1 1"
    using fill_gmtime_spec [of t] days_next_year [of y] by (auto simp: y_def)
  define q where "q = t div 86400"
  have b: "- 24856 \<le> q" "q \<le> 24856" using assms by (auto simp: q_def)
  have "days_from_civil 1 1 1 = - 719162" "days_from_civil 1000000 1 1 = 364522972"
    by (simp_all add: days_from_civil_def signed_divide_int_def signed_modulo_int_def)
  then show "1 \<le> tm_year (fill_gmtime t) + 1900" "tm_year (fill_gmtime t) < 1000000"
    using days_year_mono [of "y + 1" 1] days_year_mono [of 1000000 y] d [folded q_def] b y_def by linarith+
qed

lemma smod_twice: "0 < b \<Longrightarrow> (a smod b + b) smod b = a mod b" for a b :: int
proof -
  assume b: "0 < b"
  show ?thesis
  proof (cases "a smod b < 0")
    case True
    then have "a smod b + b = a mod b" using smod_floor [OF b, of a] by simp
    then show ?thesis using b by (simp add: smod_div)
  next
    case False
    then have "a smod b = a mod b" using smod_floor [OF b, of a] by simp
    then show ?thesis using b by (simp add: smod_div)
  qed
qed

lemma floor_smod: "((x + 4) smod 7 + 7) smod 7 = (x + 4) mod 7" for x :: int
  by (rule smod_twice) simp

text \<open>A zone given by a POSIX string, with offsets of at most a day or so.\<close>

definition posix_zone :: "tzstate \<Rightarrow> bool" where
  "posix_zone tz \<longleftrightarrow> \<not> tz_named tz \<and> \<bar>east (st tz)\<bar> \<le> 100000 \<and> (has_dst tz \<longrightarrow> \<bar>east (dt tz)\<bar> \<le> 100000)"

lemma lookup_posix:
  assumes "\<not> tz_named tz"
  shows "lookup tz t = (east (st tz), 0, buf_str (abbr (st tz))) \<or>
    has_dst tz \<and> lookup tz t = (east (dt tz), 1, buf_str (abbr (dt tz)))"
  using assms by (simp add: lookup_def Let_def)

lemma mktime_localtime:
  assumes same: "refresh tz = tz" and z: "posix_zone tz" and t: "- 2147380000 \<le> t" "t < 2147380000"
    and loc: "localtime_r refresh t tz = (tz', tm)"
  shows "mktime refresh tm tz = (tz, t, tm)"
proof -
  obtain e d ab where l: "lookup tz t = (e, d, ab)" by (metis prod_cases3)
  have ed: "e = (if d > 0 then east (dt tz) else east (st tz))" "d = 0 \<or> d = 1 \<and> has_dst tz" "\<bar>e\<bar> \<le> 100000"
    using z l lookup_posix [of tz t] by (auto simp: posix_zone_def)
  define g where "g = fill_gmtime (t + e)"
  have sh: "s32 (t + e) = t + e" using t ed(3) by simp
  have tm: "tm = g\<lparr>tm_isdst := d\<rparr>"
    using loc same l by (simp add: localtime_r_def cact_tz_offset_utc_def sh g_def)
  note spec = fill_gmtime_spec [of "t + e", folded g_def]
  have yr: "1 \<le> tm_year g + 1900" "tm_year g < 1000000"
    using fill_gmtime_year [of "t + e"] t ed(3) by (auto simp: g_def)
  have y: "s32 (tm_year tm + 1900) = tm_year g + 1900" using yr by (simp add: tm)
  have day: "days_from_civil (tm_year g + 1900) (tm_mon g + 1) (tm_mday g) = (t + e) div 86400"
    using fill_gmtime_day [of "t + e"] by (simp add: tm_day_def g_def)
  have dm: "tm_mday g \<le> 31"
  proof -
    have "1 \<le> tm_mon g + 1" "tm_mon g + 1 \<le> 12" using spec by (auto simp: valid_tm_def)
    then have "days_in_month (tm_year g + 1900) (tm_mon g + 1) \<le> 31" by (simp add: month_bounds)
    then show ?thesis using spec by (auto simp: valid_tm_def)
  qed
  have v: "\<not> (tm_mon tm < 0 \<or> tm_mon tm > 11 \<or> tm_mday tm < 1 \<or> tm_mday tm > 31 \<or> tm_year g + 1900 < 1)"
    using spec yr dm by (auto simp: valid_tm_def tm)
  have cs: "civil_seconds tm = t + e"
    using spec t ed(3) by (simp add: civil_seconds_wraps tm_seconds_def tm_day_def tm)
  have utc: "cact_tz_utc_from_tm refresh tm tz = (tz, t)"
  proof -
    have "tm_isdst tm = d" by (simp add: tm)
    then show ?thesis using ed t same unfolding cact_tz_utc_from_tm_def cs Let_def by auto
  qed
  have yd: "tm_yday g = (t + e) div 86400 - days_from_civil (tm_year g + 1900) 1 1" using spec by simp
  have wd: "tm_wday g = ((t + e) div 86400 + 4) mod 7" using spec by simp
  have "mktime refresh tm tz = (tz, t, tm\<lparr>tm_wday := tm_wday g, tm_yday := tm_yday g, tm_isdst := d\<rparr>)"
    using v unfolding mktime_def Let_def y utc
    by (simp add: day floor_smod yd wd cact_tz_offset_utc_def same l tm)
  then show ?thesis by (simp add: tm)
qed

text \<open>\<open>tzset\<close> leaves the state alone while \<open>TZ\<close> keeps a POSIX string that fits its cache.\<close>

lemma tzset_again:
  assumes "spec \<noteq> []" "length spec < 128" "\<not> names_file spec"
  shows "tzset fs junk (Some spec) (tzset fs junk (Some spec) tz) = tzset fs junk (Some spec) tz"
proof -
  have k: "tz_valid (parse_posix x z)" "tz_key (parse_posix x z) = tz_key z" for x z
    by (simp_all add: parse_posix_def set_utc_default_def parse_dst_def default_us_rules_def Let_def split: prod.splits)
  have r: "tz_valid (refresh_public_names z) = tz_valid z" "tz_key (refresh_public_names z) = tz_key z" for z
    by (simp_all add: refresh_public_names_def Let_def)
  show ?thesis
    using assms k r by (cases "tz_valid tz \<and> tz_key tz = spec") (auto simp: tzset_def Let_def)
qed

text \<open>A zone file without a footer leaves the POSIX part of the state alone, and \<open>mktime\<close> reads that
  part: the way back from a local time ends an hour off.\<close>

definition file_zone :: tzstate where
  "file_zone = \<lparr>tz_valid = True, tz_key = ''Europe/Paris'', st = \<lparr>east = 0, isdst = 0, abbr = ''UTC'' @ replicate 9 NUL\<rparr>,
     dt = \<lparr>east = 0, isdst = 1, abbr = ''UTC'' @ replicate 9 NUL\<rparr>, has_dst = False,
     start_rule = \<lparr>kind = RULE_NONE, rule_n = 0, rule_m = 0, rule_w = 0, rule_d = 0, rule_time = 0\<rparr>,
     end_rule = \<lparr>kind = RULE_NONE, rule_n = 0, rule_m = 0, rule_w = 0, rule_d = 0, rule_time = 0\<rparr>,
     tz_named = True, tz_footer = False, types = [\<lparr>east = 3600, isdst = 0, abbr = ''CET'' @ replicate 9 NUL\<rparr>],
     trans = [0], ttype = [0], first_std = 0, std_idx = 0, dst_idx = -1,
     tzname0 = ''CET'', tzname1 = ''CET'', timezone = -3600, daylight = 0\<rparr>"

lemma file_zone_mktime:
  "fst (snd (mktime id (snd (localtime_r id 1000000000 file_zone)) file_zone)) = 1000003600"
proof -
  have l: "lookup file_zone t = (3600, 0, ''CET'')" if "0 \<le> t" for t
    using that by (simp add: lookup_def file_zone_def tz_type_at_def type_search.simps buf_str_def)
  define g where "g = (fill_gmtime 1000003600)\<lparr>tm_isdst := 0\<rparr>"
  have loc: "snd (localtime_r id 1000000000 file_zone) = g"
    by (simp add: localtime_r_def cact_tz_offset_utc_def l g_def)
  have cs: "civil_seconds g = 1000003600"
    using fill_gmtime_spec [of 1000003600] by (simp add: civil_seconds_wraps tm_seconds_def tm_day_def g_def)
  have "1 \<le> tm_mon g + 1 \<and> tm_mon g + 1 \<le> 12" using fill_gmtime_spec [of 1000003600] by (auto simp: valid_tm_def g_def)
  then have "days_in_month (tm_year g + 1900) (tm_mon g + 1) \<le> 31" using month_bounds by blast
  moreover have "s32 (tm_year g + 1900) = tm_year g + 1900" "1 \<le> tm_year g + 1900"
    using fill_gmtime_year [of 1000003600] by (simp_all add: g_def)
  ultimately have "fst (snd (mktime id g file_zone)) = snd (cact_tz_utc_from_tm id g file_zone)"
    using fill_gmtime_spec [of 1000003600]
    by (auto simp: mktime_def Let_def valid_tm_def g_def split: prod.splits)
  also have "\<dots> = 1000003600" by (simp add: cact_tz_utc_from_tm_def cs Let_def, simp add: file_zone_def)
  finally show ?thesis by (simp add: loc)
qed

text \<open>The zone state before the first call: a static struct, all zero.\<close>

definition zero_tz :: tzstate where
  "zero_tz = \<lparr>tz_valid = False, tz_key = [], st = blank_zone, dt = blank_zone, has_dst = False,
     start_rule = \<lparr>kind = RULE_NONE, rule_n = 0, rule_m = 0, rule_w = 0, rule_d = 0, rule_time = 0\<rparr>,
     end_rule = \<lparr>kind = RULE_NONE, rule_n = 0, rule_m = 0, rule_w = 0, rule_d = 0, rule_time = 0\<rparr>,
     tz_named = False, tz_footer = False, types = [], trans = [], ttype = [], first_std = 0, std_idx = 0, dst_idx = 0,
     tzname0 = ''UTC'', tzname1 = ''UTC'', timezone = 0, daylight = 0\<rparr>"

text \<open>New York, 10 March 2024: summer time starts at 07:00 UTC (02:00 by the standard clock), yet at
  06:30 UTC the library already reports it.  3 November: it ends at 06:00 UTC (02:00 by the summer
  clock), yet at 06:30 UTC the library still reports it.\<close>

lemma summer_time_early_and_late:
  "lookup (parse_posix ''EST5EDT,M3.2.0,M11.1.0'' zero_tz) 1710052200 = (-14400, 1, ''EDT'') \<and>
   lookup (parse_posix ''EST5EDT,M3.2.0,M11.1.0'' zero_tz) 1730615400 = (-14400, 1, ''EDT'')"
  by code_simp

section \<open>The text of a date\<close>

lemma rev_digits_length: "v < 10 ^ k \<Longrightarrow> length (rev_digits v) \<le> k"
proof (induction k arbitrary: v)
  case 0
  then show ?case by (subst rev_digits.simps) simp
next
  case (Suc k)
  then have "v div 10 < 10 ^ k" by (simp add: div_less_iff_less_mult)
  then show ?case using Suc.IH [of "v div 10"] by (subst rev_digits.simps) simp
qed

lemma app_int_length: "v < 10 ^ k \<Longrightarrow> 0 < k \<Longrightarrow> length (app_int v k) = k"
  using rev_digits_length [of v k] by (auto simp: app_int_def Let_def)

lemma names_length: "w < 7 \<Longrightarrow> length (day_names ! w) = 3" "m < 12 \<Longrightarrow> length (month_names ! m) = 3"
proof -
  show "length (day_names ! w) = 3" if "w < 7"
    using that by (auto simp: day_names_def less_Suc_eq eval_nat_numeral)
  show "length (month_names ! m) = 3" if "m < 12"
    using that by (auto simp: month_names_def less_Suc_eq eval_nat_numeral)
qed

lemma asctime_fits:
  assumes "valid_tm tm" "0 \<le> tm_wday tm" "tm_wday tm < 7" "0 \<le> tm_year tm + 1900" "tm_year tm + 1900 < 10000"
  shows "\<exists>s. asctime_r tm = Some s \<and> length s = 25"
proof -
  have md: "1 \<le> tm_mon tm + 1" "tm_mon tm + 1 \<le> 12" using assms(1) by (auto simp: valid_tm_def)
  have "days_in_month (tm_year tm + 1900) (tm_mon tm + 1) \<le> 31" using month_bounds [OF md] by simp
  then have "tm_mday tm < 10 ^ 2" "tm_hour tm < 10 ^ 2" "tm_min tm < 10 ^ 2" "tm_sec tm < 10 ^ 2"
    using assms(1) by (auto simp: valid_tm_def)
  moreover have "s32 (tm_year tm + 1900) < 10 ^ 4" using assms by simp
  moreover have "length (day_names ! nat (tm_wday tm)) = 3" using assms by (intro names_length) auto
  moreover have "length (month_names ! nat (tm_mon tm)) = 3" using md by (intro names_length) auto
  moreover have "tm_wday tm mod 8 = tm_wday tm" using assms by simp
  ultimately show ?thesis
    using assms(2,3) md by (simp add: asctime_r_def Let_def app_int_length)
qed

end
