(* ===== verification/Cact_Strftime.thy ===== *)
theory Cact_Strftime
  imports Cact_Time Cact_Ctype
begin

text \<open>
  \<open>strftime\<close> and \<open>strptime\<close> of \<open>src/strftime.c\<close>.  The output buffer holds the characters stored so
  far (\<open>sb_s\<close>), the capacity and the length the text would have.  \<open>tz\<close> is the zone state that
  \<open>tzset\<close> leaves; \<open>TZ\<close> does not change during a call.  A read outside one of the name tables is
  \<open>None\<close>.
\<close>

section \<open>The output buffer\<close>

record sbuf =
  sb_s :: string
  sb_max :: nat
  sb_n :: nat
  sb_overflow :: bool

definition sb_putc :: "char \<Rightarrow> sbuf \<Rightarrow> sbuf" where
  "sb_putc c b =
     (let b1 = (if sb_n b + 1 < sb_max b then b\<lparr>sb_s := sb_s b @ [c]\<rparr> else b\<lparr>sb_overflow := True\<rparr>)
      in b1\<lparr>sb_n := sb_n b + 1\<rparr>)"

definition sb_puts :: "string \<Rightarrow> sbuf \<Rightarrow> sbuf" where
  "sb_puts xs b = fold sb_putc xs b"

text \<open>The modifiers between \<open>%\<close> and the conversion: one of the padding flags, and the two case
  flags, which a later padding flag clears.\<close>

datatype padding = Pad_Default | Pad_None | Pad_Space | Pad_Zero

record mods =
  pad_mod :: padding
  upper_mod :: bool
  swap_mod :: bool

definition no_mods :: mods where
  "no_mods = \<lparr>pad_mod = Pad_Default, upper_mod = False, swap_mod = False\<rparr>"

fun read_mods :: "mods \<Rightarrow> string \<Rightarrow> mods \<times> string" where
  "read_mods m [] = (m, [])"
| "read_mods m (c # p) =
     (if c = CHR ''-'' then read_mods (no_mods\<lparr>pad_mod := Pad_None\<rparr>) p
      else if c = CHR ''_'' then read_mods (no_mods\<lparr>pad_mod := Pad_Space\<rparr>) p
      else if c = CHR ''0'' then read_mods (no_mods\<lparr>pad_mod := Pad_Zero\<rparr>) p
      else if c = CHR ''^'' then read_mods (m\<lparr>upper_mod := True\<rparr>) p
      else if c = CHR ''#'' then read_mods (m\<lparr>swap_mod := True\<rparr>) p
      else (m, c # p))"

fun read_width :: "nat \<Rightarrow> string \<Rightarrow> nat \<times> string" where
  "read_width w [] = (w, [])"
| "read_width w (c # p) = (if isdigit (uchar c) then read_width (w * 10 + nat (uchar c - 48)) p else (w, c # p))"

lemma read_mods_length: "length (snd (read_mods m p)) \<le> length p"
  by (induction m p rule: read_mods.induct) auto

lemma read_width_length: "length (snd (read_width w p)) \<le> length p"
  by (induction w p rule: read_width.induct) auto

text \<open>What \<open>str_out\<close> and \<open>num_out\<close> append.\<close>

definition str_text :: "string \<Rightarrow> mods \<Rightarrow> nat \<Rightarrow> string" where
  "str_text s m width =
     (let has_upper = list_ex (\<lambda>c. isupper (uchar c)) s;
          has_lower = list_ex (\<lambda>c. islower (uchar c)) s;
          up = upper_mod m \<or> swap_mod m \<and> has_upper \<and> has_lower;
          low = swap_mod m \<and> has_upper \<and> \<not> has_lower
      in replicate (width - length s) CHR '' '' @
         map (\<lambda>c. if up then char_of (toupper (uchar c)) else if low then char_of (tolower (uchar c)) else c) s)"

definition str_out :: "string \<Rightarrow> mods \<Rightarrow> nat \<Rightarrow> sbuf \<Rightarrow> sbuf" where
  "str_out s m width b = sb_puts (str_text s m width) b"

definition num_text :: "int \<Rightarrow> nat \<Rightarrow> char \<Rightarrow> mods \<Rightarrow> nat \<Rightarrow> string" where
  "num_text v defw defpad m width =
     (let digits = dec (nat \<bar>v\<bar>);
          w = (if width \<noteq> 0 then width else defw);
          len = length digits + (if v < 0 then 1 else 0);
          fill = replicate (w - len) (case pad_mod m of Pad_Space \<Rightarrow> CHR '' '' | Pad_Zero \<Rightarrow> CHR ''0'' | _ \<Rightarrow> defpad)
      in (if v < 0 then ''-'' else []) @ (if pad_mod m = Pad_None then [] else fill) @ digits)"

definition num_out :: "int \<Rightarrow> nat \<Rightarrow> char \<Rightarrow> mods \<Rightarrow> nat \<Rightarrow> sbuf \<Rightarrow> sbuf" where
  "num_out v defw defpad m width b = sb_puts (num_text v defw defpad m width) b"

section \<open>Weeks\<close>

definition days_in_year :: "int \<Rightarrow> int" where
  "days_in_year y = (if y smod 4 = 0 \<and> (y smod 100 \<noteq> 0 \<or> y smod 400 = 0) then 366 else 365)"

definition jan1_wd :: "int \<Rightarrow> int" where
  "jan1_wd y =
     (let yy = y - 1;
          days = 365 * yy + yy sdiv 4 - yy sdiv 100 + yy sdiv 400 - (365 * 1969 + 1969 div 4 - 1969 div 100 + 1969 div 400)
      in (days smod 7 + 3 + 7) smod 7 + 1)"

definition iso_weeks_in_year :: "int \<Rightarrow> int" where
  "iso_weeks_in_year y = (let wd = jan1_wd y in if wd = 4 \<or> wd = 3 \<and> days_in_year y = 366 then 53 else 52)"

definition iso_week :: "tm \<Rightarrow> int \<times> int" where
  "iso_week tm =
     (let y = tm_year tm + 1900;
          doy = tm_yday tm + 1;
          wd = (if tm_wday tm = 0 then 7 else tm_wday tm);
          w = (doy - wd + 10) sdiv 7
      in if w < 1 then (iso_weeks_in_year (y - 1), y - 1)
         else if w > iso_weeks_in_year y then (1, y + 1)
         else (w, y))"

section \<open>Formatting\<close>

definition wday_full :: "string list" where
  "wday_full = [''Sunday'', ''Monday'', ''Tuesday'', ''Wednesday'', ''Thursday'', ''Friday'', ''Saturday'']"

definition wday_abbr :: "string list" where
  "wday_abbr = [''Sun'', ''Mon'', ''Tue'', ''Wed'', ''Thu'', ''Fri'', ''Sat'']"

definition mon_full :: "string list" where
  "mon_full = [''January'', ''February'', ''March'', ''April'', ''May'', ''June'', ''July'', ''August'',
     ''September'', ''October'', ''November'', ''December'']"

definition mon_abbr :: "string list" where
  "mon_abbr = [''Jan'', ''Feb'', ''Mar'', ''Apr'', ''May'', ''Jun'', ''Jul'', ''Aug'', ''Sep'', ''Oct'', ''Nov'', ''Dec'']"

definition name_at :: "string list \<Rightarrow> int \<Rightarrow> string option" where
  "name_at names i = (if 0 \<le> i \<and> i < int (length names) then Some (names ! nat i) else None)"

definition zone_text :: "int \<Rightarrow> string" where
  "zone_text e =
     (let a = \<bar>e\<bar>; hh = a div 3600; mm = (a mod 3600) div 60
      in (if e < 0 then CHR ''-'' else CHR ''+'') #
         map (\<lambda>x. char_of (48 + x)) [(hh div 10) mod 10, hh mod 10, (mm div 10) mod 10, mm mod 10])"

text \<open>A composite conversion expands its format into a buffer of 128 bytes first.\<close>

definition comp_out :: "(string \<Rightarrow> sbuf \<Rightarrow> (sbuf \<times> bool) option) \<Rightarrow> string \<Rightarrow> mods \<Rightarrow> nat \<Rightarrow> sbuf \<Rightarrow> (sbuf \<times> bool) option" where
  "comp_out run fmt m width b =
     (case run fmt \<lparr>sb_s = [], sb_max = 128, sb_n = 0, sb_overflow = False\<rparr> of
        None \<Rightarrow> None
      | Some (t, ok) \<Rightarrow>
          if \<not> ok \<or> sb_overflow t then Some (b, False)
          else Some (str_out (sb_s t) (m\<lparr>swap_mod := False\<rparr>) width b, True))"

text \<open>The numeric conversions: the value, the default width and the default padding.\<close>

definition num_conv :: "tm \<Rightarrow> tzstate \<Rightarrow> char \<Rightarrow> (int \<times> nat \<times> char) option" where
  "num_conv tm tz c =
     (let y = tm_year tm + 1900;
          h12 = (if tm_hour tm smod 12 = 0 then 12 else tm_hour tm smod 12)
      in if c = CHR ''C'' then Some (y sdiv 100, 2, CHR ''0'')
         else if c = CHR ''d'' then Some (tm_mday tm, 2, CHR ''0'')
         else if c = CHR ''e'' then Some (tm_mday tm, 2, CHR '' '')
         else if c = CHR ''g'' then Some (snd (iso_week tm) smod 100, 2, CHR ''0'')
         else if c = CHR ''G'' then Some (snd (iso_week tm), 0, CHR ''0'')
         else if c = CHR ''H'' then Some (tm_hour tm, 2, CHR ''0'')
         else if c = CHR ''I'' then Some (h12, 2, CHR ''0'')
         else if c = CHR ''j'' then Some (tm_yday tm + 1, 3, CHR ''0'')
         else if c = CHR ''k'' then Some (tm_hour tm, 2, CHR '' '')
         else if c = CHR ''l'' then Some (h12, 2, CHR '' '')
         else if c = CHR ''m'' then Some (tm_mon tm + 1, 2, CHR ''0'')
         else if c = CHR ''M'' then Some (tm_min tm, 2, CHR ''0'')
         else if c = CHR ''s'' then Some (fst (snd (mktime id tm tz)), 0, CHR ''0'')
         else if c = CHR ''S'' then Some (tm_sec tm, 2, CHR ''0'')
         else if c = CHR ''u'' then Some (if tm_wday tm = 0 then 7 else tm_wday tm, 1, CHR ''0'')
         else if c = CHR ''U'' then Some ((tm_yday tm + 7 - tm_wday tm) sdiv 7, 2, CHR ''0'')
         else if c = CHR ''V'' then Some (fst (iso_week tm), 2, CHR ''0'')
         else if c = CHR ''w'' then Some (tm_wday tm, 1, CHR ''0'')
         else if c = CHR ''W'' then Some ((tm_yday tm + 7 - (tm_wday tm + 6) smod 7) sdiv 7, 2, CHR ''0'')
         else if c = CHR ''y'' then Some (y smod 100, 2, CHR ''0'')
         else if c = CHR ''Y'' then Some (y, 0, CHR ''0'')
         else None)"

text \<open>The conversions to a string; the inner option is a table read out of bounds.\<close>

definition str_conv :: "tm \<Rightarrow> tzstate \<Rightarrow> char \<Rightarrow> string option option" where
  "str_conv tm tz c =
     (if c = CHR ''a'' then Some (name_at wday_abbr (tm_wday tm smod 7))
      else if c = CHR ''A'' then Some (name_at wday_full (tm_wday tm smod 7))
      else if c = CHR ''b'' \<or> c = CHR ''h'' then Some (name_at mon_abbr (tm_mon tm smod 12))
      else if c = CHR ''B'' then Some (name_at mon_full (tm_mon tm smod 12))
      else if c = CHR ''p'' then Some (Some (if tm_hour tm < 12 then ''AM'' else ''PM''))
      else if c = CHR ''P'' then Some (Some (if tm_hour tm < 12 then ''am'' else ''pm''))
      else if c = CHR ''z'' then Some (Some (zone_text (fst (snd (cact_tz_offset_for_tm id tm tz)))))
      else if c = CHR ''Z''
      then Some (Some (if snd (snd (cact_tz_offset_for_tm id tm tz)) = 0 then tzname0 tz else tzname1 tz))
      else None)"

definition comp_conv :: "char \<Rightarrow> string option" where
  "comp_conv c =
     (if c = CHR ''c'' then Some ''%a %b %e %H:%M:%S %Y''
      else if c = CHR ''D'' \<or> c = CHR ''x'' then Some ''%m/%d/%y''
      else if c = CHR ''F'' then Some ''%Y-%m-%d''
      else if c = CHR ''r'' then Some ''%I:%M:%S %p''
      else if c = CHR ''R'' then Some ''%H:%M''
      else if c = CHR ''T'' \<or> c = CHR ''X'' then Some ''%H:%M:%S''
      else None)"

definition char_conv :: "char \<Rightarrow> string" where
  "char_conv c =
     (if c = CHR ''n'' then [CHR 0x0A]
      else if c = CHR ''t'' then [CHR 0x09]
      else if c = CHR ''%'' then ''%''
      else [CHR ''%'', c])"

definition convert :: "(string \<Rightarrow> sbuf \<Rightarrow> (sbuf \<times> bool) option) \<Rightarrow> tm \<Rightarrow> tzstate \<Rightarrow> char \<Rightarrow> mods \<Rightarrow> nat \<Rightarrow> sbuf \<Rightarrow> (sbuf \<times> bool) option" where
  "convert run tm tz c m width b =
     (case str_conv tm tz c of
        Some None \<Rightarrow> None
      | Some (Some s) \<Rightarrow> Some (str_out s m width b, True)
      | None \<Rightarrow>
        (case num_conv tm tz c of
           Some (v, defw, defpad) \<Rightarrow> Some (num_out v defw defpad m width b, True)
         | None \<Rightarrow>
           (case comp_conv c of
              Some fmt \<Rightarrow> comp_out run fmt m width b
            | None \<Rightarrow> Some (sb_puts (char_conv c) b, True))))"

function fmt_loop :: "(string \<Rightarrow> sbuf \<Rightarrow> (sbuf \<times> bool) option) \<Rightarrow> tm \<Rightarrow> tzstate \<Rightarrow> string \<Rightarrow> sbuf \<Rightarrow> (sbuf \<times> bool) option" where
  "fmt_loop run tm tz [] b = Some (b, True)"
| "fmt_loop run tm tz (c # p) b =
     (if c \<noteq> CHR ''%'' then fmt_loop run tm tz p (sb_putc c b)
      else case snd (read_width 0 (snd (read_mods no_mods p))) of
        [] \<Rightarrow> Some (b, False)
      | f # q \<Rightarrow>
          (case convert run tm tz f (fst (read_mods no_mods p)) (fst (read_width 0 (snd (read_mods no_mods p)))) b of
             None \<Rightarrow> None
           | Some (b1, ok) \<Rightarrow> if \<not> ok \<or> sb_overflow b1 then Some (b1, False) else fmt_loop run tm tz q b1))"
  by pat_completeness auto
termination
proof (relation "measure (\<lambda>(run, tm, tz, p, b). length p)", goal_cases)
  case (3 run tm tz c p b)
  then show ?case
    using read_width_length [of 0 "snd (read_mods no_mods p)"] read_mods_length [of no_mods p] by auto
qed auto

declare fmt_loop.simps [simp del]

text \<open>\<open>fmt_run\<close> at nesting level \<open>depth\<close>: five levels, \<open>k = 5 - depth\<close> are left.\<close>

primrec fmt_run :: "nat \<Rightarrow> tm \<Rightarrow> tzstate \<Rightarrow> string \<Rightarrow> sbuf \<Rightarrow> (sbuf \<times> bool) option" where
  "fmt_run 0 tm tz fmt b = Some (b, False)"
| "fmt_run (Suc k) tm tz fmt b = fmt_loop (fmt_run k tm tz) tm tz fmt b"

text \<open>\<open>strftime\<close> returns the length and the text stored before the terminator.\<close>

definition strftime :: "nat \<Rightarrow> string \<Rightarrow> tm \<Rightarrow> tzstate \<Rightarrow> (nat \<times> string) option" where
  "strftime cap format tm tz =
     (if cap = 0 then Some (0, [])
      else case fmt_run 5 tm tz format \<lparr>sb_s = [], sb_max = cap, sb_n = 0, sb_overflow = False\<rparr> of
        None \<Rightarrow> None
      | Some (b, ok) \<Rightarrow> Some (if \<not> ok \<or> sb_n b \<ge> sb_max b then 0 else sb_n b, sb_s b))"

section \<open>Parsing\<close>

text \<open>\<open>strptime\<close>: the rest of the input, the struct being filled, and the local variables.\<close>

record ptime =
  p_in :: string
  p_tm :: tm
  have_year :: bool
  have_mon :: bool
  have_mday :: bool
  have_yday :: bool
  p_year :: int
  p_mon :: int
  p_mday :: int
  p_yday :: int
  hour12 :: int
  pm :: int

definition ci_match :: "string \<Rightarrow> string \<Rightarrow> string option" where
  "ci_match inp name =
     (if list_all (\<lambda>i. tolower (uchar (at inp i)) = tolower (uchar (name ! i))) [0..<length name]
      then Some (drop (length name) inp) else None)"

fun get_num_loop :: "nat \<Rightarrow> int \<Rightarrow> string \<Rightarrow> int \<times> string" where
  "get_num_loop 0 v p = (v, p)"
| "get_num_loop (Suc k) v [] = (v, [])"
| "get_num_loop (Suc k) v (c # p) =
     (if isdigit (uchar c) then get_num_loop k (v * 10 + (uchar c - 48)) p else (v, c # p))"

definition get_num :: "nat \<Rightarrow> string \<Rightarrow> (int \<times> string) option" where
  "get_num maxdigits inp =
     (if maxdigits > 0 \<and> isdigit (uchar (at inp 0)) then Some (get_num_loop maxdigits 0 inp) else None)"

definition skip_ws :: "string \<Rightarrow> string" where
  "skip_ws inp = dropWhile (\<lambda>c. c \<in> {CHR '' '', CHR 0x09, CHR 0x0A, CHR 0x0D, CHR 0x0B, CHR 0x0C}) inp"

fun match_names :: "nat \<Rightarrow> string list \<Rightarrow> string list \<Rightarrow> string \<Rightarrow> (int \<times> string) option" where
  "match_names i (f # fs) (a # as) inp =
     (case ci_match inp f of
        Some r \<Rightarrow> Some (int i, r)
      | None \<Rightarrow> (case ci_match inp a of Some r \<Rightarrow> Some (int i, r) | None \<Rightarrow> match_names (Suc i) fs as inp))"
| "match_names i _ _ inp = None"

function yday_to_md :: "int \<Rightarrow> nat \<Rightarrow> int \<Rightarrow> int \<times> int" where
  "yday_to_md y m doy =
     (if m < 11
      then let dm = (if m = 1 \<and> days_in_year y = 366 then 29 else month_days ! m)
           in if doy \<le> dm then (int m, doy) else yday_to_md y (Suc m) (doy - dm)
      else (int m, doy))"
  by pat_completeness auto
termination by (relation "measure (\<lambda>(y, m, doy). 11 - m)") auto

declare yday_to_md.simps [simp del]

definition days_before :: "int \<Rightarrow> nat \<Rightarrow> int" where
  "days_before y m = (\<Sum>i\<leftarrow>[0..<min m 12]. if i = 1 \<and> days_in_year y = 366 then 29 else month_days ! i)"

definition finalize_date :: "tm \<Rightarrow> tm" where
  "finalize_date tm =
     (let y = tm_year tm + 1900;
          doy = tm_mday tm + days_before y (nat (tm_mon tm));
          wd = (jan1_wd y - 1 + (doy - 1)) smod 7 + 1
      in tm\<lparr>tm_yday := doy - 1, tm_wday := wd smod 7\<rparr>)"

text \<open>One conversion: \<open>None\<close> when the input does not match.  \<open>nested\<close> is \<open>strptime\<close> itself, called on
  the format of a composite conversion; it leaves what it stored in the struct even when it fails.\<close>

definition take_num :: "nat \<Rightarrow> (int \<Rightarrow> ptime \<Rightarrow> ptime) \<Rightarrow> ptime \<Rightarrow> ptime option" where
  "take_num k f s = (case get_num k (p_in s) of None \<Rightarrow> None | Some (v, r) \<Rightarrow> Some (f v (s\<lparr>p_in := r\<rparr>)))"

definition num_field :: "char \<Rightarrow> (nat \<times> (int \<Rightarrow> ptime \<Rightarrow> ptime)) option" where
  "num_field c =
     (if c = CHR ''C'' then Some (2, \<lambda>v s. s\<lparr>p_year := v * 100 + p_year s smod 100, have_year := True\<rparr>)
      else if c = CHR ''d'' then Some (2, \<lambda>v s. s\<lparr>p_mday := v, have_mday := True\<rparr>)
      else if c = CHR ''H'' \<or> c = CHR ''k'' then Some (2, \<lambda>v s. s\<lparr>p_tm := (p_tm s)\<lparr>tm_hour := v\<rparr>\<rparr>)
      else if c = CHR ''I'' \<or> c = CHR ''l'' then Some (2, \<lambda>v s. s\<lparr>hour12 := v\<rparr>)
      else if c = CHR ''j'' then Some (3, \<lambda>v s. s\<lparr>p_yday := v, have_yday := True\<rparr>)
      else if c = CHR ''m'' then Some (2, \<lambda>v s. s\<lparr>p_mon := v - 1, have_mon := True\<rparr>)
      else if c = CHR ''M'' then Some (2, \<lambda>v s. s\<lparr>p_tm := (p_tm s)\<lparr>tm_min := v\<rparr>\<rparr>)
      else if c = CHR ''S'' then Some (2, \<lambda>v s. s\<lparr>p_tm := (p_tm s)\<lparr>tm_sec := v\<rparr>\<rparr>)
      else if c = CHR ''u'' then Some (1, \<lambda>v s. s\<lparr>p_tm := (p_tm s)\<lparr>tm_wday := v smod 7\<rparr>\<rparr>)
      else if c = CHR ''w'' then Some (1, \<lambda>v s. s\<lparr>p_tm := (p_tm s)\<lparr>tm_wday := v\<rparr>\<rparr>)
      else if c = CHR ''U'' \<or> c = CHR ''W'' \<or> c = CHR ''V'' then Some (2, \<lambda>v s. s)
      else if c = CHR ''y'' then Some (2, \<lambda>v s. s\<lparr>p_year := if v \<le> 68 then 2000 + v else 1900 + v, have_year := True\<rparr>)
      else if c = CHR ''Y'' then Some (4, \<lambda>v s. s\<lparr>p_year := v, have_year := True\<rparr>)
      else None)"

definition scan_zone :: "string \<Rightarrow> string option" where
  "scan_zone p =
     (if at p 0 = CHR ''Z'' then Some (tl p)
      else if at p 0 \<noteq> CHR ''+'' \<and> at p 0 \<noteq> CHR ''-'' then None
      else case get_num 2 (tl p) of
        None \<Rightarrow> None
      | Some (_, q) \<Rightarrow>
          (case get_num 2 (if at q 0 = CHR '':'' then tl q else q) of None \<Rightarrow> None | Some (_, r) \<Rightarrow> Some r))"

definition scan_zone_name :: "string \<Rightarrow> string option" where
  "scan_zone_name p =
     (case ci_match p ''UTC'' of Some r \<Rightarrow> Some r
      | None \<Rightarrow> (case ci_match p ''GMT'' of Some r \<Rightarrow> Some r
        | None \<Rightarrow> (case ci_match p ''Z'' of Some r \<Rightarrow> Some r
          | None \<Rightarrow> if isalpha (uchar (at p 0)) then Some (dropWhile (\<lambda>c. isalpha (uchar c)) p) else None)))"

text \<open>After a composite conversion the variables are read back from the struct: which ones.\<close>

definition comp_field :: "char \<Rightarrow> (string \<times> (ptime \<Rightarrow> ptime)) option" where
  "comp_field c =
     (if c = CHR ''c'' then Some (''%a %b %e %H:%M:%S %Y'', \<lambda>s. s\<lparr>have_year := True, have_mon := True, have_mday := True,
        p_year := tm_year (p_tm s) + 1900, p_mon := tm_mon (p_tm s), p_mday := tm_mday (p_tm s)\<rparr>)
      else if c = CHR ''D'' then Some (''%m/%d/%y'', \<lambda>s. s\<lparr>have_mon := True, have_mday := True,
        p_year := tm_year (p_tm s) + 1900, p_mon := tm_mon (p_tm s), p_mday := tm_mday (p_tm s)\<rparr>)
      else if c = CHR ''F'' then Some (''%Y-%m-%d'', \<lambda>s. s\<lparr>have_year := True, have_mon := True, have_mday := True,
        p_year := tm_year (p_tm s) + 1900, p_mon := tm_mon (p_tm s), p_mday := tm_mday (p_tm s)\<rparr>)
      else if c = CHR ''r'' then Some (''%I:%M:%S %p'', id)
      else if c = CHR ''R'' then Some (''%H:%M'', id)
      else if c = CHR ''T'' \<or> c = CHR ''X'' then Some (''%H:%M:%S'', id)
      else None)"

definition other_field :: "char \<Rightarrow> ptime \<Rightarrow> ptime option" where
  "other_field c s =
     (if c = CHR ''a'' \<or> c = CHR ''A''
      then map_option (\<lambda>(i, r). s\<lparr>p_in := r, p_tm := (p_tm s)\<lparr>tm_wday := i\<rparr>\<rparr>) (match_names 0 wday_full wday_abbr (p_in s))
      else if c = CHR ''b'' \<or> c = CHR ''B'' \<or> c = CHR ''h''
      then map_option (\<lambda>(i, r). s\<lparr>p_in := r, p_mon := i, have_mon := True\<rparr>) (match_names 0 mon_full mon_abbr (p_in s))
      else if c = CHR ''e'' then take_num 2 (\<lambda>v s. s\<lparr>p_mday := v, have_mday := True\<rparr>) (s\<lparr>p_in := skip_ws (p_in s)\<rparr>)
      else if c = CHR ''n'' \<or> c = CHR ''t'' then Some (s\<lparr>p_in := skip_ws (p_in s)\<rparr>)
      else if c = CHR ''p'' \<or> c = CHR ''P''
      then (case ci_match (p_in s) ''AM'' of Some r \<Rightarrow> Some (s\<lparr>pm := 0, p_in := r\<rparr>)
            | None \<Rightarrow> map_option (\<lambda>r. s\<lparr>pm := 1, p_in := r\<rparr>) (ci_match (p_in s) ''PM''))
      else if c = CHR ''z'' then map_option (\<lambda>r. s\<lparr>p_in := r\<rparr>) (scan_zone (p_in s))
      else if c = CHR ''Z'' then map_option (\<lambda>r. s\<lparr>p_in := r\<rparr>) (scan_zone_name (p_in s))
      else if c = CHR ''%'' \<and> at (p_in s) 0 = CHR ''%'' then Some (s\<lparr>p_in := tl (p_in s)\<rparr>)
      else None)"

definition parse_conv :: "(string \<Rightarrow> string \<Rightarrow> tm \<Rightarrow> tm \<times> string option) \<Rightarrow> char \<Rightarrow> ptime \<Rightarrow> tm \<times> ptime option" where
  "parse_conv nested c s =
     (case comp_field c of
        Some (fmt, f) \<Rightarrow>
          (let (tm', r) = nested (p_in s) fmt (p_tm s)
           in (tm', map_option (\<lambda>q. f (s\<lparr>p_in := q, p_tm := tm'\<rparr>)) r))
      | None \<Rightarrow>
          (p_tm s, case num_field c of Some (k, f) \<Rightarrow> take_num k f s | None \<Rightarrow> other_field c s))"

function parse_loop :: "(string \<Rightarrow> string \<Rightarrow> tm \<Rightarrow> tm \<times> string option) \<Rightarrow> string \<Rightarrow> ptime \<Rightarrow> tm \<times> ptime option" where
  "parse_loop nested [] s = (p_tm s, Some s)"
| "parse_loop nested (c # f) s =
     (if isspace (uchar c) then parse_loop nested f (s\<lparr>p_in := skip_ws (p_in s)\<rparr>)
      else if c \<noteq> CHR ''%''
      then if at (p_in s) 0 \<noteq> c then (p_tm s, None) else parse_loop nested f (s\<lparr>p_in := tl (p_in s)\<rparr>)
      else case snd (read_width 0 f) of
        [] \<Rightarrow> (p_tm s, None)
      | d # g \<Rightarrow>
          (case parse_conv nested d s of (tm', None) \<Rightarrow> (tm', None) | (_, Some s') \<Rightarrow> parse_loop nested g s'))"
  by pat_completeness auto
termination
proof (relation "measure (\<lambda>(nested, f, s). length f)", goal_cases)
  case (4 nested c f s d g)
  then show ?case using read_width_length [of 0 f] by auto
qed auto

declare parse_loop.simps [simp del]

definition parse_hour :: "ptime \<Rightarrow> tm \<times> ptime option" where
  "parse_hour s =
     (if hour12 s \<ge> 0
      then if hour12 s < 1 \<or> hour12 s > 12 then (p_tm s, None)
           else let h = hour12 s smod 12;
                    h' = (if pm s = 1 then h + 12 else if pm s < 0 \<and> hour12 s = 12 then 12 else h);
                    tm' = (p_tm s)\<lparr>tm_hour := h'\<rparr>
                in (tm', Some (s\<lparr>p_tm := tm'\<rparr>))
      else (p_tm s, Some s))"

definition parse_date :: "ptime \<Rightarrow> tm \<times> string option" where
  "parse_date s =
     (let t1 = (if have_year s then (p_tm s)\<lparr>tm_year := p_year s - 1900\<rparr> else p_tm s)
      in if have_mon s \<and> (p_mon s < 0 \<or> p_mon s > 11) then (t1, None)
         else let t2 = (if have_mon s then t1\<lparr>tm_mon := p_mon s\<rparr> else t1)
              in if have_mday s \<and> (p_mday s < 1 \<or> p_mday s > 31) then (t2, None)
                 else let t3 = (if have_mday s then t2\<lparr>tm_mday := p_mday s\<rparr> else t2)
                      in if have_yday s \<and> \<not> have_mday s
                         then let (m2, d2) = yday_to_md (tm_year t3 + 1900) 0 (p_yday s)
                              in (t3\<lparr>tm_mon := m2, tm_mday := d2, tm_yday := p_yday s - 1,
                                    tm_wday := ((jan1_wd (tm_year t3 + 1900) - 1 + (p_yday s - 1)) smod 7 + 1) smod 7\<rparr>, Some (p_in s))
                         else if have_year s \<or> have_mon s \<or> have_mday s then (finalize_date t3, Some (p_in s))
                         else (t3, Some (p_in s)))"

definition parse_start :: "string \<Rightarrow> tm \<Rightarrow> ptime" where
  "parse_start s tm = \<lparr>p_in = s, p_tm = tm, have_year = False, have_mon = False, have_mday = False, have_yday = False,
     p_year = tm_year tm + 1900, p_mon = tm_mon tm, p_mday = tm_mday tm, p_yday = 0, hour12 = -1, pm = -1\<rparr>"

text \<open>The composite formats hold no composite conversion, so two levels are all there are.\<close>

primrec strptime_level :: "nat \<Rightarrow> string \<Rightarrow> string \<Rightarrow> tm \<Rightarrow> tm \<times> string option" where
  "strptime_level 0 s format tm = (tm, None)"
| "strptime_level (Suc k) s format tm =
     (case parse_loop (strptime_level k) format (parse_start s tm) of
        (tm', None) \<Rightarrow> (tm', None)
      | (_, Some ps) \<Rightarrow> (case parse_hour ps of (tm', None) \<Rightarrow> (tm', None) | (_, Some ps') \<Rightarrow> parse_date ps'))"

definition strptime :: "string \<Rightarrow> string \<Rightarrow> tm \<Rightarrow> tm \<times> string option" where
  "strptime s format tm = strptime_level 2 s format tm"

end
