(* ===== verification/Cact_Strftime_Lemmas.thy ===== *)
theory Cact_Strftime_Lemmas
  imports Cact_Strftime
begin

text \<open>
  What \<open>strftime\<close> and \<open>strptime\<close> compute: week numbers, the derived fields of a date, the bound on
  the buffer, and the round trip of a date through its text.
\<close>

section \<open>Weeks\<close>

lemma days_in_year_days: "days_in_year y = year_days y"
  by (simp add: days_in_year_def year_days_def is_leap_def)

lemma smod_shift: "0 < b \<Longrightarrow> 0 \<le> c \<Longrightarrow> (a smod b + c + b) smod b = (a + c) mod b" for a b c :: int
proof -
  assume b: "0 < b" and c: "0 \<le> c"
  define r where "r = a smod b"
  have r: "- b \<le> r" "r mod b = a mod b"
  proof -
    have "(if r < 0 then r + b else r) = a mod b" using smod_floor [OF b, of a] unfolding r_def .
    then have e: "r + (if r < 0 then b else 0) = a mod b" by (simp split: if_splits)
    have "0 \<le> a mod b" using b by simp
    with e show "- b \<le> r" using b by (auto split: if_splits simp del: pos_mod_sign)
    have "r mod b = (r + (if r < 0 then b else 0)) mod b" by simp
    then show "r mod b = a mod b" unfolding e by simp
  qed
  have "0 \<le> r + c + b" using r c by simp
  then have "(r + c + b) smod b = (r + c) mod b" using b by (simp add: smod_div)
  also have "\<dots> = (a + c) mod b" using r(2) by (metis mod_add_left_eq)
  finally show ?thesis by (simp add: r_def)
qed

lemma jan1_days: "days_from_civil y 1 1 = march_days (y - 1) - 719162"
  by (simp add: days_from_civil_march)

lemma jan1_wd_spec: "1 \<le> y \<Longrightarrow> jan1_wd y = (days_from_civil y 1 1 + 3) mod 7 + 1"
proof -
  assume y: "1 \<le> y"
  have "365 * (y - 1) + (y - 1) sdiv 4 - (y - 1) sdiv 100 + (y - 1) sdiv 400 -
      (365 * 1969 + 1969 div 4 - 1969 div 100 + 1969 div 400) = days_from_civil y 1 1"
    using y by (simp add: jan1_days march_days_def smod_div)
  then show ?thesis unfolding jan1_wd_def Let_def using smod_shift [of 7 3 "days_from_civil y 1 1"] by simp
qed

text \<open>The ISO week of a day is that of its Thursday, counted in the year the Thursday lies in.\<close>

lemma mod7_cases: "(T :: int) mod 7 = 0 \<Longrightarrow> (T - x + 3) mod 7 = (3 - x) mod 7"
  by (metis add.commute add_diff_eq diff_add_cancel diff_diff_eq2 mod_add_left_eq add_0 add_diff_cancel_left')

lemma iso_weeks_thursday:
  assumes y: "1 \<le> y" and T: "T mod 7 = 0" and x: "x = T - days_from_civil y 1 1"
  shows "364 \<le> x \<Longrightarrow> x < year_days y \<Longrightarrow> iso_weeks_in_year y = 53"
    "year_days y \<le> x \<Longrightarrow> x \<le> year_days y + 2 \<Longrightarrow> iso_weeks_in_year y = 52"
    "362 \<le> x \<Longrightarrow> x < 364 \<Longrightarrow> iso_weeks_in_year y = 52" "52 \<le> iso_weeks_in_year y"
proof -
  have wd: "jan1_wd y = (3 - x) mod 7 + 1"
    using jan1_wd_spec [OF y] mod7_cases [OF T, of x] by (simp add: x)
  show "iso_weeks_in_year y = 53" if "364 \<le> x" "x < year_days y"
  proof -
    have "x = 364 \<or> x = 365 \<and> year_days y = 366" using that by (auto simp: year_days_def split: if_splits)
    then show ?thesis by (auto simp: iso_weeks_in_year_def wd days_in_year_days)
  qed
  show "iso_weeks_in_year y = 52" if "year_days y \<le> x" "x \<le> year_days y + 2"
  proof -
    have "year_days y = 365 \<and> (x = 365 \<or> x = 366 \<or> x = 367) \<or> year_days y = 366 \<and> (x = 366 \<or> x = 367 \<or> x = 368)"
      using that by (auto simp: year_days_def split: if_splits)
    then show ?thesis by (auto simp: iso_weeks_in_year_def wd days_in_year_days)
  qed
  show "iso_weeks_in_year y = 52" if "362 \<le> x" "x < 364"
  proof -
    have "x = 362 \<or> x = 363" using that by auto
    then show ?thesis by (auto simp: iso_weeks_in_year_def wd)
  qed
  show "52 \<le> iso_weeks_in_year y" by (simp add: iso_weeks_in_year_def Let_def)
qed

definition on_calendar :: "tm \<Rightarrow> int \<Rightarrow> bool" where
  "on_calendar tm day \<longleftrightarrow> tm_yday tm = day - days_from_civil (tm_year tm + 1900) 1 1 \<and>
     0 \<le> tm_yday tm \<and> tm_yday tm < year_days (tm_year tm + 1900) \<and> tm_wday tm = (day + 4) mod 7"

lemma iso_week_thursday:
  assumes cal: "on_calendar tm day" and y: "2 \<le> tm_year tm + 1900" and w: "iso_week tm = (week, year)"
  defines "T \<equiv> day - (day + 3) mod 7 + 3"
  shows "days_from_civil year 1 1 \<le> T" "T < days_from_civil (year + 1) 1 1"
    "week = (T - days_from_civil year 1 1) div 7 + 1"
proof -
  define Y where "Y = tm_year tm + 1900"
  define J where "J = days_from_civil Y 1 1"
  define x where "x = T - J"
  have yd: "tm_yday tm = day - J" "0 \<le> day - J" "day - J < year_days Y" using cal by (auto simp: on_calendar_def Y_def J_def)
  have wd: "(if tm_wday tm = 0 then 7 else tm_wday tm) = (day + 3) mod 7 + 1"
  proof -
    define r where "r = (day + 3) mod 7"
    have r: "0 \<le> r" "r < 7" by (simp_all add: r_def)
    have "(day + 4) mod 7 = (r + 1) mod 7" unfolding r_def by (metis add.assoc mod_add_left_eq one_plus_numeral add.commute semiring_norm(4) semiring_norm(2))
    moreover have "(r + 1) mod 7 = (if r = 6 then 0 else r + 1)" using r by simp
    ultimately show ?thesis using cal r unfolding on_calendar_def r_def [symmetric] by auto
  qed
  have T7: "T mod 7 = 0"
  proof -
    have "T = (day + 3) - (day + 3) mod 7" by (simp add: T_def)
    then show ?thesis by (metis minus_mod_eq_mult_div mod_mult_self1_is_0)
  qed
  have x: "x = day - J - (day + 3) mod 7 + 3" by (simp add: x_def T_def)
  have xb: "- 3 \<le> x" "x \<le> year_days Y + 2"
    using yd pos_mod_sign [of 7 "day + 3"] pos_mod_bound [of 7 "day + 3"] unfolding x by linarith+
  have w0: "(tm_yday tm + 1 - ((day + 3) mod 7 + 1) + 10) sdiv 7 = x div 7 + 1"
  proof -
    have "tm_yday tm + 1 - ((day + 3) mod 7 + 1) + 10 = x + 7" unfolding yd(1) x by linarith
    then show ?thesis using xb by (simp add: smod_div)
  qed
  have iso: "iso_week tm = (if x div 7 + 1 < 1 then (iso_weeks_in_year (Y - 1), Y - 1)
      else if x div 7 + 1 > iso_weeks_in_year Y then (1, Y + 1) else (x div 7 + 1, Y))"
    unfolding iso_week_def Let_def wd w0 Y_def ..
  have nxt: "days_from_civil (Y + 1) 1 1 = J + year_days Y" unfolding J_def by (rule days_next_year)
  have prv: "J = days_from_civil (Y - 1) 1 1 + year_days (Y - 1)" using days_next_year [of "Y - 1"] by (simp add: J_def)
  consider "x < 0" | "0 \<le> x" "x < year_days Y" | "year_days Y \<le> x" by linarith
  then have "days_from_civil year 1 1 \<le> T \<and> T < days_from_civil (year + 1) 1 1 \<and>
      week = (T - days_from_civil year 1 1) div 7 + 1"
  proof cases
    case 1
    define x' where "x' = T - days_from_civil (Y - 1) 1 1"
    have x': "x' = x + year_days (Y - 1)" "362 \<le> x'" "x' < year_days (Y - 1)"
      using 1 xb prv year_days_pos(3) [of "Y - 1"] unfolding x'_def x_def by linarith+
    have "x div 7 < 0" using 1 by (simp add: pos_imp_zdiv_neg_iff)
    then have w: "week = iso_weeks_in_year (Y - 1)" "year = Y - 1" using w iso by auto
    note iw = iso_weeks_thursday [OF _ T7 x'_def]
    have "iso_weeks_in_year (Y - 1) = x' div 7 + 1"
    proof (cases "x' < 364")
      case True
      then have "x' = 362 \<or> x' = 363" using x' by auto
      then show ?thesis using iw(3) y by (auto simp: Y_def)
    next
      case False
      then have "x' = 364 \<or> x' = 365" using x'(3) year_days_pos(2) [of "Y - 1"] by arith
      then show ?thesis using iw(1) y x' by (auto simp: Y_def)
    qed
    moreover have "days_from_civil (Y - 1) 1 1 \<le> T" "T < J" using 1 x'(2) unfolding x'_def x_def by linarith+
    ultimately show ?thesis unfolding w x'_def J_def by simp
  next
    case 2
    have "x div 7 + 1 \<le> iso_weeks_in_year Y"
    proof (cases "x < 364")
      case True
      then have "x div 7 \<le> 51" using 2 by auto
      then show ?thesis using iso_weeks_thursday(4) [OF _ T7 x_def [unfolded J_def]] y by (simp add: Y_def)
    next
      case False
      then have "x = 364 \<or> x = 365" using 2(2) year_days_pos(2) [of Y] by arith
      then show ?thesis using iso_weeks_thursday(1) [OF _ T7 x_def [unfolded J_def]] y 2 by (auto simp: Y_def)
    qed
    moreover have "0 \<le> x div 7" using 2 by (simp add: div_int_pos_iff)
    ultimately have "week = x div 7 + 1" "year = Y" using w iso by auto
    then show ?thesis using 2 nxt by (simp add: x_def J_def)
  next
    case 3
    have iw: "iso_weeks_in_year Y = 52"
      using iso_weeks_thursday(2) [OF _ T7 x_def [unfolded J_def]] y 3 xb by (simp add: Y_def)
    have "x div 7 = 52"
    proof (rule int_div_pos_eq)
      show "x = 7 * 52 + (x - 364)" by simp
      show "0 \<le> x - 364" "x - 364 < 7" using 3 xb year_days_pos(2,3) [of Y] by linarith+
    qed
    then have "week = 1" "year = Y + 1" using w iso iw by auto
    moreover have "T - days_from_civil (Y + 1) 1 1 = x - year_days Y" by (simp add: nxt x_def)
    moreover have "days_from_civil (Y + 1 + 1) 1 1 = J + year_days Y + year_days (Y + 1)" using days_next_year [of "Y + 1"] nxt by simp
    moreover have "(x - year_days Y) div 7 = 0" using 3 xb by (intro div_pos_pos_trivial) auto
    moreover have "J + year_days Y \<le> T" "T < J + year_days Y + year_days (Y + 1)"
      using 3 xb year_days_pos(3) [of "Y + 1"] unfolding x_def by linarith+
    ultimately show ?thesis by (simp add: nxt)
  qed
  then show "days_from_civil year 1 1 \<le> T" "T < days_from_civil (year + 1) 1 1"
    "week = (T - days_from_civil year 1 1) div 7 + 1" by auto
qed

section \<open>The output buffer\<close>

text \<open>The buffer holds the text so far, or as much of it as fits with the terminator; the overflow
  flag tells which.\<close>

definition sb_holds :: "sbuf \<Rightarrow> nat \<Rightarrow> string \<Rightarrow> bool" where
  "sb_holds b cap acc \<longleftrightarrow> sb_max b = cap \<and> sb_n b = length acc \<and> sb_s b = take (cap - 1) acc \<and>
     (sb_overflow b \<longleftrightarrow> cap \<le> length acc)"

lemma sb_putc_holds: "0 < cap \<Longrightarrow> sb_holds b cap acc \<Longrightarrow> sb_holds (sb_putc c b) cap (acc @ [c])"
  by (auto simp: sb_holds_def sb_putc_def Let_def)

lemma sb_puts_holds: "0 < cap \<Longrightarrow> sb_holds b cap acc \<Longrightarrow> sb_holds (sb_puts xs b) cap (acc @ xs)"
proof (induction xs arbitrary: b acc)
  case (Cons x xs)
  then have "sb_holds (sb_puts xs (sb_putc x b)) cap ((acc @ [x]) @ xs)" using sb_putc_holds by blast
  then show ?case by (simp add: sb_puts_def)
qed (simp add: sb_puts_def)

text \<open>The text of a format, with no buffer: the reference for \<open>strftime\<close>.  \<open>None\<close>: a conversion has
  no text, or a composite does not fit its 128 bytes.\<close>

definition conv_text :: "(string \<Rightarrow> string option) \<Rightarrow> tm \<Rightarrow> tzstate \<Rightarrow> char \<Rightarrow> mods \<Rightarrow> nat \<Rightarrow> string option" where
  "conv_text run tm tz c m width =
     (case str_conv tm tz c of
        Some s \<Rightarrow> map_option (\<lambda>s. str_text s m width) s
      | None \<Rightarrow>
        (case num_conv tm tz c of
           Some (v, defw, defpad) \<Rightarrow> Some (num_text v defw defpad m width)
         | None \<Rightarrow>
           (case comp_conv c of
              Some fmt \<Rightarrow>
                (case run fmt of
                   None \<Rightarrow> None
                 | Some t \<Rightarrow> if length t < 128 then Some (str_text t (m\<lparr>swap_mod := False\<rparr>) width) else None)
            | None \<Rightarrow> Some (char_conv c))))"

function text_loop :: "(string \<Rightarrow> string option) \<Rightarrow> tm \<Rightarrow> tzstate \<Rightarrow> string \<Rightarrow> string option" where
  "text_loop run tm tz [] = Some []"
| "text_loop run tm tz (c # p) =
     (if c \<noteq> CHR ''%'' then map_option (\<lambda>t. c # t) (text_loop run tm tz p)
      else case snd (read_width 0 (snd (read_mods no_mods p))) of
        [] \<Rightarrow> None
      | f # q \<Rightarrow>
          (case conv_text run tm tz f (fst (read_mods no_mods p)) (fst (read_width 0 (snd (read_mods no_mods p)))) of
             None \<Rightarrow> None
           | Some t \<Rightarrow> map_option (\<lambda>u. t @ u) (text_loop run tm tz q)))"
  by pat_completeness auto
termination
proof (relation "measure (\<lambda>(run, tm, tz, p). length p)", goal_cases)
  case (3 run tm tz c p)
  then show ?case
    using read_width_length [of 0 "snd (read_mods no_mods p)"] read_mods_length [of no_mods p] by auto
qed auto

declare text_loop.simps [simp del]

primrec text_of :: "nat \<Rightarrow> tm \<Rightarrow> tzstate \<Rightarrow> string \<Rightarrow> string option" where
  "text_of 0 tm tz fmt = None"
| "text_of (Suc k) tm tz fmt = text_loop (text_of k tm tz) tm tz fmt"

definition sb_fresh :: "nat \<Rightarrow> sbuf" where
  "sb_fresh cap = \<lparr>sb_s = [], sb_max = cap, sb_n = 0, sb_overflow = False\<rparr>"

lemma sb_fresh_holds: "0 < cap \<Longrightarrow> sb_holds (sb_fresh cap) cap []"
  by (simp add: sb_holds_def sb_fresh_def)

text \<open>A run that agrees with a text: it ends with the buffer holding the text, or gives up because
  the text does not fit.\<close>

definition agrees :: "(sbuf \<Rightarrow> (sbuf \<times> bool) option) \<Rightarrow> string \<Rightarrow> bool" where
  "agrees run t \<longleftrightarrow> (\<forall>b cap acc. 0 < cap \<longrightarrow> sb_holds b cap acc \<longrightarrow>
     (\<exists>b' ok. run b = Some (b', ok) \<and> (ok \<longrightarrow> sb_holds b' cap (acc @ t)) \<and> (\<not> ok \<longrightarrow> cap \<le> length (acc @ t))))"

lemma agreesD:
  assumes "agrees run t" "0 < cap" "sb_holds b cap acc"
  shows "\<exists>b' ok. run b = Some (b', ok) \<and> (ok \<longrightarrow> sb_holds b' cap (acc @ t)) \<and> (\<not> ok \<longrightarrow> cap \<le> length (acc @ t))"
  using assms by (simp add: agrees_def)

lemma convert_agrees:
  assumes run: "\<And>fmt t. trun fmt = Some t \<Longrightarrow> agrees (run fmt) t"
    and t: "conv_text trun tm tz c m width = Some t"
    and b: "0 < cap" "sb_holds b cap acc"
  shows "\<exists>b' ok. convert run tm tz c m width b = Some (b', ok) \<and> ok \<and> sb_holds b' cap (acc @ t)"
proof (cases "str_conv tm tz c")
  case (Some s)
  then show ?thesis using t sb_puts_holds [OF b] by (auto simp: convert_def conv_text_def str_out_def)
next
  case None
  show ?thesis
  proof (cases "num_conv tm tz c")
    case (Some v)
    then show ?thesis using None t sb_puts_holds [OF b] by (cases v) (auto simp: convert_def conv_text_def num_out_def)
  next
    case nn: None
    show ?thesis
    proof (cases "comp_conv c")
      case (Some fmt)
      then have "(case trun fmt of None \<Rightarrow> None
        | Some t \<Rightarrow> if length t < 128 then Some (str_text t (m\<lparr>swap_mod := False\<rparr>) width) else None) = Some t"
        using t None nn by (simp add: conv_text_def)
      then obtain u where u: "trun fmt = Some u" "length u < 128" "t = str_text u (m\<lparr>swap_mod := False\<rparr>) width"
        by (cases "trun fmt") (simp_all split: if_splits)
      obtain b' ok where r: "run fmt (sb_fresh 128) = Some (b', ok)" "ok \<longrightarrow> sb_holds b' 128 ([] @ u)"
        "\<not> ok \<longrightarrow> 128 \<le> length ([] @ u)"
        using agreesD [OF run [OF u(1)] _ sb_fresh_holds] by (metis zero_less_numeral)
      then have "ok" using u(2) by (metis append_Nil not_less)
      moreover then have "sb_s b' = u" "\<not> sb_overflow b'" using r(2) u(2) by (simp_all add: sb_holds_def)
      ultimately have "ok" "sb_s b' = u" "\<not> sb_overflow b'" by blast+
      then show ?thesis
        using r(1) None nn Some u(3) sb_puts_holds [OF b]
        by (auto simp: convert_def comp_out_def str_out_def sb_fresh_def)
    next
      case nc: None
      then show ?thesis using None nn t sb_puts_holds [OF b] by (auto simp: convert_def conv_text_def)
    qed
  qed
qed


lemma fmt_loop_agrees:
  assumes "\<And>fmt t. trun fmt = Some t \<Longrightarrow> agrees (run fmt) t" and "text_loop trun tm tz fmt = Some t"
  shows "agrees (fmt_loop run tm tz fmt) t"
  using assms
proof (induction trun tm tz fmt arbitrary: t rule: text_loop.induct)
  case (1 trun tm tz)
  then show ?case by (auto simp: text_loop.simps fmt_loop.simps agrees_def)
next
  case (2 trun tm tz c p)
  show ?case
  proof (cases "c = CHR ''%''")
    case False
    then obtain u where u: "text_loop trun tm tz p = Some u" "t = c # u"
      using 2(4) by (auto simp: text_loop.simps)
    have a: "agrees (fmt_loop run tm tz p) u" using 2(1) [OF False 2(3) u(1)] .
    show ?thesis unfolding agrees_def
    proof (intro allI impI)
      fix b cap acc
      assume b: "0 < cap" "sb_holds b cap acc"
      show "\<exists>b' ok. fmt_loop run tm tz (c # p) b = Some (b', ok) \<and> (ok \<longrightarrow> sb_holds b' cap (acc @ t)) \<and>
          (\<not> ok \<longrightarrow> cap \<le> length (acc @ t))"
        using agreesD [OF a b(1) sb_putc_holds [OF b, of c]] False u(2) by (simp add: fmt_loop.simps)
    qed
  next
    case True
    let ?m = "fst (read_mods no_mods p)" and ?p1 = "snd (read_mods no_mods p)"
    obtain f q where q: "snd (read_width 0 ?p1) = f # q"
      using 2(4) True by (cases "snd (read_width 0 ?p1)") (auto simp: text_loop.simps)
    obtain v u where v: "conv_text trun tm tz f ?m (fst (read_width 0 ?p1)) = Some v"
        "text_loop trun tm tz q = Some u" "t = v @ u"
      using 2(4) True q by (auto simp: text_loop.simps split: option.splits)
    have a: "agrees (fmt_loop run tm tz q) u" using 2(2) [OF _ q v(1) 2(3) v(2)] True by blast
    show ?thesis unfolding agrees_def
    proof (intro allI impI)
      fix b cap acc
      assume b: "0 < cap" "sb_holds b cap acc"
      have "\<exists>b' ok. convert run tm tz f ?m (fst (read_width 0 ?p1)) b = Some (b', ok) \<and> ok \<and> sb_holds b' cap (acc @ v)"
        by (rule convert_agrees [OF _ v(1) b]) (rule 2(3))
      then obtain b1 where
        b1: "convert run tm tz f ?m (fst (read_width 0 ?p1)) b = Some (b1, True)" "sb_holds b1 cap (acc @ v)"
        by auto
      have o: "sb_overflow b1 \<Longrightarrow> cap \<le> length (acc @ t)" using b1(2) v(3) by (simp add: sb_holds_def)
      show "\<exists>b' ok. fmt_loop run tm tz (c # p) b = Some (b', ok) \<and> (ok \<longrightarrow> sb_holds b' cap (acc @ t)) \<and>
          (\<not> ok \<longrightarrow> cap \<le> length (acc @ t))"
        using agreesD [OF a b(1) b1(2)] o b1(1) True q v(3) by (cases "sb_overflow b1") (auto simp: fmt_loop.simps)
    qed
  qed
qed

lemma fmt_run_agrees: "text_of k tm tz fmt = Some t \<Longrightarrow> agrees (fmt_run k tm tz fmt) t"
proof (induction k arbitrary: fmt t)
  case (Suc k)
  then show ?case using fmt_loop_agrees [of "text_of k tm tz" "fmt_run k tm tz" tm tz fmt t] by (simp add: agrees_def)
qed simp

text \<open>A format that has a text is written in full exactly when it fits with its terminator; otherwise
  \<open>strftime\<close> returns 0.\<close>

lemma strftime_text:
  assumes "text_of 5 tm tz fmt = Some t"
  shows "\<exists>s. strftime cap fmt tm tz = Some (if length t < cap then length t else 0, s) \<and> (length t < cap \<longrightarrow> s = t)"
proof (cases "cap = 0")
  case False
  then have c: "0 < cap" by simp
  obtain b ok where r: "fmt_run 5 tm tz fmt (sb_fresh cap) = Some (b, ok)" "ok \<longrightarrow> sb_holds b cap t" "\<not> ok \<longrightarrow> cap \<le> length t"
    using agreesD [OF fmt_run_agrees [OF assms] c sb_fresh_holds [OF c]] by auto
  show ?thesis
  proof (cases ok)
    case True
    then show ?thesis using r False by (auto simp: strftime_def sb_fresh_def sb_holds_def simp del: fmt_run.simps)
  next
    case no: False
    then show ?thesis using r False by (auto simp: strftime_def sb_fresh_def simp del: fmt_run.simps)
  qed
qed (simp add: strftime_def)

section \<open>Dates that are read\<close>

lemma days_before_start: "m < 12 \<Longrightarrow> days_before y m = month_start y (Suc m)"
proof (induction m)
  case 0
  then show ?case by (simp add: days_before_def)
next
  case (Suc m)
  then have m: "days_before y m = month_start y (Suc m)" by simp
  have "days_before y (Suc m) = days_before y m + days_in_month y (int m + 1)"
    using Suc.prems by (simp add: days_before_def days_in_month_def days_in_year_days year_days_def min_def)
  moreover have "month_start y (Suc (Suc m)) = month_start y (Suc m) + days_in_month y (int m + 1)"
    by (simp add: add.commute)
  ultimately show ?case using m by simp
qed

lemma month_before_year:
  assumes "1 \<le> m" "m \<le> 12"
  shows "days_from_civil y m 1 + days_in_month y m \<le> days_from_civil (y + 1) 1 1"
  using assms
proof (induction "nat (12 - m)" arbitrary: m)
  case 0
  then show ?case using month_end [of m y] by simp
next
  case (Suc k)
  then have m: "1 \<le> m" "m < 12" "k = nat (12 - (m + 1))" by auto
  have "days_from_civil y (m + 1) 1 + days_in_month y (m + 1) \<le> days_from_civil (y + 1) 1 1"
    using Suc.hyps(1) [OF m(3)] m by simp
  moreover have "28 \<le> days_in_month y (m + 1)" using month_bounds [of "m + 1" y] m by simp
  ultimately show ?case using days_next_month [of m y] m by simp
qed

lemma month_start_nonneg: "m \<le> 12 \<Longrightarrow> 0 \<le> month_start y m"
proof (induction m)
  case (Suc m)
  then show ?case using month_bounds [of "int m" y] by (cases "m = 0") simp_all
qed simp

text \<open>A valid date gets the weekday and the day of the year of the calendar.\<close>

lemma finalize_date_calendar:
  assumes y: "1 \<le> tm_year tm + 1900" and v: "valid_tm tm"
  shows "on_calendar (finalize_date tm) (tm_day tm)"
proof -
  define Y where "Y = tm_year tm + 1900"
  define J where "J = days_from_civil Y 1 1"
  define d where "d = tm_day tm - J"
  define m where "m = nat (tm_mon tm)"
  have m: "m < 12" "tm_mon tm = int m" using v by (auto simp: valid_tm_def m_def)
  have start: "days_from_civil Y (int m + 1) 1 = J + month_start Y (Suc m)"
    using month_start_days [of "Suc m" Y] m(1) by (simp add: J_def add.commute)
  have day: "tm_day tm = days_from_civil Y (int m + 1) 1 + (tm_mday tm - 1)"
    using days_of_month [of Y "int m + 1" "tm_mday tm"] by (simp add: tm_day_def Y_def m(2))
  have doy: "tm_mday tm + days_before Y m - 1 = d" using days_before_start [OF m(1), of Y] start day by (simp add: d_def)
  have "0 \<le> month_start Y (Suc m)" using start month_start_nonneg [of "Suc m" Y] m(1) by simp
  then have d0: "0 \<le> d" using start day v by (simp add: d_def valid_tm_def)
  have d1: "d < year_days Y"
    using month_before_year [of "int m + 1" Y] days_next_year [of Y] day v m
    by (simp add: d_def valid_tm_def Y_def J_def)
  have wd: "(jan1_wd Y - 1 + d) smod 7 = (tm_day tm + 3) mod 7"
  proof -
    have "jan1_wd Y - 1 + d = (J + 3) mod 7 + d" using jan1_wd_spec [of Y] y by (simp add: Y_def J_def)
    moreover have "0 \<le> (J + 3) mod 7 + d" using d0 by simp
    moreover have "((J + 3) mod 7 + d) mod 7 = (J + 3 + d) mod 7" by (simp add: mod_add_left_eq)
    moreover have "J + 3 + d = tm_day tm + 3" by (simp add: d_def)
    ultimately show ?thesis by (simp add: smod_div)
  qed
  have "((tm_day tm + 3) mod 7 + 1) smod 7 = (tm_day tm + 4) mod 7"
    using mod_add_left_eq [of "tm_day tm + 3" 7 1] by (simp add: smod_div add.assoc)
  then have "finalize_date tm = tm\<lparr>tm_yday := d, tm_wday := (tm_day tm + 4) mod 7\<rparr>"
    unfolding finalize_date_def Let_def Y_def [symmetric] m_def [symmetric] doy wd by simp
  then show ?thesis using d0 d1 by (simp add: on_calendar_def Y_def J_def d_def)
qed

section \<open>A date through its text\<close>

definition two :: "int \<Rightarrow> string" where
  "two v = [digit_char (nat v div 10), digit_char (nat v mod 10)]"

definition four :: "int \<Rightarrow> string" where
  "four v = [digit_char (nat v div 1000), digit_char (nat v div 100 mod 10), digit_char (nat v div 10 mod 10), digit_char (nat v mod 10)]"

lemma isdigit_digit: "d < 10 \<Longrightarrow> isdigit (uchar (digit_char d)) \<and> uchar (digit_char d) - 48 = int d"
  by (simp add: isdigit_def)

lemma get_num_loop_digits:
  "list_all (\<lambda>d. d < 10) ds \<Longrightarrow>
   get_num_loop (length ds) v (map digit_char ds @ rest) = (foldl (\<lambda>v d. v * 10 + int d) v ds, rest)"
  by (induction ds arbitrary: v) (simp_all add: isdigit_digit del: uchar_digit_char)

lemma get_num_digits:
  "list_all (\<lambda>d. d < 10) ds \<Longrightarrow> ds \<noteq> [] \<Longrightarrow>
   get_num (length ds) (map digit_char ds @ rest) = Some (foldl (\<lambda>v d. v * 10 + int d) 0 ds, rest)"
  using get_num_loop_digits [of ds 0 rest]
  by (cases ds) (simp_all add: get_num_def isdigit_digit del: uchar_digit_char get_num_loop.simps)

lemma get_num_two: "0 \<le> v \<Longrightarrow> v < 100 \<Longrightarrow> get_num 2 (two v @ rest) = Some (v, rest)"
proof -
  assume v: "0 \<le> v" "v < 100"
  define n where "n = nat v"
  have n: "v = int n" "n < 100" using v by (auto simp: n_def)
  then have "n div 10 < 10" "n div 10 * 10 + n mod 10 = n" by simp_all
  moreover from this have "int (n div 10) * 10 + int (n mod 10) = int n" by presburger
  ultimately show ?thesis
    using get_num_digits [of "[n div 10, n mod 10]" rest] n by (simp add: two_def numeral_2_eq_2)
qed

lemma horner: "a = b * 10 + x \<Longrightarrow> b = c * 10 + y \<Longrightarrow> c = d * 10 + z \<Longrightarrow> ((d * 10 + z) * 10 + y) * 10 + x = a" for a :: int
  by simp

lemma Suc4: "Suc (Suc (Suc (Suc 0))) = 4"
  by simp

lemma get_num_four: "1000 \<le> v \<Longrightarrow> v < 10000 \<Longrightarrow> get_num 4 (four v @ rest) = Some (v, rest)"
proof -
  assume v: "1000 \<le> v" "v < 10000"
  define n where "n = nat v"
  have n: "v = int n" "n < 10000" using v by (auto simp: n_def)
  have q: "n div 10 div 10 = n div 100" "n div 100 div 10 = n div 1000" by (simp_all add: div_mult2_eq [symmetric])
  have "int k = int (k div 10) * 10 + int (k mod 10)" for k by presburger
  from this [of n] this [of "n div 10"] this [of "n div 10 div 10"]
  have "((int (n div 1000) * 10 + int (n div 100 mod 10)) * 10 + int (n div 10 mod 10)) * 10 + int (n mod 10) = int n"
    unfolding q by (rule horner)
  moreover have "n div 1000 < 10" using n by simp
  ultimately show ?thesis
    using get_num_digits [of "[n div 1000, n div 100 mod 10, n div 10 mod 10, n mod 10]" rest] n
    by (simp add: four_def Suc4)
qed

lemma num_text_two: "0 \<le> v \<Longrightarrow> v < 100 \<Longrightarrow> num_text v 2 CHR ''0'' no_mods 0 = two v"
proof -
  assume v: "0 \<le> v" "v < 100"
  define n where "n = nat v"
  have n: "v = int n" "n < 100" using v by (auto simp: n_def)
  have z: "digit_char 0 = CHR ''0''" unfolding digit_char_def by code_simp
  show ?thesis
  proof (cases "n < 10")
    case True
    then have "dec n = [digit_char n]" by (simp add: dec.simps)
    then show ?thesis using True n by (simp add: num_text_def Let_def no_mods_def two_def z)
  next
    case False
    then have "dec n = [digit_char (n div 10), digit_char (n mod 10)]" using n by (simp add: dec.simps [of n] dec.simps [of "n div 10"])
    then show ?thesis using n by (simp add: num_text_def Let_def no_mods_def two_def)
  qed
qed

lemma num_text_four: "1000 \<le> v \<Longrightarrow> v < 10000 \<Longrightarrow> num_text v 0 CHR ''0'' no_mods 0 = four v"
proof -
  assume v: "1000 \<le> v" "v < 10000"
  define n where "n = nat v"
  have n: "v = int n" "1000 \<le> n" "n < 10000" using v by (auto simp: n_def)
  have d: "\<not> n < 10" "\<not> n div 10 < 10" "\<not> n div 10 div 10 < 10" "n div 10 div 10 div 10 < 10" using n by (simp_all add: div_mult2_eq [symmetric])
  have "dec n = [digit_char (n div 10 div 10 div 10), digit_char (n div 10 div 10 mod 10), digit_char (n div 10 mod 10), digit_char (n mod 10)]"
    using d by (simp add: dec.simps [of n] dec.simps [of "n div 10"] dec.simps [of "n div 10 div 10"] dec.simps [of "n div 10 div 10 div 10"]
        del: div_mult2_eq [symmetric])
  then show ?thesis using n by (simp add: num_text_def Let_def no_mods_def four_def div_mult2_eq [symmetric])
qed

definition timestamp :: "tm \<Rightarrow> string" where
  "timestamp tm = four (tm_year tm + 1900) @ ''-'' @ two (tm_mon tm + 1) @ ''-'' @ two (tm_mday tm) @ '' '' @
     two (tm_hour tm) @ '':'' @ two (tm_min tm) @ '':'' @ two (tm_sec tm)"

lemma text_loop_char: "c \<noteq> CHR ''%'' \<Longrightarrow> text_loop run tm tz (c # p) = map_option (\<lambda>t. c # t) (text_loop run tm tz p)"
  by (simp add: text_loop.simps)

lemma text_loop_conv:
  "f \<notin> set ''-_0^#'' \<Longrightarrow> \<not> isdigit (uchar f) \<Longrightarrow> conv_text run tm tz f no_mods 0 = Some t \<Longrightarrow>
   text_loop run tm tz (CHR ''%'' # f # q) = map_option (\<lambda>u. t @ u) (text_loop run tm tz q)"
  by (simp add: text_loop.simps)

lemma conv_text_num:
  "str_conv tm tz c = None \<Longrightarrow> num_conv tm tz c = Some (v, w, p) \<Longrightarrow> conv_text run tm tz c m width = Some (num_text v w p m width)"
  by (simp add: conv_text_def)

lemma timestamp_convs:
  assumes "valid_tm tm" "1000 \<le> tm_year tm + 1900" "tm_year tm + 1900 < 10000"
  shows "conv_text run tm tz CHR ''Y'' no_mods 0 = Some (four (tm_year tm + 1900))"
    "conv_text run tm tz CHR ''m'' no_mods 0 = Some (two (tm_mon tm + 1))"
    "conv_text run tm tz CHR ''d'' no_mods 0 = Some (two (tm_mday tm))"
    "conv_text run tm tz CHR ''H'' no_mods 0 = Some (two (tm_hour tm))"
    "conv_text run tm tz CHR ''M'' no_mods 0 = Some (two (tm_min tm))"
    "conv_text run tm tz CHR ''S'' no_mods 0 = Some (two (tm_sec tm))"
proof -
  have "tm_mday tm < 100" using assms month_bounds [of "tm_mon tm + 1" "tm_year tm + 1900"] by (simp add: valid_tm_def)
  then show "conv_text run tm tz CHR ''d'' no_mods 0 = Some (two (tm_mday tm))"
    using assms num_text_two [of "tm_mday tm"] by (simp add: conv_text_num str_conv_def num_conv_def valid_tm_def)
qed (use assms in \<open>simp_all add: conv_text_num str_conv_def num_conv_def valid_tm_def num_text_two num_text_four\<close>)

lemma timestamp_text:
  assumes "valid_tm tm" "1000 \<le> tm_year tm + 1900" "tm_year tm + 1900 < 10000"
  shows "text_of (Suc k) tm tz ''%Y-%m-%d %H:%M:%S'' = Some (timestamp tm)"
  by (simp add: text_loop_conv [OF _ _ timestamp_convs(1) [OF assms]] text_loop_conv [OF _ _ timestamp_convs(2) [OF assms]]
      text_loop_conv [OF _ _ timestamp_convs(3) [OF assms]] text_loop_conv [OF _ _ timestamp_convs(4) [OF assms]]
      text_loop_conv [OF _ _ timestamp_convs(5) [OF assms]] text_loop_conv [OF _ _ timestamp_convs(6) [OF assms]]
      text_loop_char text_loop.simps(1) isdigit_def uchar_def timestamp_def)

lemma parse_loop_char:
  "\<not> isspace (uchar c) \<Longrightarrow> c \<noteq> CHR ''%'' \<Longrightarrow> p_in s = c # r \<Longrightarrow> parse_loop nested (c # f) s = parse_loop nested f (s\<lparr>p_in := r\<rparr>)"
  by (simp add: parse_loop.simps)

lemma parse_loop_num:
  assumes "\<not> isdigit (uchar d)" "comp_field d = None" "num_field d = Some (k, f)" "get_num k (p_in s) = Some (v, r)"
  shows "parse_loop nested (CHR ''%'' # d # g) s = parse_loop nested g (f v (s\<lparr>p_in := r\<rparr>))"
proof -
  have "\<not> isspace (uchar CHR ''%'')" by (simp add: isspace_def uchar_def)
  then show ?thesis using assms by (subst parse_loop.simps) (simp add: parse_conv_def take_num_def)
qed

lemma parse_loop_space: "parse_loop nested (CHR '' '' # f) s = parse_loop nested f (s\<lparr>p_in := skip_ws (p_in s)\<rparr>)"
  by (subst parse_loop.simps) (simp add: isspace_def uchar_def)

lemma skip_ws_two: "0 \<le> v \<Longrightarrow> v < 100 \<Longrightarrow> skip_ws (CHR '' '' # two v @ rest) = two v @ rest"
proof -
  assume v: "0 \<le> v" "v < 100"
  then have d: "nat v div 10 < 10" by simp
  then have "uchar (digit_char (nat v div 10)) = 48 + int (nat v div 10)" by simp
  then have "digit_char (nat v div 10) \<notin> {CHR '' '', CHR 0x09, CHR 0x0A, CHR 0x0D, CHR 0x0B, CHR 0x0C}"
    by (auto simp: uchar_def)
  then show ?thesis by (simp add: skip_ws_def two_def)
qed

lemma tm_dates_eq:
  assumes "on_calendar a day" "on_calendar b day" "tm_year a = tm_year b"
  shows "tm_yday a = tm_yday b" "tm_wday a = tm_wday b"
  using assms by (simp_all add: on_calendar_def)

lemma strptime_timestamp:
  assumes v: "valid_tm tm" "1000 \<le> tm_year tm + 1900" "tm_year tm + 1900 < 10000"
    and cal: "on_calendar tm (tm_day tm)"
  shows "strptime (timestamp tm @ rest) ''%Y-%m-%d %H:%M:%S'' tm0 = (tm\<lparr>tm_isdst := tm_isdst tm0\<rparr>, Some rest)"
proof -
  define tm1 where "tm1 = tm\<lparr>tm_isdst := tm_isdst tm0, tm_yday := tm_yday tm0, tm_wday := tm_wday tm0\<rparr>"
  have day: "tm_day tm1 = tm_day tm" and v1: "valid_tm tm1" and y1: "1 \<le> tm_year tm1 + 1900"
    using v by (auto simp: tm1_def tm_day_def valid_tm_def)
  note fin = finalize_date_calendar [OF y1 v1, unfolded day]
  have mday: "tm_mday tm < 100" "0 \<le> tm_mday tm" "tm_mday tm \<le> 31"
    using v month_bounds [of "tm_mon tm + 1" "tm_year tm + 1900"] by (simp_all add: valid_tm_def)
  have mon: "0 \<le> tm_mon tm + 1" "tm_mon tm + 1 < 100" using v by (simp_all add: valid_tm_def)
  have rng: "0 \<le> tm_hour tm" "tm_hour tm < 100" "0 \<le> tm_min tm" "tm_min tm < 100" "0 \<le> tm_sec tm" "tm_sec tm < 100"
    using v by (simp_all add: valid_tm_def)
  define ps where "ps = \<lparr>p_in = rest, p_tm = tm0\<lparr>tm_hour := tm_hour tm, tm_min := tm_min tm, tm_sec := tm_sec tm\<rparr>,
    have_year = True, have_mon = True, have_mday = True, have_yday = False, p_year = tm_year tm + 1900, p_mon = tm_mon tm,
    p_mday = tm_mday tm, p_yday = 0, hour12 = -1, pm = -1\<rparr>"
  have loop: "parse_loop nested ''%Y-%m-%d %H:%M:%S'' (parse_start (timestamp tm @ rest) tm0) = (p_tm ps, Some ps)" for nested
    using v(2,3) mday mon rng
    by (simp add: parse_loop_num parse_loop_char parse_loop_space parse_loop.simps(1) isdigit_def isspace_def uchar_def
        comp_field_def num_field_def get_num_four get_num_two skip_ws_two timestamp_def parse_start_def ps_def)
  have "tm0\<lparr>tm_hour := tm_hour tm, tm_min := tm_min tm, tm_sec := tm_sec tm, tm_year := tm_year tm, tm_mon := tm_mon tm,
      tm_mday := tm_mday tm\<rparr> = tm1"
    unfolding tm1_def by (cases tm, cases tm0) simp
  then have "parse_date ps = (finalize_date tm1, Some rest)"
    using v(1) mday(3) by (simp add: parse_date_def ps_def valid_tm_def)
  then have "strptime (timestamp tm @ rest) ''%Y-%m-%d %H:%M:%S'' tm0 = (finalize_date tm1, Some rest)"
    using loop by (simp add: strptime_def numeral_2_eq_2 parse_hour_def ps_def)
  moreover have "finalize_date tm1 = tm\<lparr>tm_isdst := tm_isdst tm0\<rparr>"
    using tm_dates_eq [OF fin cal] by (simp add: finalize_date_def Let_def tm1_def)
  ultimately show ?thesis by simp
qed

end
