(* ===== verification/Cact_Regex_Lemmas.thy ===== *)
theory Cact_Regex_Lemmas
  imports Cact_Regex
begin

text \<open>
  What the compiler of \<open>Cact_Regex\<close> guarantees: compiling ends, whatever the pattern and the memory, and
  the program it builds stays within the arrays of the matcher.
\<close>

section \<open>The compiler\<close>

text \<open>Group numbers and bitmaps that fit the matcher's arrays.\<close>

fun wf_node :: "nat \<Rightarrow> cnode \<Rightarrow> bool" where
  "wf_node G (OP_CLASS cls neg) = (length cls = 256)"
| "wf_node G (OP_GROUP idx sub) = (1 \<le> idx \<and> idx \<le> G \<and> (\<forall>n\<in>set sub. wf_node G n))"
| "wf_node G (OP_BACKREF idx) = (idx \<le> G)"
| "wf_node G (OP_ALT alts) = (\<forall>q\<in>set alts. \<forall>n\<in>set q. wf_node G n)"
| "wf_node G (OP_REP lo hi sub) = (\<forall>n\<in>set sub. wf_node G n)"
| "wf_node G _ = True"

abbreviation wf_seq :: "nat \<Rightarrow> cnode list \<Rightarrow> bool" where
  "wf_seq G q \<equiv> \<forall>n\<in>set q. wf_node G n"

lemma wf_node_mono: "wf_node G n \<Longrightarrow> G \<le> H \<Longrightarrow> wf_node H n"
  by (induction G n rule: wf_node.induct) auto

text \<open>What a step of the compiler keeps, and what it adds when it gives a node.\<close>

definition goes :: "cstate \<Rightarrow> cstate \<Rightarrow> bool" where
  "goes cs cs' \<longleftrightarrow> length (cp cs') \<le> length (cp cs) \<and> ngroup cs \<le> ngroup cs' \<and>
     (cerr cs' = 0 \<longrightarrow> cerr cs = 0 \<and> (ngroup cs < REG_NGROUPS \<longrightarrow> ngroup cs' < REG_NGROUPS))"

definition piece_ok :: "cstate \<Rightarrow> cstate \<times> cnode option \<Rightarrow> bool" where
  "piece_ok cs r \<longleftrightarrow> goes cs (fst r) \<and>
     (\<forall>n. snd r = Some n \<longrightarrow> length (cp (fst r)) < length (cp cs) \<and> wf_node (ngroup (fst r)) n)"

lemma goes_refl [simp]: "goes cs cs"
  by (simp add: goes_def)

lemma goes_trans [trans]: "goes a b \<Longrightarrow> goes b c \<Longrightarrow> goes a c"
  by (auto simp: goes_def)

lemma at_nonempty: "at p i \<noteq> NUL \<Longrightarrow> i < length p"
  by (metis at_def linorder_not_less)

lemma goes_error [simp]: "e \<noteq> 0 \<Longrightarrow> goes cs (cs\<lparr>cerr := e\<rparr>)"
  by (simp add: goes_def)

lemma goes_alloc: "reg_alloc cs = Some cs' \<Longrightarrow> goes cs cs' \<and> cp cs' = cp cs \<and> ngroup cs' = ngroup cs"
  by (auto simp: reg_alloc_def goes_def split: if_splits)

lemma goes_seq_add: "seq_add cs q n = Some (cs', q') \<Longrightarrow> goes cs cs' \<and> cp cs' = cp cs \<and> ngroup cs' = ngroup cs \<and> q' = q @ [n]"
  by (auto simp: seq_add_def dest: goes_alloc split: if_splits option.splits)

lemma goes_new_branch: "new_branch cs = (cs', b) \<Longrightarrow> goes cs cs' \<and> cp cs' = cp cs \<and> ngroup cs' = ngroup cs"
  by (auto simp: new_branch_def reg_errors dest: goes_alloc split: option.splits)

lemma goes_advance: "goes cs (advance n cs)"
  by (simp add: goes_def advance_def)

lemma node_new_ok:
  assumes "cp cs \<noteq> []" "0 < k" "wf_node (ngroup cs) n"
  shows "piece_ok cs (node_new (advance k cs) n)"
  using assms by (auto simp: node_new_def reg_alloc_def piece_ok_def goes_def advance_def reg_errors)

lemma piece_ok_none: "goes cs cs' \<Longrightarrow> piece_ok cs (cs', None)"
  by (simp add: piece_ok_def)

lemma cls_set_bit_length [simp]: "length (cls_set_bit b c) = length b"
  by (simp add: cls_set_bit_def)

lemma fold_set_bit_length:
  "length (fold (\<lambda>i b. cls_set_bit b i) is b) = length b"
  "length (fold (\<lambda>i b. if P i then cls_set_bit b i else b) is b) = length b"
  by (induction "is" arbitrary: b) auto

lemma class_items_ok:
  "class_items first p cls = Inr (cls', r) \<Longrightarrow> length cls' = length cls \<and> length r < length p"
proof (induction p arbitrary: first cls rule: length_induct)
  case (1 p)
  note IH = 1(1) [rule_format]
  show ?case
  proof (cases p)
    case Nil
    then show ?thesis using 1(2) by (simp add: class_items.simps)
  next
    case (Cons c p')
    have sub: "length cls' = length b \<and> length r < length p"
      if "class_items False q b = Inr (cls', r)" "length q < length p" for q b
      using IH [OF that(2) that(1)] that(2) by simp
    have name: "length q < length p" if "class_name (tl p') = Some (n, q)" for n q
      using class_name_length [OF that] Cons by simp
    have short: "length p' < length p" "length (drop 2 p') < length p"
      using Cons by auto
    show ?thesis
      using 1(2) short name unfolding Cons
      by (subst (asm) class_items.simps)
        (auto simp: Let_def fold_set_bit_length simp flip: Cons split: if_splits option.splits dest!: sub)
  qed
qed

lemma at_neq_empty: "at p 0 = c \<Longrightarrow> c \<noteq> NUL \<Longrightarrow> p \<noteq> []"
  by auto

lemma parse_class_ok:
  assumes "cp cs \<noteq> []"
  shows "piece_ok cs (parse_class cs)"
proof (cases "reg_alloc cs")
  case None
  then show ?thesis by (simp add: parse_class_def piece_ok_none reg_errors)
next
  case (Some cs1)
  define p where "p = tl (cp cs1)"
  define p1 where "p1 = (if at p 0 = CHR ''^'' then tl p else p)"
  have short: "length p1 < length (cp cs)"
    using assms goes_alloc [OF Some] by (cases "cp cs") (auto simp: p1_def p_def)
  have "class_items f q b \<noteq> Inl 0" for f q b
    by (induction f q b rule: class_items.induct)
      (subst class_items.simps; auto simp: reg_errors Let_def split: option.splits)+
  then show ?thesis
    using goes_alloc [OF Some] short
    by (auto simp: parse_class_def Some Let_def p1_def p_def piece_ok_def goes_def split: sum.splits
      dest!: class_items_ok)
qed

lemma bound_num_length: "length (snd (bound_num v p)) \<le> length p"
  by (induction v p rule: bound_num.induct) (auto simp: le_SucI)

lemma goes_parse_bounds: "goes cs (fst (parse_bounds cs))"
proof -
  have "length (snd (bound_num v (tl (snd (bound_num 0 (drop w p)))))) \<le> length p" for v w p
    by (rule order_trans [OF bound_num_length]) (use bound_num_length [of 0 "drop w p"] in simp)
  moreover have "length (snd (bound_num v (drop w p))) \<le> length p" for v w p
    by (rule order_trans [OF bound_num_length]) simp
  ultimately show ?thesis
    by (auto simp: parse_bounds_def Let_def goes_def reg_errors case_prod_unfold intro: le_trans [OF diff_le_self])
qed

lemma brace_error_ok: "piece_ok cs (brace_error cs)"
  using goes_parse_bounds [of cs]
  by (auto simp: brace_error_def Let_def intro!: piece_ok_none) (auto simp: goes_def reg_errors)

lemma backref_atom_ok: "cp cs \<noteq> [] \<Longrightarrow> piece_ok cs (backref_atom idx cs)"
  by (simp add: backref_atom_def piece_ok_none reg_errors node_new_ok)

lemma plain_atom_ok: "cp cs \<noteq> [] \<Longrightarrow> piece_ok cs (plain_atom first cs)"
  by (simp add: plain_atom_def Let_def node_new_ok parse_class_ok)

lemma atom_ok:
  assumes "cp cs \<noteq> []"
  shows "piece_ok cs (ere_atom first cs)" "piece_ok cs (bre_atom first cs)"
  using assms
  by (simp_all add: ere_atom_def bre_atom_def Let_def node_new_ok plain_atom_ok backref_atom_ok brace_error_ok
    piece_ok_none reg_errors)

lemma goes_rep_suffix: "goes cs (fst (rep_suffix cs))"
  using goes_parse_bounds [of cs] by (auto simp: rep_suffix_def Let_def goes_advance split: prod.splits)

lemma finish_piece_ok:
  assumes "piece_ok cs a"
  shows "piece_ok cs (finish_piece a)"
proof (cases a)
  case (Pair cs0 r)
  show ?thesis
  proof (cases r)
    case None
    then show ?thesis using assms Pair by (simp add: finish_piece_def)
  next
    case (Some atom)
    have g: "goes cs cs0" "length (cp cs0) < length (cp cs)" "wf_node (ngroup cs0) atom"
      using assms by (auto simp: piece_ok_def Pair Some)
    have g1: "goes cs cs1" "goes cs0 cs1" if "rep_suffix cs0 = (cs1, x)" for cs1 x
      using goes_rep_suffix [of cs0] that g(1) goes_trans by auto
    have give: "piece_ok cs (cs1, Some n)" if "goes cs0 cs1" "n = atom \<or> n = OP_REP lo hi [atom]" for cs1 n lo hi
      using g that wf_node_mono [OF g(3), of "ngroup cs1"] goes_trans [OF g(1) that(1)]
      by (auto simp: piece_ok_def goes_def)
    have fail: "goes cs (cs1\<lparr>cerr := 12\<rparr>)" if "goes cs cs1" for cs1
      using that goes_trans goes_error by fastforce
    show ?thesis
      using g g1
      by (auto simp: finish_piece_def Pair Some reg_errors split: prod.splits option.splits bool.splits
        intro!: piece_ok_none fail give dest!: goes_alloc goes_seq_add goes_new_branch intro: goes_trans)
        (meson goes_trans)+
  qed
qed

lemma opens_group_length: "opens_group cs \<Longrightarrow> (if extended cs then 1 else 2) \<le> length (cp cs)"
  using at_nonempty [of "cp cs" 0] at_nonempty [of "cp cs" 1] by (auto simp: opens_group_def Suc_le_eq split: if_splits)

lemma group_open_ok:
  assumes "opens_group cs" "group_open cs = (cs1, b)"
  shows "goes cs cs1" "length (cp cs1) < length (cp cs)" "1 \<le> ngroup cs1"
  using assms opens_group_length [OF assms(1)]
  by (auto simp: group_open_def Let_def new_branch_def reg_alloc_def goes_def advance_def reg_errors
    split: if_splits option.splits)

lemma group_close_ok:
  assumes "goes cs cs2" "length (cp cs2) < length (cp cs)" "wf_seq (ngroup cs2) sub" "1 \<le> idx" "idx \<le> ngroup cs2"
  shows "piece_ok cs (group_close idx sub cs2)"
  using assms
  by (auto simp: group_close_def Let_def node_new_def reg_alloc_def piece_ok_def goes_def advance_def reg_errors)

lemma eat_alt_ok: "at_alt cs \<Longrightarrow> goes cs (eat_alt cs) \<and> length (cp (eat_alt cs)) < length (cp cs)"
  using at_nonempty [of "cp cs" 0]
  by (auto simp: at_alt_def eat_alt_def goes_def advance_def split: if_splits)

definition seq_ok :: "cstate \<Rightarrow> (cstate \<times> cnode list) option \<Rightarrow> bool" where
  "seq_ok cs r \<longleftrightarrow> (\<exists>cs' q. r = Some (cs', q) \<and> goes cs cs' \<and> wf_seq (ngroup cs') q)"

lemma seq_ok_goes: "goes cs cs1 \<Longrightarrow> seq_ok cs1 r \<Longrightarrow> seq_ok cs r"
  by (auto simp: seq_ok_def intro: goes_trans)

lemma wf_seq_mono: "wf_seq G q \<Longrightarrow> G \<le> H \<Longrightarrow> wf_seq H q"
  using wf_node_mono by blast

lemma goes_ngroup: "goes cs cs' \<Longrightarrow> ngroup cs \<le> ngroup cs'"
  by (simp add: goes_def)

text \<open>The fuel each parser needs for what is left of the pattern.\<close>

definition pieces_ok :: "nat \<Rightarrow> bool" where
  "pieces_ok f \<longleftrightarrow> (\<forall>first cs. 3 * length (cp cs) + 1 \<le> f \<longrightarrow> cp cs \<noteq> [] \<longrightarrow>
     (\<exists>r. parse_piece f first cs = Some r \<and> piece_ok cs r))"

definition seqs_ok :: "nat \<Rightarrow> bool" where
  "seqs_ok f \<longleftrightarrow> (\<forall>first q cs. 3 * length (cp cs) + 2 \<le> f \<longrightarrow> wf_seq (ngroup cs) q \<longrightarrow> seq_ok cs (parse_seq f first q cs))"

definition alts_ok :: "nat \<Rightarrow> bool" where
  "alts_ok f \<longleftrightarrow> (\<forall>cs. 3 * length (cp cs) + 3 \<le> f \<longrightarrow> seq_ok cs (parse_alt f cs))"

definition more_alts_ok :: "nat \<Rightarrow> bool" where
  "more_alts_ok f \<longleftrightarrow> (\<forall>cap alts q cs. 3 * length (cp cs) + 2 \<le> f \<longrightarrow> (\<forall>b\<in>set alts. wf_seq (ngroup cs) b) \<longrightarrow>
     wf_seq (ngroup cs) q \<longrightarrow> seq_ok cs (parse_alts f cap alts q cs))"

lemma pieces_step:
  assumes "alts_ok f"
  shows "pieces_ok (Suc f)"
  unfolding pieces_ok_def
proof (intro allI impI)
  fix first and cs :: cstate
  assume f: "3 * length (cp cs) + 1 \<le> Suc f" and ne: "cp cs \<noteq> []"
  show "\<exists>r. parse_piece (Suc f) first cs = Some r \<and> piece_ok cs r"
  proof (cases "opens_group cs")
    case False
    then show ?thesis by (simp add: parse_piece.simps finish_piece_ok atom_ok ne)
  next
    case True
    obtain cs1 b where o: "group_open cs = (cs1, b)" by (cases "group_open cs")
    note g = group_open_ok [OF True o]
    show ?thesis
    proof (cases b)
      case False
      then show ?thesis by (simp add: parse_piece.simps True o g piece_ok_none)
    next
      case b: True
      define cs1' where "cs1' = cs1\<lparr>depth := Suc (depth cs1)\<rparr>"
      have "seq_ok cs1' (parse_alt f cs1')"
        using assms f g(2) by (simp add: alts_ok_def cs1'_def)
      then obtain cs2 sub where a: "parse_alt f cs1' = Some (cs2, sub)" "goes cs1' cs2" "wf_seq (ngroup cs2) sub"
        by (auto simp: seq_ok_def)
      have "goes cs cs2" "length (cp cs2) < length (cp cs)" "1 \<le> ngroup cs1" "ngroup cs1 \<le> ngroup cs2"
        using a(2) g by (auto simp: goes_def cs1'_def)
      then have "piece_ok cs (finish_piece (group_close (ngroup cs1) sub cs2))"
        using a(3) group_close_ok finish_piece_ok by blast
      moreover have "parse_piece (Suc f) first cs = Some (finish_piece (group_close (ngroup cs1) sub cs2))"
        using a(1) by (simp add: parse_piece.simps True o b flip: cs1'_def)
      ultimately show ?thesis by blast
    qed
  qed
qed

lemma seqs_step:
  assumes "pieces_ok f" "seqs_ok f"
  shows "seqs_ok (Suc f)"
  unfolding seqs_ok_def
proof (intro allI impI)
  fix first q and cs :: cstate
  assume f: "3 * length (cp cs) + 2 \<le> Suc f" and q: "wf_seq (ngroup cs) q"
  show "seq_ok cs (parse_seq (Suc f) first q cs)"
  proof (cases "at_seq_end cs \<or> at_alt cs")
    case True
    then show ?thesis using q by (simp add: parse_seq.simps seq_ok_def)
  next
    case False
    then have "cp cs \<noteq> []" by (auto simp: at_seq_end_def seq_end_at_def Let_def)
    then obtain cs1 r where r: "parse_piece f first cs = Some (cs1, r)" "piece_ok cs (cs1, r)"
      using assms(1) f by (fastforce simp: pieces_ok_def)
    then have g: "goes cs cs1" by (simp add: piece_ok_def)
    show ?thesis
    proof (cases "\<exists>n. r = Some n \<and> seq_add cs1 q n \<noteq> None")
      case True
      then obtain n cs2 q2 where n: "r = Some n" "seq_add cs1 q n = Some (cs2, q2)" by auto
      note s = goes_seq_add [OF n(2)]
      have "wf_seq (ngroup cs2) q2" "3 * length (cp cs2) + 2 \<le> f"
        using r(2) s f q wf_seq_mono [OF q goes_ngroup [OF g]] by (auto simp: piece_ok_def n(1))
      then have "seq_ok cs2 (parse_seq f False q2 cs2)"
        using assms(2) by (simp add: seqs_ok_def)
      then show ?thesis
        using seq_ok_goes goes_trans [OF g] s False by (auto simp: parse_seq.simps r(1) n)
    next
      case stop: False
      have "goes cs (cs1\<lparr>cerr := e\<rparr>)" if "e \<noteq> 0" for e
        using goes_trans [OF g goes_error [OF that]] .
      then show ?thesis
        using stop False g wf_seq_mono [OF q goes_ngroup [OF g]]
        by (auto simp: parse_seq.simps r(1) seq_ok_def reg_errors split: option.splits)
    qed
  qed
qed

lemma more_alts_step:
  assumes "seqs_ok f" "more_alts_ok f"
  shows "more_alts_ok (Suc f)"
  unfolding more_alts_ok_def
proof (intro allI impI)
  fix cap alts q and cs :: cstate
  assume f: "3 * length (cp cs) + 2 \<le> Suc f" and alts: "\<forall>b\<in>set alts. wf_seq (ngroup cs) b"
    and q: "wf_seq (ngroup cs) q"
  show "seq_ok cs (parse_alts (Suc f) cap alts q cs)"
  proof (cases "at_alt cs")
    case False
    then show ?thesis
      using alts by (auto simp: parse_alts.simps seq_ok_def reg_errors split: option.splits dest!: goes_seq_add)
  next
    case True
    note e = eat_alt_ok [OF True]
    then have "seq_ok (eat_alt cs) (parse_seq f True [] (eat_alt cs))"
      using assms(1) f by (simp add: seqs_ok_def)
    then obtain cs1 c where c: "parse_seq f True [] (eat_alt cs) = Some (cs1, c)" "goes (eat_alt cs) cs1"
      "wf_seq (ngroup cs1) c"
      by (auto simp: seq_ok_def)
    have g: "goes cs cs1" using e c(2) goes_trans by blast
    note wf = wf_seq_mono [OF _ goes_ngroup [OF g]]
    have go: "seq_ok cs (parse_alts f cap' (alts @ [c]) q cs2)"
      if "goes cs1 cs2" "cp cs2 = cp cs1" "ngroup cs2 = ngroup cs1" for cap' cs2
    proof (rule seq_ok_goes [OF goes_trans [OF g that(1)]])
      have "3 * length (cp cs2) + 2 \<le> f"
        using e c(2) f that(2) by (simp add: goes_def)
      moreover have "\<forall>b\<in>set alts. wf_seq (ngroup cs1) b"
        by (intro ballI wf_node_mono [OF _ goes_ngroup [OF g]]) (use alts in blast)
      then have "\<forall>b\<in>set (alts @ [c]). wf_seq (ngroup cs2) b"
        using c(3) unfolding that(3) by simp
      moreover have "wf_seq (ngroup cs2) q"
        unfolding that(3) by (rule wf [OF q])
      ultimately show "seq_ok cs2 (parse_alts f cap' (alts @ [c]) q cs2)"
        using assms(2) by (simp add: more_alts_ok_def)
    qed
    have stop: "seq_ok cs (Some (cs1\<lparr>cerr := x\<rparr>, q))" if "x \<noteq> 0" for x
      using goes_trans [OF g goes_error [OF that]] wf [OF q] by (simp add: seq_ok_def)
    show ?thesis
    proof (cases "cerr cs1 = 0 \<and> length alts = cap")
      case True
      then show ?thesis
        using \<open>at_alt cs\<close>
        by (cases "reg_alloc cs1") (auto simp: parse_alts.simps c(1) reg_errors intro!: stop go dest: goes_alloc)
    next
      case False
      then show ?thesis
        using \<open>at_alt cs\<close> g wf [OF q] go [of cs1 cap] by (auto simp: parse_alts.simps c(1) seq_ok_def [of cs "Some _"])
    qed
  qed
qed

lemma alts_step:
  assumes "seqs_ok f" "more_alts_ok f"
  shows "alts_ok (Suc f)"
  unfolding alts_ok_def
proof (intro allI impI)
  fix cs :: cstate
  assume f: "3 * length (cp cs) + 3 \<le> Suc f"
  then have "seq_ok cs (parse_seq f True [] cs)"
    using assms(1) by (simp add: seqs_ok_def)
  then obtain cs1 b where b: "parse_seq f True [] cs = Some (cs1, b)" "goes cs cs1" "wf_seq (ngroup cs1) b"
    by (auto simp: seq_ok_def)
  have go: "seq_ok cs (parse_alts f 4 [b] b cs2)"
    if "goes cs1 cs2" "cp cs2 = cp cs1" "ngroup cs2 = ngroup cs1" for cs2
    by (rule seq_ok_goes [OF goes_trans [OF b(2) that(1)]])
      (use assms(2) b f that in \<open>auto simp: more_alts_ok_def goes_def\<close>)
  have "goes cs (cs2\<lparr>cerr := x\<rparr>)" if "x \<noteq> 0" "goes cs1 cs2" for x cs2
    using goes_trans [OF goes_trans [OF b(2) that(2)] goes_error [OF that(1)]] .
  then show "seq_ok cs (parse_alt (Suc f) cs)"
    using go b by (auto simp: parse_alt.simps seq_ok_def [of cs "Some _"] reg_errors split: option.splits
      dest!: goes_alloc intro: goes_trans) (metis go goes_trans)
qed

lemma parsers_ok: "pieces_ok f \<and> seqs_ok f \<and> alts_ok f \<and> more_alts_ok f"
proof (induction f)
  case 0
  show ?case by (simp add: pieces_ok_def seqs_ok_def alts_ok_def more_alts_ok_def)
next
  case (Suc f)
  then show ?case by (simp add: pieces_step seqs_step alts_step more_alts_step)
qed

text \<open>Compiling returns; a compiled program has fewer than 32 groups and refers to no others.\<close>

definition wf_program :: "program \<Rightarrow> bool" where
  "wf_program prog \<longleftrightarrow> prog_ngroup prog < REG_NGROUPS \<and> wf_seq (prog_ngroup prog) (prog_top prog)"

lemma regcomp_outcome:
  "\<exists>r. regcomp mem has_preg pattern fl = Some r \<and> (\<forall>prog. r = Inr prog \<longrightarrow> wf_program prog \<and> prog_cflags prog = fl)"
proof (cases pattern)
  case None
  then show ?thesis by (simp add: regcomp_def)
next
  case (Some p)
  define cs0 where "cs0 = \<lparr>cp = p, extended = has_flag fl REG_EXTENDED, depth = 0, ngroup = 0, cerr = 0, room = mem - 1\<rparr>"
  have "seq_ok cs0 (parse_alt (parse_fuel p) cs0)"
    using parsers_ok [of "parse_fuel p"] by (simp add: alts_ok_def parse_fuel_def cs0_def)
  then obtain cs top where "parse_alt (parse_fuel p) cs0 = Some (cs, top)" "goes cs0 cs" "wf_seq (ngroup cs) top"
    by (auto simp: seq_ok_def)
  then show ?thesis
    by (auto simp: regcomp_def Some wf_program_def goes_def reg_errors Let_def REG_NGROUPS_def simp flip: cs0_def)
      (auto simp: cs0_def REG_NGROUPS_def)
qed

text \<open>\<open>regerror\<close> stays within the buffer, and holds the whole message in a buffer of the size it returned.\<close>

lemma regerror_fits:
  "regerror err has_buf room_left = (need, Some out) \<Longrightarrow> length out \<le> room_left"
  "fst (regerror err has_buf room_left) \<le> room_left \<Longrightarrow> has_buf \<Longrightarrow> snd (regerror err has_buf room_left) = Some (reg_message err @ [NUL])"
  by (auto simp: regerror_def Let_def split: if_splits)

lemma regcomp_error: "regcomp mem has_preg pattern fl = Some (Inl err) \<Longrightarrow> err \<noteq> 0"
  by (auto simp: regcomp_def reg_errors Let_def bind_eq_Some_conv split: option.splits if_splits)

end
