(* ===== verification/Cact_Regex_Match.thy ===== *)
theory Cact_Regex_Match
  imports Cact_Regex_Lemmas
begin

text \<open>
  The matcher of \<open>Cact_Regex\<close> against the language of a program.  A node denotes a relation between the
  position it starts at and the one it ends at.  The matcher always returns; every end it records is in
  that relation, and unless it runs into the step limit it records the greatest one.
\<close>

section \<open>The matcher returns\<close>

definition returns :: "re_env \<Rightarrow> nat \<Rightarrow> cont \<Rightarrow> bool" where
  "returns e p k \<longleftrightarrow> (\<forall>pos s. p \<le> pos \<and> pos \<le> slen e \<longrightarrow> k pos s \<noteq> None)"

lemma returnsI: "(\<And>pos s. p \<le> pos \<Longrightarrow> pos \<le> slen e \<Longrightarrow> k pos s \<noteq> None) \<Longrightarrow> returns e p k"
  by (simp add: returns_def)

lemma returnsD: "returns e p k \<Longrightarrow> p \<le> pos \<Longrightarrow> pos \<le> slen e \<Longrightarrow> k pos s \<noteq> None"
  by (simp add: returns_def)

lemma bind_pair_none: "(m \<bind> (\<lambda>(r, s). g r s)) = None \<longleftrightarrow> m = None \<or> (\<exists>r s. m = Some (r, s) \<and> g r s = None)"
  by (cases m) (auto split: prod.splits)

lemma returns_guard: "returns e p m \<Longrightarrow> returns e p (guard_step m)"
  by (simp add: returns_def guard_step_def Let_def del: not_None_eq)

lemma one_char_ok:
  "char_ok e c pos \<Longrightarrow> pos + 1 \<le> slen e" "any_ok e pos \<Longrightarrow> pos + 1 \<le> slen e" "class_ok e cls neg pos \<Longrightarrow> pos + 1 \<le> slen e"
  by (auto simp: char_ok_def any_ok_def class_ok_def)

lemma returns_one:
  assumes "returns e p k" "\<And>pos. P pos \<Longrightarrow> pos + 1 \<le> slen e"
  shows "returns e p (\<lambda>pos s. if P pos then k (pos + 1) s else Some (False, s))"
  using assms by (simp add: returns_def del: not_None_eq)

lemma returns_anchor: "returns e p k \<Longrightarrow> returns e p (\<lambda>pos s. if P pos then k pos s else Some (False, s))"
  by (simp add: returns_def del: not_None_eq)

lemma returns_kgrp: "returns e p k \<Longrightarrow> returns e p (kgrp_fn idx k)"
  by (simp add: returns_def kgrp_fn_def Let_def bind_pair_none)

lemma returns_group: "returns e p (body (kgrp_fn idx k)) \<Longrightarrow> returns e p (m_group idx body k)"
  by (simp add: returns_def m_group_def Let_def bind_pair_none)

lemma returns_rep:
  assumes body: "\<And>p k. returns e p k \<Longrightarrow> returns e p (body k)"
    and k: "returns e p k" and "p \<le> pos" "pos \<le> slen e" "slen e - pos < f"
  shows "m_rep f body lo hi k done pos s \<noteq> None"
  using assms(3-)
proof (induction f arbitrary: "done" pos s)
  case (Suc f)
  define c where "c = (\<lambda>pos' s'.
    if pos' = pos then if lo \<le> done + 1 then k pos' s' else Some (False, s')
    else m_rep f body lo hi k (done + 1) pos' s')"
  have "c pos' s' \<noteq> None" if "pos \<le> pos'" "pos' \<le> slen e" for pos' s'
  proof (cases "pos' = pos")
    case True
    then show ?thesis using returnsD [OF k Suc(2,3)] by (simp add: c_def del: not_None_eq)
  next
    case False
    then have "m_rep f body lo hi k (done + 1) pos' s' \<noteq> None"
      using that Suc(2,4) by (intro Suc(1)) auto
    then show ?thesis using False by (simp add: c_def)
  qed
  then have "returns e pos (body c)"
    by (intro body returnsI)
  then have b: "body c pos s1 \<noteq> None" for s1
    using Suc(3) by (simp add: returns_def)
  then show ?case
    using returnsD [OF k Suc(2,3), of s] by (auto simp: bind_pair_none split: if_splits simp flip: c_def)
qed simp

lemma matcher_returns:
  "returns e p k \<Longrightarrow> returns e p (m_node e n k)"
  "returns e p k \<Longrightarrow> returns e p (m_seq e q k)"
  "returns e p k \<Longrightarrow> returns e p (m_alts e alts k)"
proof (induction e n and e q and e alts arbitrary: p k and p k and p k rule: m_node_m_seq_m_alts.induct)
  case (9 e lo hi sub)
  have "returns e p (\<lambda>pos. m_rep (Suc (slen e - pos)) (m_seq e sub) lo hi k 0 pos)"
  proof (rule returnsI)
    fix pos s
    assume "p \<le> pos" "pos \<le> slen e"
    with 9 show "m_rep (Suc (slen e - pos)) (m_seq e sub) lo hi k 0 pos s \<noteq> None"
      by (intro returns_rep [of e _ p]) auto
  qed
  then show ?case
    unfolding m_node.simps by (rule returns_guard)
next
  case (7 e idx)
  have "pos + gl \<le> slen e" if "backref_len e idx pos s = Some gl" for pos s gl
    using that by (auto simp: backref_len_def Let_def split: if_splits)
  then show ?case
    using 7 unfolding m_node.simps by (intro returns_guard) (simp add: returns_def del: not_None_eq split: option.splits)
next
  case (13 e q alts)
  then show ?case by (auto simp: returns_def bind_pair_none)
next
  case (12 e)
  show ?case by (simp add: returns_def del: not_None_eq)
next
  case (1 e c)
  then show ?case
    unfolding m_node.simps by (intro returns_guard returns_one one_char_ok)
next
  case (2 e)
  then show ?case
    unfolding m_node.simps by (intro returns_guard returns_one one_char_ok)
next
  case (3 e cls neg)
  then show ?case
    unfolding m_node.simps by (intro returns_guard returns_one one_char_ok)
qed (auto intro!: returns_guard returns_group returns_kgrp returns_anchor)

section \<open>The language of a program\<close>

text \<open>The relation of a node, for a given meaning of repetition.\<close>

type_synonym span = "nat \<times> nat"

fun rel_node :: "(int \<Rightarrow> int \<Rightarrow> span set \<Rightarrow> span set) \<Rightarrow> re_env \<Rightarrow> cnode \<Rightarrow> span set"
  and rel_seq :: "(int \<Rightarrow> int \<Rightarrow> span set \<Rightarrow> span set) \<Rightarrow> re_env \<Rightarrow> cnode list \<Rightarrow> span set"
  and rel_alts :: "(int \<Rightarrow> int \<Rightarrow> span set \<Rightarrow> span set) \<Rightarrow> re_env \<Rightarrow> cnode list list \<Rightarrow> span set"
where
  "rel_node R e (OP_CHAR c) = {(i, j). char_ok e c i \<and> j = i + 1}"
| "rel_node R e OP_ANY = {(i, j). any_ok e i \<and> j = i + 1}"
| "rel_node R e (OP_CLASS cls neg) = {(i, j). class_ok e cls neg i \<and> j = i + 1}"
| "rel_node R e OP_BOL = {(i, j). bol_ok e i \<and> j = i}"
| "rel_node R e OP_EOL = {(i, j). eol_ok e i \<and> j = i}"
| "rel_node R e (OP_GROUP idx sub) = rel_seq R e sub"
| "rel_node R e (OP_BACKREF idx) = {}"
| "rel_node R e (OP_ALT alts) = rel_alts R e alts"
| "rel_node R e (OP_REP lo hi sub) = R lo hi (rel_seq R e sub)"
| "rel_seq R e [] = Id"
| "rel_seq R e (n # q) = rel_node R e n O rel_seq R e q"
| "rel_alts R e [] = {}"
| "rel_alts R e (q # alts) = rel_seq R e q \<union> rel_alts R e alts"

text \<open>Any number of iterations within the bounds.\<close>

definition iterate :: "int \<Rightarrow> int \<Rightarrow> span set \<Rightarrow> span set" where
  "iterate lo hi X = {(i, j). \<exists>n. lo \<le> int n \<and> (hi < 0 \<or> int n \<le> hi) \<and> (i, j) \<in> X ^^ n}"

abbreviation re_lang :: "re_env \<Rightarrow> cnode list \<Rightarrow> span set" where
  "re_lang \<equiv> rel_seq iterate"

text \<open>The iterations the matcher tries: an empty one only as the last.\<close>

inductive rep_path :: "int \<Rightarrow> int \<Rightarrow> span set \<Rightarrow> int \<Rightarrow> nat \<Rightarrow> nat \<Rightarrow> bool" for lo hi X where
  stop: "lo \<le> d \<Longrightarrow> rep_path lo hi X d i i"
| empty: "hi < 0 \<or> d < hi \<Longrightarrow> (i, i) \<in> X \<Longrightarrow> lo \<le> d + 1 \<Longrightarrow> rep_path lo hi X d i i"
| more: "hi < 0 \<or> d < hi \<Longrightarrow> (i, m) \<in> X \<Longrightarrow> m \<noteq> i \<Longrightarrow> rep_path lo hi X (d + 1) m j \<Longrightarrow> rep_path lo hi X d i j"

inductive_simps rep_path_unfold: "rep_path lo hi X d i j"

definition tried :: "int \<Rightarrow> int \<Rightarrow> span set \<Rightarrow> span set" where
  "tried lo hi X = {(i, j). rep_path lo hi X 0 i j}"

section \<open>What a continuation explores\<close>

text \<open>The run from \<open>s\<close> to \<open>s'\<close> with result \<open>r\<close> has tried the ends in \<open>E\<close>.\<close>

definition ran :: "nat set \<Rightarrow> mstate \<Rightarrow> bool \<Rightarrow> mstate \<Rightarrow> bool" where
  "ran E s r s' \<longleftrightarrow> steps s \<le> steps s' \<and> best_end s \<le> best_end s' \<and>
     (best_end s' = best_end s \<or> best_end s' \<in> int ` E) \<and>
     (steps s' \<le> REG_STEP_LIMIT + 1 \<longrightarrow> \<not> r \<and> (\<forall>j\<in>E. int j \<le> best_end s'))"

definition explores :: "re_env \<Rightarrow> nat \<Rightarrow> cont \<Rightarrow> (nat \<Rightarrow> nat set) \<Rightarrow> bool" where
  "explores e p k V \<longleftrightarrow> (\<forall>pos s r s'. p \<le> pos \<longrightarrow> pos \<le> slen e \<longrightarrow> k pos s = Some (r, s') \<longrightarrow> ran (V pos) s r s')"

definition ends :: "span set \<Rightarrow> (nat \<Rightarrow> nat set) \<Rightarrow> nat \<Rightarrow> nat set" where
  "ends X V i = (\<Union>j\<in>X `` {i}. V j)"

lemma exploresI:
  "(\<And>pos s r s'. p \<le> pos \<Longrightarrow> pos \<le> slen e \<Longrightarrow> k pos s = Some (r, s') \<Longrightarrow> ran (V pos) s r s') \<Longrightarrow> explores e p k V"
  by (simp add: explores_def)

lemma exploresD:
  "explores e p k V \<Longrightarrow> k pos s = Some (r, s') \<Longrightarrow> p \<le> pos \<Longrightarrow> pos \<le> slen e \<Longrightarrow> ran (V pos) s r s'"
  by (simp add: explores_def)

lemma explores_from: "explores e p k V \<Longrightarrow> p \<le> q \<Longrightarrow> explores e q k V"
  by (simp add: explores_def)

lemma ran_none [simp]: "ran {} s False s"
  by (simp add: ran_def)

lemma ran_then:
  assumes "ran E s False s1" "ran F s1 r s2"
  shows "ran (E \<union> F) s r s2"
  using assms by (auto simp: ran_def)

lemma ran_limit:
  assumes "ran E s True s1" "E \<subseteq> F"
  shows "ran F s True s1"
  using assms by (auto simp: ran_def)

lemma explores_guard:
  assumes "explores e p m V"
  shows "explores e p (guard_step m) V"
proof (rule exploresI)
  fix pos s r s'
  assume a: "p \<le> pos" "pos \<le> slen e" "guard_step m pos s = Some (r, s')"
  show "ran (V pos) s r s'"
  proof (cases "steps s > REG_STEP_LIMIT")
    case True
    then show ?thesis using a(3) by (auto simp: guard_step_def ran_def)
  next
    case False
    then have "m pos (s\<lparr>steps := steps s + 1\<rparr>) = Some (r, s')"
      using a(3) by (simp add: guard_step_def)
    then show ?thesis using exploresD [OF assms _ a(1,2)] by (fastforce simp: ran_def)
  qed
qed

lemma explores_one:
  assumes "explores e p k V" "\<And>pos. P pos \<Longrightarrow> pos + 1 \<le> slen e"
  shows "explores e p (\<lambda>pos s. if P pos then k (pos + 1) s else Some (False, s)) (ends {(i, j). P i \<and> j = i + 1} V)"
  using assms by (intro exploresI) (auto simp: ends_def explores_def split: if_splits)

lemma explores_anchor:
  "explores e p k V \<Longrightarrow>
   explores e p (\<lambda>pos s. if P pos then k pos s else Some (False, s)) (ends {(i, j). P i \<and> j = i} V)"
  by (intro exploresI) (auto simp: ends_def explores_def split: if_splits)

lemma explores_kgrp: "explores e p k V \<Longrightarrow> explores e p (kgrp_fn idx k) V"
  by (fastforce simp: explores_def kgrp_fn_def ran_def Let_def bind_eq_Some_conv)

lemma explores_group: "explores e p (body (kgrp_fn idx k)) V \<Longrightarrow> explores e p (m_group idx body k) V"
  by (fastforce simp: explores_def m_group_def ran_def Let_def bind_eq_Some_conv)

text \<open>The iterations from \<open>d\<close> on: none, one empty, or a proper one and the rest.\<close>

lemma ends_rep:
  "ends {(i, j). rep_path lo hi X d i j} V i =
     (if lo \<le> d then V i else {}) \<union>
     (if hi \<ge> 0 \<and> d \<ge> hi then {}
      else ends X (\<lambda>m. if m = i then if lo \<le> d + 1 then V m else {} else ends {(i, j). rep_path lo hi X (d + 1) i j} V m) i)"
  unfolding ends_def
  by (rule set_eqI) (auto simp: rep_path_unfold [of lo hi X d i] not_le split: if_splits)

lemma explores_rep:
  assumes body: "\<And>p k V. explores e p k V \<Longrightarrow> explores e p (body k) (ends X V)"
    and k: "explores e p k V" and "p \<le> pos" "pos \<le> slen e" "m_rep f body lo hi k d pos s = Some (r, s')"
  shows "ran (ends {(i, j). rep_path lo hi X d i j} V pos) s r s'"
  using assms(3-)
proof (induction f arbitrary: d pos s r s')
  case (Suc f)
  define c where "c = (\<lambda>pos' s'.
    if pos' = pos then if lo \<le> d + 1 then k pos' s' else Some (False, s')
    else m_rep f body lo hi k (d + 1) pos' s')"
  define W where "W = (\<lambda>m. if m = pos then if lo \<le> d + 1 then V m else {} else ends {(i, j). rep_path lo hi X (d + 1) i j} V m)"
  have "explores e pos c W"
    using Suc exploresD [OF k] by (intro exploresI) (auto simp: c_def W_def split: if_splits)
  then have b: "ran (ends X W pos) s1 r1 s2" if "body c pos s1 = Some (r1, s2)" for s1 r1 s2
    using body Suc(3) that by (auto simp: explores_def)
  obtain r0 s0 where first: "(if lo \<le> d then k pos s else Some (False, s)) = Some (r0, s0)"
    and rest: "(if r0 then Some (True, s0) else if hi \<ge> 0 \<and> d \<ge> hi then Some (False, s0) else body c pos s0) = Some (r, s')"
    using Suc(4) unfolding m_rep.simps c_def [symmetric] by (auto simp: bind_eq_Some_conv)
  have o: "ran (if lo \<le> d then V pos else {}) s r0 s0"
    using first exploresD [OF k _ Suc(2,3)] by (auto split: if_splits)
  show ?case
  proof (cases r0)
    case True
    then have "r" "s' = s0" using rest by auto
    then show ?thesis
      unfolding ends_rep [of lo hi X d V pos] using ran_limit [OF o [unfolded eqTrueI [OF True]] Un_upper1] by simp
  next
    case False
    note first_tried = ran_then [OF o [unfolded eq_False [THEN iffD2, OF False]]]
    show ?thesis
    proof (cases "hi \<ge> 0 \<and> d \<ge> hi")
      case True
      then have "\<not> r" "s' = s0" using rest False by auto
      then show ?thesis unfolding ends_rep [of lo hi X d V pos] using first_tried [OF ran_none] True by simp
    next
      case more: False
      then have "body c pos s0 = Some (r, s')" using rest False by argo
      then show ?thesis
        unfolding ends_rep [of lo hi X d V pos] W_def [symmetric] if_not_P [OF more] by (intro first_tried b)
    qed
  qed
qed simp

fun backref_free :: "cnode \<Rightarrow> bool" where
  "backref_free (OP_GROUP idx sub) = (\<forall>n\<in>set sub. backref_free n)"
| "backref_free (OP_BACKREF idx) = False"
| "backref_free (OP_ALT alts) = (\<forall>q\<in>set alts. \<forall>n\<in>set q. backref_free n)"
| "backref_free (OP_REP lo hi sub) = (\<forall>n\<in>set sub. backref_free n)"
| "backref_free _ = True"

lemma ends_simps: "ends Id V = V" "ends (X O Y) V = ends X (ends Y V)" "ends (X \<union> Y) V i = ends X V i \<union> ends Y V i" "ends {} V i = {}"
  by (auto simp: ends_def fun_eq_iff)

lemma matcher_explores:
  "backref_free n \<Longrightarrow> explores e p k V \<Longrightarrow> explores e p (m_node e n k) (ends (rel_node tried e n) V)"
  "\<forall>n\<in>set q. backref_free n \<Longrightarrow> explores e p k V \<Longrightarrow> explores e p (m_seq e q k) (ends (rel_seq tried e q) V)"
  "\<forall>q\<in>set alts. \<forall>n\<in>set q. backref_free n \<Longrightarrow> explores e p k V \<Longrightarrow> explores e p (m_alts e alts k) (ends (rel_alts tried e alts) V)"
proof (induction e n and e q and e alts arbitrary: p k V and p k V and p k V rule: m_node_m_seq_m_alts.induct)
  case (9 e lo hi sub)
  have "explores e p (\<lambda>pos. m_rep (Suc (slen e - pos)) (m_seq e sub) lo hi k 0 pos) (ends (rel_node tried e (OP_REP lo hi sub)) V)"
  proof (rule exploresI)
    fix pos s r s'
    assume a: "p \<le> pos" "pos \<le> slen e" "m_rep (Suc (slen e - pos)) (m_seq e sub) lo hi k 0 pos s = Some (r, s')"
    have body: "explores e p k V \<Longrightarrow> explores e p (m_seq e sub k) (ends (rel_seq tried e sub) V)" for p k V
      using 9(1,2) by simp
    show "ran (ends (rel_node tried e (OP_REP lo hi sub)) V pos) s r s'"
      unfolding rel_node.simps tried_def [of lo hi] by (rule explores_rep [OF body 9(3) a])
  qed
  then show ?case
    unfolding m_node.simps by (rule explores_guard)
next
  case (13 e q alts)
  show ?case
  proof (rule exploresI)
    fix pos s r s'
    assume a: "p \<le> pos" "pos \<le> slen e" "m_alts e (q # alts) k pos s = Some (r, s')"
    then obtain r1 s1 where one: "m_seq e q k pos s = Some (r1, s1)"
      and two: "(if r1 then Some (True, s1) else m_alts e alts k pos s1) = Some (r, s')"
      by (auto simp: bind_eq_Some_conv)
    have seq: "explores e p (m_seq e q k) (ends (rel_seq tried e q) V)"
      using 13(3,4) by (intro 13(1)) simp_all
    note o = exploresD [OF seq one a(1,2)]
    show "ran (ends (rel_alts tried e (q # alts)) V pos) s r s'"
    proof (cases r1)
      case True
      then have "r" "s' = s1" using two by auto
      then show ?thesis using ran_limit [OF o [unfolded eqTrueI [OF True]] Un_upper1] by (simp add: ends_simps)
    next
      case False
      then have two': "m_alts e alts k pos s1 = Some (r, s')" using two by simp
      have "explores e p (m_alts e alts k) (ends (rel_alts tried e alts) V)"
        using 13(3,4) one False by (intro 13(2)) simp_all
      note ran_then [OF o [unfolded eq_False [THEN iffD2, OF False]] exploresD [OF this two' a(1,2)]]
      then show ?thesis by (simp add: ends_simps)
    qed
  qed
next
  case (1 e c)
  then show ?case
    unfolding m_node.simps rel_node.simps by (intro explores_guard explores_one one_char_ok)
next
  case (2 e)
  then show ?case
    unfolding m_node.simps rel_node.simps by (intro explores_guard explores_one one_char_ok)
next
  case (3 e cls neg)
  then show ?case
    unfolding m_node.simps rel_node.simps by (intro explores_guard explores_one one_char_ok)
next
  case (6 e idx sub)
  then have "explores e p (m_seq e sub (kgrp_fn idx k)) (ends (rel_seq tried e sub) V)"
    by (intro 6(1) explores_kgrp) simp_all
  then show ?case
    unfolding m_node.simps rel_node.simps by (intro explores_guard explores_group)
next
  case (12 e)
  show ?case by (rule exploresI) (auto simp: ends_simps)
qed (auto simp: ends_simps intro!: explores_guard explores_group explores_kgrp explores_anchor)

section \<open>What is tried is the language\<close>

lemma rep_path_iterations:
  "rep_path lo hi X d i j \<Longrightarrow> X \<subseteq> Y \<Longrightarrow>
   \<exists>n. lo \<le> d + int n \<and> (hi < 0 \<or> n = 0 \<or> d + int n \<le> hi) \<and> (i, j) \<in> Y ^^ n"
proof (induction rule: rep_path.induct)
  case (stop d i)
  then show ?case by (intro exI [of _ 0]) simp
next
  case (empty d i)
  then show ?case by (intro exI [of _ 1]) auto
next
  case (more d i m j)
  then obtain n where "lo \<le> d + 1 + int n" "hi < 0 \<or> n = 0 \<or> d + 1 + int n \<le> hi" "(m, j) \<in> Y ^^ n" by auto
  moreover have "(i, j) \<in> Y ^^ Suc n"
    using more(2,6) \<open>(m, j) \<in> Y ^^ n\<close> by (intro relpow_Suc_I2 [of _ m]) auto
  ultimately show ?case
    using more(1) by (intro exI [of _ "Suc n"]) (simp del: relpow.simps, linarith)
qed

lemma tried_iterate: "X \<subseteq> Y \<Longrightarrow> tried lo hi X \<subseteq> iterate lo hi Y"
proof (rule subrelI)
  fix i j
  assume "X \<subseteq> Y" "(i, j) \<in> tried lo hi X"
  then obtain n where "lo \<le> int n" "hi < 0 \<or> n = 0 \<or> int n \<le> hi" "(i, j) \<in> Y ^^ n"
    using rep_path_iterations [of lo hi X 0 i j Y] by (auto simp: tried_def)
  then show "(i, j) \<in> iterate lo hi Y" unfolding iterate_def by (cases "hi < 0") auto
qed

lemma iterations_rep_path:
  "(i, j) \<in> X ^^ n \<Longrightarrow> lo \<le> d + int n \<Longrightarrow> hi < 0 \<or> d + int n \<le> hi \<Longrightarrow> lo \<le> d + 1 \<or> (\<forall>i. (i, i) \<notin> X) \<Longrightarrow>
   rep_path lo hi X d i j"
proof (induction n arbitrary: i d)
  case 0
  then show ?case by (auto intro: rep_path.stop)
next
  case (Suc n)
  then obtain m where m: "(i, m) \<in> X" "(m, j) \<in> X ^^ n" by (blast dest: relpow_Suc_D2)
  show ?case
  proof (cases "m = i")
    case False
    then show ?thesis using Suc m by (intro rep_path.more [OF _ m(1)]) auto
  next
    case True
    then have "lo \<le> d + 1" using Suc(5) m(1) by auto
    show ?thesis
    proof (cases "n = 0")
      case True
      then show ?thesis using Suc(4) m \<open>m = i\<close> \<open>lo \<le> d + 1\<close> by (auto intro: rep_path.empty)
    next
      case False
      then show ?thesis using Suc(4) m(2) \<open>m = i\<close> \<open>lo \<le> d + 1\<close> by (intro Suc(1)) auto
    qed
  qed
qed

lemma iterate_tried:
  assumes "lo \<le> 1 \<or> (\<forall>i. (i, i) \<notin> X)"
  shows "iterate lo hi X \<subseteq> tried lo hi X"
  using iterations_rep_path [of _ _ _ X lo 0 hi] assms by (auto simp: iterate_def tried_def)

text \<open>Nodes that may match the empty string, and programs whose repetitions of such nodes ask for at most
  one iteration.\<close>

fun nullable :: "cnode \<Rightarrow> bool" where
  "nullable (OP_CHAR c) = False"
| "nullable OP_ANY = False"
| "nullable (OP_CLASS cls neg) = False"
| "nullable (OP_GROUP idx sub) = (\<forall>n\<in>set sub. nullable n)"
| "nullable (OP_ALT alts) = (\<exists>q\<in>set alts. \<forall>n\<in>set q. nullable n)"
| "nullable (OP_REP lo hi sub) = (lo \<le> 0 \<or> (\<forall>n\<in>set sub. nullable n))"
| "nullable _ = True"

fun simple_reps :: "cnode \<Rightarrow> bool" where
  "simple_reps (OP_GROUP idx sub) = (\<forall>n\<in>set sub. simple_reps n)"
| "simple_reps (OP_ALT alts) = (\<forall>q\<in>set alts. \<forall>n\<in>set q. simple_reps n)"
| "simple_reps (OP_REP lo hi sub) = ((lo \<le> 1 \<or> \<not> (\<forall>n\<in>set sub. nullable n)) \<and> (\<forall>n\<in>set sub. simple_reps n))"
| "simple_reps _ = True"

lemma relpow_progress:
  assumes "\<And>i j. (i, j) \<in> X \<Longrightarrow> i \<le> (j :: nat)"
  shows "(i, j) \<in> X ^^ n \<Longrightarrow> i \<le> j"
    and "(\<And>i j. (i, j) \<in> X \<Longrightarrow> i < j) \<Longrightarrow> 0 < n \<Longrightarrow> (i, j) \<in> X ^^ n \<Longrightarrow> i < j"
proof -
  show le: "(i, j) \<in> X ^^ n \<Longrightarrow> i \<le> j" for n i j
    by (induction n arbitrary: j) (auto dest: assms order_trans)
  show "(\<And>i j. (i, j) \<in> X \<Longrightarrow> i < j) \<Longrightarrow> 0 < n \<Longrightarrow> (i, j) \<in> X ^^ n \<Longrightarrow> i < j"
    by (cases n) (auto dest!: le intro: le_less_trans)
qed

lemma lang_progress:
  "(i, j) \<in> rel_node iterate e n \<Longrightarrow> i \<le> j \<and> (\<not> nullable n \<longrightarrow> i < j)"
  "(i, j) \<in> rel_seq iterate e q \<Longrightarrow> i \<le> j \<and> (\<not> (\<forall>n\<in>set q. nullable n) \<longrightarrow> i < j)"
  "(i, j) \<in> rel_alts iterate e alts \<Longrightarrow> i \<le> j \<and> (\<not> (\<exists>q\<in>set alts. \<forall>n\<in>set q. nullable n) \<longrightarrow> i < j)"
proof (induction "iterate" e n and "iterate" e q and "iterate" e alts arbitrary: i j and i j and i j
    rule: rel_node_rel_seq_rel_alts.induct)
  case (9 e lo hi sub)
  then obtain n where n: "lo \<le> int n" "(i, j) \<in> rel_seq iterate e sub ^^ n"
    by (auto simp: iterate_def)
  have "i \<le> j" using relpow_progress(1) [OF _ n(2)] 9(1) by blast
  moreover have "i < j" if "\<not> nullable (OP_REP lo hi sub)"
    using relpow_progress(2) [of "rel_seq iterate e sub" n i j] 9(1) n that by fastforce
  ultimately show ?case by blast
qed (fastforce split: if_splits)+

theorem tried_sound:
  "rel_node tried e n \<subseteq> rel_node iterate e n"
  "rel_seq tried e q \<subseteq> rel_seq iterate e q"
  "rel_alts tried e alts \<subseteq> rel_alts iterate e alts"
  by (induction "tried" e n and "tried" e q and "tried" e alts rule: rel_node_rel_seq_rel_alts.induct)
    (auto simp: relcomp_mono tried_iterate [THEN subsetD])

lemma tried_complete:
  "simple_reps n \<Longrightarrow> rel_node tried e n = rel_node iterate e n"
  "\<forall>n\<in>set q. simple_reps n \<Longrightarrow> rel_seq tried e q = rel_seq iterate e q"
  "\<forall>q\<in>set alts. \<forall>n\<in>set q. simple_reps n \<Longrightarrow> rel_alts tried e alts = rel_alts iterate e alts"
proof (induction "tried" e n and "tried" e q and "tried" e alts rule: rel_node_rel_seq_rel_alts.induct)
  case (9 e lo hi sub)
  then have X: "rel_seq tried e sub = rel_seq iterate e sub" by simp
  have "lo \<le> 1 \<or> (\<forall>i. (i, i) \<notin> rel_seq iterate e sub)"
    using 9(2) lang_progress(2) by fastforce
  then show ?case
    using iterate_tried [of lo] tried_iterate [OF order_refl] by (simp add: X subset_antisym)
qed auto

section \<open>The search\<close>

lemma top_explores: "explores e p top_fn (\<lambda>j. {j})"
  by (rule exploresI) (auto simp: top_fn_def ran_def split: if_splits)

lemma top_returns: "returns e p top_fn"
  by (auto simp: returns_def top_fn_def)

definition plain_program :: "program \<Rightarrow> bool" where
  "plain_program prog \<longleftrightarrow> (\<forall>n\<in>set (prog_top prog). backref_free n)"

definition simple_program :: "program \<Rightarrow> bool" where
  "simple_program prog \<longleftrightarrow> (\<forall>n\<in>set (prog_top prog). simple_reps n)"

abbreviation spans :: "program \<Rightarrow> re_env \<Rightarrow> span set" where
  "spans prog e \<equiv> re_lang e (prog_top prog)"

definition in_limit :: "program \<Rightarrow> re_env \<Rightarrow> nat \<Rightarrow> bool" where
  "in_limit prog e start \<longleftrightarrow> (case attempt prog e start of None \<Rightarrow> False | Some s \<Rightarrow> steps s \<le> REG_STEP_LIMIT + 1)"

lemma attempt_returns: "start \<le> slen e \<Longrightarrow> \<exists>s. attempt prog e start = Some s"
  using returnsD [OF matcher_returns(2) [OF top_returns [of e 0]], of start "prog_top prog" fresh]
  by (auto simp: attempt_def)

lemma attempt_ran:
  assumes "plain_program prog" "attempt prog e start = Some s" "start \<le> slen e"
  shows "\<exists>r. ran (rel_seq tried e (prog_top prog) `` {start}) fresh r s"
proof -
  have "explores e 0 (m_seq e (prog_top prog) top_fn) (ends (rel_seq tried e (prog_top prog)) (\<lambda>j. {j}))"
    using assms(1) by (intro matcher_explores top_explores) (simp add: plain_program_def)
  note exploresD [OF this]
  moreover obtain r where "m_seq e (prog_top prog) top_fn start fresh = Some (r, s)"
    using assms(2) by (auto simp: attempt_def)
  ultimately have "ran (ends (rel_seq tried e (prog_top prog)) (\<lambda>j. {j}) start) fresh r s"
    using assms(3) by blast
  then show ?thesis by (auto simp: ends_def)
qed

lemma attempt_sound:
  assumes "plain_program prog" "attempt prog e start = Some s" "start \<le> slen e" "best_end s \<ge> 0"
  shows "(start, nat (best_end s)) \<in> spans prog e"
  using attempt_ran [OF assms(1-3)] assms(4) tried_sound(2) [of e "prog_top prog"]
  by (auto simp: ran_def fresh_def Let_def)

lemma attempt_complete:
  assumes "plain_program prog" "simple_program prog" "attempt prog e start = Some s" "start \<le> slen e"
    and "in_limit prog e start" "(start, j) \<in> spans prog e"
  shows "int j \<le> best_end s"
  using attempt_ran [OF assms(1,3,4)] assms(2,3,5,6) tried_complete(2) [of "prog_top prog" e]
  by (auto simp: ran_def in_limit_def simple_program_def)

lemma search_result:
  assumes "\<forall>i\<in>set starts. i \<le> slen e"
  shows "\<exists>r. search prog e starts = Some r \<and>
    (case r of
       None \<Rightarrow> \<forall>i\<in>set starts. \<exists>s. attempt prog e i = Some s \<and> best_end s < 0
     | Some (i, s) \<Rightarrow> \<exists>xs ys. starts = xs @ i # ys \<and> attempt prog e i = Some s \<and> best_end s \<ge> 0 \<and>
         (\<forall>i\<in>set xs. \<exists>s. attempt prog e i = Some s \<and> best_end s < 0))"
  using assms
proof (induction starts)
  case (Cons i starts)
  then obtain s where s: "attempt prog e i = Some s" using attempt_returns [of i e prog] by auto
  obtain r where r: "search prog e starts = Some r" using Cons by auto
  show ?case
  proof (cases "best_end s \<ge> 0")
    case True
    then show ?thesis using s by simp (rule exI [of _ "[]"], simp)
  next
    case False
    show ?thesis
    proof (cases r)
      case None
      then show ?thesis using Cons r s False by auto
    next
      case (Some a)
      obtain k t where a: "a = (k, t)" by (cases a)
      obtain xs ys where "starts = xs @ k # ys" "attempt prog e k = Some t" "best_end t \<ge> 0"
        "\<forall>i\<in>set xs. \<exists>s. attempt prog e i = Some s \<and> best_end s < 0"
        using Cons r Some a by auto
      then show ?thesis
        using r s False Some a by simp (rule exI [of _ "i # xs"], simp)
    qed
  qed
qed simp

text \<open>What the search over a range finds.\<close>

lemma search_leftmost_longest:
  assumes "plain_program prog" "simple_program prog" "\<forall>i\<le>slen e. in_limit prog e i"
  obtains (found) a s where "search prog e [lo..<Suc (slen e)] = Some (Some (a, s))" "lo \<le> a" "a \<le> slen e"
      "best_end s \<ge> 0" "(a, nat (best_end s)) \<in> spans prog e" "\<And>i j. lo \<le> i \<Longrightarrow> (i, j) \<in> spans prog e \<Longrightarrow> i \<le> slen e \<Longrightarrow> a \<le> i"
      "\<And>j. (a, j) \<in> spans prog e \<Longrightarrow> j \<le> nat (best_end s)"
    | (missing) "search prog e [lo..<Suc (slen e)] = Some None" "\<And>i j. lo \<le> i \<Longrightarrow> i \<le> slen e \<Longrightarrow> (i, j) \<notin> spans prog e"
proof -
  have miss: "(i, j) \<notin> spans prog e" if "attempt prog e i = Some s" "best_end s < 0" "i \<le> slen e" for i j s
    using attempt_complete [OF assms(1,2) that(1,3)] assms(3) that by fastforce
  have range: "\<forall>i\<in>set [lo..<Suc (slen e)]. i \<le> slen e" by (simp del: upt_Suc add: less_Suc_eq_le)
  obtain r where r: "search prog e [lo..<Suc (slen e)] = Some r"
    and c: "case r of
       None \<Rightarrow> \<forall>i\<in>set [lo..<Suc (slen e)]. \<exists>s. attempt prog e i = Some s \<and> best_end s < 0
     | Some (i, s) \<Rightarrow> \<exists>xs ys. [lo..<Suc (slen e)] = xs @ i # ys \<and> attempt prog e i = Some s \<and> best_end s \<ge> 0 \<and>
         (\<forall>i\<in>set xs. \<exists>s. attempt prog e i = Some s \<and> best_end s < 0)"
    using search_result [OF range, of prog] by blast
  show ?thesis
  proof (cases r)
    case None
    have "(i, j) \<notin> spans prog e" if i: "lo \<le> i" "i \<le> slen e" for i j
    proof -
      obtain s where "attempt prog e i = Some s" "best_end s < 0"
        using c i unfolding None by (fastforce simp del: upt_Suc simp: less_Suc_eq_le)
      then show ?thesis using miss i by blast
    qed
    then show ?thesis using missing r None by blast
  next
    case (Some p)
    obtain a s where p: "p = (a, s)" by (cases p)
    obtain xs ys where xs: "[lo..<Suc (slen e)] = xs @ a # ys" "attempt prog e a = Some s" "best_end s \<ge> 0"
      "\<forall>i\<in>set xs. \<exists>s. attempt prog e i = Some s \<and> best_end s < 0"
      using c by (auto simp: Some p simp del: upt_Suc)
    have "a \<in> set [lo..<Suc (slen e)]" unfolding xs(1) by simp
    then have a: "lo \<le> a" "a \<le> slen e" by auto
    have front: "i \<in> set xs" if "lo \<le> i" "i < a" for i
    proof -
      have "sorted (xs @ a # ys)" "i \<in> set (xs @ a # ys)" using that a(2) unfolding xs(1) [symmetric] by (simp_all del: upt_Suc add: sorted_upt)
      then show ?thesis using that(2) by (auto simp: sorted_append)
    qed
    show ?thesis
    proof (rule found)
      show "search prog e [lo..<Suc (slen e)] = Some (Some (a, s))" using r Some p by simp
      show "(a, nat (best_end s)) \<in> spans prog e" using attempt_sound [OF assms(1) xs(2) a(2) xs(3)] .
      show "a \<le> i" if "lo \<le> i" "(i, j) \<in> spans prog e" "i \<le> slen e" for i j
        using front [OF that(1)] xs(4) miss that by (meson not_le)
      show "j \<le> nat (best_end s)" if "(a, j) \<in> spans prog e" for j
        using attempt_complete [OF assms(1,2) xs(2) a(2) _ that] assms(3) a(2) by auto
    qed (use a xs in auto)
  qed
qed

text \<open>\<open>regexec\<close> returns.\<close>

lemma regexec_returns: "\<exists>code pm. regexec preg str pmatch efl = Some (code, pm) \<and> code \<in> {0, REG_NOMATCH}"
proof (cases "preg = None \<or> str = None")
  case True
  then show ?thesis by (auto simp: regexec_def split: option.splits)
next
  case False
  then obtain prog s where p: "preg = Some prog" "str = Some s" by auto
  obtain so eo where r: "match_range efl s pmatch = (so, eo)" by (cases "match_range efl s pmatch")
  have "\<forall>i\<in>set [nat so..<Suc (nat eo)]. i \<le> slen (match_env prog s eo efl)"
    by (simp del: upt_Suc add: less_Suc_eq_le match_env_def)
  from search_result [OF this, of prog]
  obtain x where "search prog (match_env prog s eo efl) [nat so..<Suc (nat eo)] = Some x" by blast
  then show ?thesis by (auto simp: regexec_def p r split: option.splits simp del: upt_Suc)
qed

lemma regexec_of_search:
  assumes "match_range efl s (Some (m # ms)) = (so, eo)" "0 \<le> so" "so \<le> eo"
  shows "search prog (match_env prog s eo efl) [nat so..<Suc (nat eo)] = Some (Some (a, t)) \<Longrightarrow> best_end t \<ge> 0 \<Longrightarrow>
      \<exists>ms'. regexec (Some prog) (Some s) (Some (m # ms)) efl = Some (0, Some ((int a, int (nat (best_end t))) # ms'))"
    and "search prog (match_env prog s eo efl) [nat so..<Suc (nat eo)] = Some None \<Longrightarrow>
      regexec (Some prog) (Some s) (Some (m # ms)) efl = Some (REG_NOMATCH, Some (m # ms))"
proof -
  have cells: "[0..<length (m # ms)] = 0 # [1..<length (m # ms)]"
    by (simp add: upt_conv_Cons del: upt_Suc)
  assume "search prog (match_env prog s eo efl) [nat so..<Suc (nat eo)] = Some (Some (a, t))" "best_end t \<ge> 0"
  then show "\<exists>ms'. regexec (Some prog) (Some s) (Some (m # ms)) efl = Some (0, Some ((int a, int (nat (best_end t))) # ms'))"
    using assms unfolding regexec_def by (simp add: cells fill_match_def del: upt_Suc list.size)
next
  assume "search prog (match_env prog s eo efl) [nat so..<Suc (nat eo)] = Some None"
  then show "regexec (Some prog) (Some s) (Some (m # ms)) efl = Some (REG_NOMATCH, Some (m # ms))"
    using assms by (simp add: regexec_def del: upt_Suc)
qed

section \<open>Examples\<close>

definition sample_program :: program where
  "sample_program =
     \<lparr>prog_top = [OP_REP 0 1 [OP_GROUP 1 [OP_ALT [[OP_CHAR 97], [OP_CHAR 97, OP_CHAR 98]]]], OP_CHAR 98],
      prog_ngroup = 1, prog_cflags = REG_EXTENDED\<rparr>"

lemma sample_compiles: "regcomp 100 True (Some ''(a|ab)?b'') REG_EXTENDED = Some (Inr sample_program)"
  by code_simp

text \<open>The longer alternative wins although it comes second.\<close>

lemma sample_exec:
  "regexec (Some sample_program) (Some ''xabbc'') (Some [(0, 0), (0, 0)]) 0 = Some (0, Some [(1, 4), (1, 3)])"
  by code_simp

lemma sample_in_limit: "list_all (in_limit sample_program (match_env sample_program ''xabbc'' 5 0)) [0..<6]"
  by code_simp

text \<open>Two iterations of a body that can be empty: the empty string is in the language, and is not matched.\<close>

lemma empty_iterations_lost:
  assumes "prog = \<lparr>prog_top = [OP_REP 2 2 [OP_GROUP 1 [OP_REP 0 (-1) [OP_CHAR 97]]]], prog_ngroup = 1, prog_cflags = REG_EXTENDED\<rparr>"
  shows "regcomp 100 True (Some ''(a*){2}'') REG_EXTENDED = Some (Inr prog)"
    and "regexec (Some prog) (Some []) None 0 = Some (REG_NOMATCH, None)"
    and "(0, 0) \<in> spans prog e"
proof -
  show "regcomp 100 True (Some ''(a*){2}'') REG_EXTENDED = Some (Inr prog)"
    unfolding assms by code_simp
  show "regexec (Some prog) (Some []) None 0 = Some (REG_NOMATCH, None)"
    unfolding assms by code_simp
  have none: "(0, 0) \<in> iterate 0 (-1) X" for X
    unfolding iterate_def by (auto intro: exI [of _ 0])
  have two: "(0, 0) \<in> iterate 2 2 X" if "(0, 0) \<in> X" for X
    unfolding iterate_def using that by (auto simp: numeral_2_eq_2 intro!: exI [of _ 2])
  show "(0, 0) \<in> spans prog e"
    by (simp add: assms) (rule two [OF none])
qed

end
