(* ===== verification/Cact_Thread_Local.thy ===== *)
theory Cact_Thread_Local
  imports Cact_Prelude
begin

text \<open>
  \<open>src/thread_local.c\<close>: the table from stack ranges to per-thread blocks behind \<open>errno\<close>.  The
  block pointers and the stack pointer are addresses; the running thread is known by its stack
  pointer alone.  \<open>tls_hint\<close> is only a hint: the lemmas show that no value of it changes the answer.
\<close>

section \<open>The table\<close>

definition CACT_TLS_MAX_THREADS :: nat where "CACT_TLS_MAX_THREADS = 128"

record tls_slot =
  lo :: nat
  hi :: nat
  blk :: nat

record thread_table =
  slots :: "tls_slot list"
  tls_hint :: int
  leader_blk :: nat

definition thread_table_init :: "nat \<Rightarrow> thread_table" where
  "thread_table_init leader =
     \<lparr>slots = replicate CACT_TLS_MAX_THREADS \<lparr>lo = 0, hi = 0, blk = 0\<rparr>, tls_hint = -1, leader_blk = leader\<rparr>"

text \<open>The first index from \<open>i\<close> on whose slot satisfies a test: the scanning loops of the file.\<close>

fun scan :: "(tls_slot \<Rightarrow> bool) \<Rightarrow> tls_slot list \<Rightarrow> nat \<Rightarrow> nat option" where
  "scan P [] i = None"
| "scan P (x # xs) i = (if P x then Some i else scan P xs (Suc i))"

definition cact_tlocal_register :: "nat \<Rightarrow> nat \<Rightarrow> nat \<Rightarrow> thread_table \<Rightarrow> thread_table \<times> int" where
  "cact_tlocal_register stack_base stack_size b s =
     (if b = 0 \<or> stack_base = 0 \<or> stack_size = 0 then (s, -1)
      else case scan (\<lambda>x. blk x = 0) (slots s) 0 of
        None \<Rightarrow> (s, -1)
      | Some i \<Rightarrow>
          (s\<lparr>slots := (slots s)[i := \<lparr>lo = stack_base, hi = add32 stack_base stack_size, blk = b\<rparr>]\<rparr>, int i))"

definition cact_tlocal_unregister :: "nat \<Rightarrow> thread_table \<Rightarrow> thread_table" where
  "cact_tlocal_unregister b s =
     (if b = 0 then s
      else case scan (\<lambda>x. blk x = b) (slots s) 0 of
        None \<Rightarrow> s
      | Some i \<Rightarrow>
          s\<lparr>slots := (slots s)[i := \<lparr>lo = 0, hi = 0, blk = 0\<rparr>],
            tls_hint := (if tls_hint s = int i then -1 else tls_hint s)\<rparr>)"

definition owns :: "nat \<Rightarrow> tls_slot \<Rightarrow> bool" where
  "owns sp x \<longleftrightarrow> blk x \<noteq> 0 \<and> lo x \<le> sp \<and> sp < hi x"

definition cact_tlocal_self :: "nat \<Rightarrow> thread_table \<Rightarrow> thread_table \<times> nat" where
  "cact_tlocal_self sp s =
     (let h = tls_hint s
      in if 0 \<le> h \<and> h < int CACT_TLS_MAX_THREADS \<and> owns sp (slots s ! nat h)
         then (s, blk (slots s ! nat h))
         else case scan (owns sp) (slots s) 0 of
           Some i \<Rightarrow> (s\<lparr>tls_hint := int i\<rparr>, blk (slots s ! i))
         | None \<Rightarrow> (s, leader_blk s))"

text \<open>\<open>errno_val\<close> is the first field of the block.\<close>

definition errno_location :: "nat \<Rightarrow> thread_table \<Rightarrow> thread_table \<times> nat" where
  "errno_location sp s = cact_tlocal_self sp s"

section \<open>Lemmas\<close>

lemma scan_Some:
  "scan P xs k = Some i \<Longrightarrow> k \<le> i \<and> i - k < length xs \<and> P (xs ! (i - k)) \<and> (\<forall>j < i - k. \<not> P (xs ! j))"
proof (induction P xs k rule: scan.induct)
  case (2 P x xs i')
  show ?case
  proof (cases "P x")
    case False
    then have *: "Suc i' \<le> i \<and> i - Suc i' < length xs \<and> P (xs ! (i - Suc i')) \<and>
        (\<forall>j < i - Suc i'. \<not> P (xs ! j))" using 2 by simp
    then obtain d where "i = Suc (i' + d)" by (metis add_Suc le_Suc_ex)
    then show ?thesis using * False by (auto simp: less_Suc_eq_0_disj)
  qed (use 2 in auto)
qed simp

lemma scan_None: "scan P xs k = None \<longleftrightarrow> (\<forall>x \<in> set xs. \<not> P x)"
  by (induction P xs k rule: scan.induct) auto

text \<open>The invariant: a full table, and two used slots have different blocks and disjoint ranges.\<close>

definition separate :: "tls_slot \<Rightarrow> tls_slot \<Rightarrow> bool" where
  "separate x y \<longleftrightarrow> blk x = 0 \<or> blk y = 0 \<or> blk x \<noteq> blk y \<and> {lo x..<hi x} \<inter> {lo y..<hi y} = {}"

definition all_separate :: "tls_slot list \<Rightarrow> bool" where
  "all_separate xs \<longleftrightarrow> (\<forall>i < length xs. \<forall>j < length xs. i \<noteq> j \<longrightarrow> separate (xs ! i) (xs ! j))"

definition table_inv :: "thread_table \<Rightarrow> bool" where
  "table_inv s \<longleftrightarrow> length (slots s) = CACT_TLS_MAX_THREADS \<and> all_separate (slots s)"

lemma separate_commute: "separate x y \<longleftrightarrow> separate y x"
  unfolding separate_def by (metis Int_commute)

lemma all_separate_update:
  assumes "all_separate xs" "\<And>y. y \<in> set xs \<Longrightarrow> separate x y"
  shows "all_separate (xs[i := x])"
  unfolding all_separate_def length_list_update
proof (intro allI impI)
  fix j k
  assume *: "j < length xs" "k < length xs" "j \<noteq> k"
  then have "separate x (xs ! j)" "separate x (xs ! k)" "separate (xs ! j) (xs ! k)"
    using assms by (simp_all add: all_separate_def)
  moreover have "separate (xs ! j) x" using * assms(2) separate_commute nth_mem by metis
  ultimately show "separate (xs[i := x] ! j) (xs[i := x] ! k)"
    using * by (cases "i = j"; cases "i = k") simp_all
qed

text \<open>What the table means: the ranges registered, each with its block.\<close>

definition ranges :: "thread_table \<Rightarrow> (nat \<times> nat \<times> nat) set" where
  "ranges s = {(lo x, hi x, blk x) |x. x \<in> set (slots s) \<and> blk x \<noteq> 0}"

lemma owns_unique:
  "table_inv s \<Longrightarrow> i < length (slots s) \<Longrightarrow> j < length (slots s) \<Longrightarrow>
   owns sp (slots s ! i) \<Longrightarrow> owns sp (slots s ! j) \<Longrightarrow> i = j"
  unfolding table_inv_def all_separate_def separate_def owns_def by (metis IntI atLeastLessThan_iff empty_iff)

lemma table_inv_init: "table_inv (thread_table_init l)"
  by (simp add: table_inv_def all_separate_def separate_def thread_table_init_def)

lemma self_owner:
  assumes inv: "table_inv s" and r: "(a, b, p) \<in> ranges s" and sp: "a \<le> sp" "sp < b"
  shows "snd (cact_tlocal_self sp s) = p"
proof -
  obtain x where x: "x \<in> set (slots s)" "blk x \<noteq> 0" "(a, b, p) = (lo x, hi x, blk x)"
    using r by (auto simp: ranges_def)
  then obtain k where k: "k < length (slots s)" "slots s ! k = x" by (auto simp: in_set_conv_nth)
  then have o: "owns sp (slots s ! k)" using x sp by (simp add: owns_def)
  have full: "length (slots s) = CACT_TLS_MAX_THREADS" using inv by (simp add: table_inv_def)
  have one: "owns sp (slots s ! i) \<Longrightarrow> i < length (slots s) \<Longrightarrow> i = k" for i
    using owns_unique [OF inv] k(1) o by blast
  obtain i where i: "scan (owns sp) (slots s) 0 = Some i"
    using o k(1) scan_None [of "owns sp" "slots s" 0] by (metis nth_mem option.exhaust)
  then have "i = k" using scan_Some [OF i] one by auto
  then show ?thesis
    using i one full k(2) x(3) by (auto simp: cact_tlocal_self_def Let_def)
qed

lemma self_leader:
  assumes inv: "table_inv s" and no: "\<And>a b p. (a, b, p) \<in> ranges s \<Longrightarrow> sp < a \<or> b \<le> sp"
  shows "cact_tlocal_self sp s = (s, leader_blk s)"
proof -
  have full: "length (slots s) = CACT_TLS_MAX_THREADS" using inv by (simp add: table_inv_def)
  have "\<not> owns sp x" if "x \<in> set (slots s)" for x
    using no [of "lo x" "hi x" "blk x"] that by (fastforce simp: owns_def ranges_def)
  then show ?thesis
    using full by (auto simp: cact_tlocal_self_def Let_def scan_None [THEN iffD2] nat_less_iff)
qed

lemma self_inv: "table_inv s \<Longrightarrow> table_inv (fst (cact_tlocal_self sp s)) \<and>
    ranges (fst (cact_tlocal_self sp s)) = ranges s"
  by (auto simp: cact_tlocal_self_def Let_def table_inv_def ranges_def split: option.split)

lemma register_spec:
  assumes inv: "table_inv s" and args: "b \<noteq> 0" "base \<noteq> 0" "len \<noteq> 0" "base + len < 2 ^ 32"
    and new: "\<And>l h p. (l, h, p) \<in> ranges s \<Longrightarrow> p \<noteq> b \<and> {l..<h} \<inter> {base..<base + len} = {}"
    and room: "card {i. i < CACT_TLS_MAX_THREADS \<and> blk (slots s ! i) \<noteq> 0} < CACT_TLS_MAX_THREADS"
  shows "table_inv (fst (cact_tlocal_register base len b s)) \<and> 0 \<le> snd (cact_tlocal_register base len b s) \<and>
    ranges (fst (cact_tlocal_register base len b s)) = insert (base, base + len, b) (ranges s)"
proof -
  have full: "length (slots s) = CACT_TLS_MAX_THREADS" using inv by (simp add: table_inv_def)
  have "\<exists>i < CACT_TLS_MAX_THREADS. blk (slots s ! i) = 0"
  proof (rule ccontr)
    assume "\<not> ?thesis"
    then have "{i. i < CACT_TLS_MAX_THREADS \<and> blk (slots s ! i) \<noteq> 0} = {..<CACT_TLS_MAX_THREADS}" by auto
    then show False using room by simp
  qed
  then have "scan (\<lambda>x. blk x = 0) (slots s) 0 \<noteq> None" using full scan_None [of "\<lambda>x. blk x = 0" "slots s" 0] nth_mem by metis
  then obtain i where i: "scan (\<lambda>x. blk x = 0) (slots s) 0 = Some i" by auto
  then have b: "i < length (slots s)" "blk (slots s ! i) = 0" using scan_Some [OF i] by auto
  define x where "x = \<lparr>lo = base, hi = base + len, blk = b\<rparr>"
  have reg: "cact_tlocal_register base len b s = (s\<lparr>slots := (slots s)[i := x]\<rparr>, int i)"
    using i args by (simp add: cact_tlocal_register_def add32_id x_def)
  have "separate x y" if "y \<in> set (slots s)" for y
    using new [of "lo y" "hi y" "blk y"] that unfolding ranges_def separate_def x_def by fastforce
  then have "table_inv (s\<lparr>slots := (slots s)[i := x]\<rparr>)"
    using inv by (simp add: table_inv_def all_separate_update)
  moreover have "ranges (s\<lparr>slots := (slots s)[i := x]\<rparr>) = insert (base, base + len, b) (ranges s)"
    (is "?l = ?r")
  proof
    show "?l \<subseteq> ?r" using set_update_subset_insert [of "slots s" i x] by (auto simp: ranges_def x_def)
    have "y \<in> set ((slots s)[i := x])" if "y \<in> set (slots s)" "blk y \<noteq> 0" for y
      using that b by (metis in_set_conv_nth length_list_update nth_list_update_neq)
    moreover have "x \<in> set ((slots s)[i := x])" using b by (simp add: set_update_memI)
    moreover have "(base, base + len, b) = (lo x, hi x, blk x)" by (simp add: x_def)
    ultimately show "?r \<subseteq> ?l" using args(1) unfolding ranges_def by auto
  qed
  ultimately show ?thesis by (simp add: reg)
qed

lemma register_full:
  "(\<forall>x \<in> set (slots s). blk x \<noteq> 0) \<Longrightarrow> cact_tlocal_register base len b s = (s, -1)"
  by (simp add: cact_tlocal_register_def scan_None [THEN iffD2])

lemma unregister_spec:
  assumes inv: "table_inv s" and b: "b \<noteq> 0"
  shows "table_inv (cact_tlocal_unregister b s) \<and>
    ranges (cact_tlocal_unregister b s) = {(l, h, p) \<in> ranges s. p \<noteq> b}"
proof (cases "scan (\<lambda>x. blk x = b) (slots s) 0")
  case None
  moreover have "\<forall>x \<in> set (slots s). blk x \<noteq> b" using None by (simp add: scan_None)
  ultimately show ?thesis using inv b by (fastforce simp: cact_tlocal_unregister_def ranges_def)
next
  case (Some i)
  define e :: tls_slot where "e = \<lparr>lo = 0, hi = 0, blk = 0\<rparr>"
  define s' where "s' = s\<lparr>slots := (slots s)[i := e]\<rparr>"
  have i: "i < length (slots s)" "blk (slots s ! i) = b" using scan_Some [OF Some] by auto
  have full: "length (slots s) = CACT_TLS_MAX_THREADS" using inv by (simp add: table_inv_def)
  have "table_inv s'"
    using inv by (simp add: table_inv_def s'_def e_def all_separate_update separate_def)
  moreover have "ranges s' = {(l, h, p) \<in> ranges s. p \<noteq> b}"
  proof -
    have other: "blk (slots s ! j) \<noteq> b" if "j < length (slots s)" "j \<noteq> i" for j
      using inv i b that unfolding table_inv_def all_separate_def separate_def by metis
    have "x \<in> set (slots s') \<and> blk x \<noteq> 0 \<longleftrightarrow> x \<in> set (slots s) \<and> blk x \<noteq> 0 \<and> blk x \<noteq> b" for x
      using other i by (auto simp: s'_def e_def in_set_conv_nth nth_list_update) metis
    then show ?thesis unfolding ranges_def by auto
  qed
  moreover have "cact_tlocal_unregister b s = s'\<lparr>tls_hint := (if tls_hint s = int i then -1 else tls_hint s)\<rparr>"
    using Some b by (simp add: cact_tlocal_unregister_def s'_def e_def)
  ultimately show ?thesis by (simp add: table_inv_def ranges_def)
qed

end
