(* ===== verification/Cact_Pthread.thy ===== *)
theory Cact_Pthread
  imports Cact_Errno Cact_Tls Cact_Thread_Local
begin

text \<open>
  \<open>src/pthread.c\<close> and the calls of \<open>src/semaphore.c\<close> as one thread sees them: what each call does to the objects and
  what it returns, on every branch.  A call that would sleep in the kernel returns \<open>Blocked\<close> with
  the object as it leaves it; the interleaving of several threads in these calls is in
  \<open>Cact_Mutex\<close>.  The tid of the caller (\<open>self_tid\<close>, answered by the kernel) is the
  argument \<open>me\<close>, a null pointer is \<open>None\<close>.
\<close>

section \<open>Mutexes\<close>

record pthread_mutex_t =
  mstate :: int
  mtype :: int
  mcount :: int
  mowner :: int

definition PTHREAD_MUTEX_NORMAL :: int where "PTHREAD_MUTEX_NORMAL = 0"
definition PTHREAD_MUTEX_RECURSIVE :: int where "PTHREAD_MUTEX_RECURSIVE = 1"
definition PTHREAD_MUTEX_ERRORCHECK :: int where "PTHREAD_MUTEX_ERRORCHECK = 2"

definition PTHREAD_MUTEX_INITIALIZER :: pthread_mutex_t where
  "PTHREAD_MUTEX_INITIALIZER = \<lparr>mstate = 0, mtype = 0, mcount = 0, mowner = 0\<rparr>"

datatype 'a outcome = Returned 'a int | Blocked 'a

definition pthread_mutex_init :: "pthread_mutex_t option \<Rightarrow> pthread_mutex_t option \<times> int" where
  "pthread_mutex_init mo = (case mo of None \<Rightarrow> (None, EINVAL)
     | Some m \<Rightarrow> (Some (m\<lparr>mstate := 0, mtype := PTHREAD_MUTEX_NORMAL, mcount := 0, mowner := 0\<rparr>), 0))"

definition pthread_mutex_destroy :: "pthread_mutex_t option \<Rightarrow> int" where
  "pthread_mutex_destroy mo = (case mo of None \<Rightarrow> EINVAL | Some m \<Rightarrow> if mstate m \<noteq> 0 then EBUSY else 0)"

text \<open>One turn of the loop of \<open>mutex_lock_slow\<close>: the lock is taken as 2, or the word says that there
  is a waiter and the caller sleeps.\<close>

definition mutex_lock_slow :: "pthread_mutex_t \<Rightarrow> pthread_mutex_t outcome" where
  "mutex_lock_slow m = (if mstate m = 0 then Returned (m\<lparr>mstate := 2\<rparr>) 0
     else Blocked (m\<lparr>mstate := (if mstate m = 1 then 2 else mstate m)\<rparr>))"

definition take_ownership :: "nat \<Rightarrow> pthread_mutex_t \<Rightarrow> pthread_mutex_t" where
  "take_ownership me m =
     (if mtype m = PTHREAD_MUTEX_RECURSIVE then m\<lparr>mowner := s32 (int me), mcount := 1\<rparr> else m)"

definition pthread_mutex_lock :: "nat \<Rightarrow> pthread_mutex_t option \<Rightarrow> pthread_mutex_t option outcome" where
  "pthread_mutex_lock me mo = (case mo of None \<Rightarrow> Returned None EINVAL
     | Some m \<Rightarrow>
       if mtype m = PTHREAD_MUTEX_RECURSIVE \<and> mowner m = s32 (int me)
       then Returned (Some (m\<lparr>mcount := s32 (mcount m + 1)\<rparr>)) 0
       else if mstate m = 0 then Returned (Some (take_ownership me (m\<lparr>mstate := 1\<rparr>))) 0
       else if mtype m = PTHREAD_MUTEX_ERRORCHECK \<and> mowner m = s32 (int me) then Returned (Some m) EDEADLK
       else case mutex_lock_slow m of
         Returned m' r \<Rightarrow> Returned (Some (take_ownership me m')) r
       | Blocked m' \<Rightarrow> Blocked (Some m'))"

definition pthread_mutex_trylock :: "nat \<Rightarrow> pthread_mutex_t option \<Rightarrow> pthread_mutex_t option \<times> int" where
  "pthread_mutex_trylock me mo = (case mo of None \<Rightarrow> (None, EINVAL)
     | Some m \<Rightarrow>
       if mtype m = PTHREAD_MUTEX_RECURSIVE \<and> mowner m = s32 (int me)
       then (Some (m\<lparr>mcount := s32 (mcount m + 1)\<rparr>), 0)
       else if mstate m = 0 then (Some (take_ownership me (m\<lparr>mstate := 1\<rparr>)), 0)
       else (Some m, EBUSY))"

text \<open>The last component says whether the kernel is asked to wake a waiter.\<close>

definition pthread_mutex_unlock :: "nat \<Rightarrow> pthread_mutex_t option \<Rightarrow> pthread_mutex_t option \<times> int \<times> bool" where
  "pthread_mutex_unlock me mo = (case mo of None \<Rightarrow> (None, EINVAL, False)
     | Some m \<Rightarrow>
       if mtype m = PTHREAD_MUTEX_RECURSIVE \<and> mowner m \<noteq> s32 (int me) then (Some m, EPERM, False)
       else if mtype m = PTHREAD_MUTEX_RECURSIVE \<and> mcount m > 1
       then (Some (m\<lparr>mcount := mcount m - 1\<rparr>), 0, False)
       else let m1 = (if mtype m = PTHREAD_MUTEX_RECURSIVE then m\<lparr>mcount := 0, mowner := 0\<rparr> else m)
            in (Some (m1\<lparr>mstate := 0\<rparr>), 0, mstate m1 = 2))"

section \<open>Condition variables\<close>

record pthread_cond_t =
  cseq :: int

definition pthread_cond_init :: "pthread_cond_t option \<Rightarrow> pthread_cond_t option \<times> int" where
  "pthread_cond_init co = (case co of None \<Rightarrow> (None, EINVAL) | Some c \<Rightarrow> (Some (c\<lparr>cseq := 0\<rparr>), 0))"

definition pthread_cond_destroy :: "pthread_cond_t option \<Rightarrow> int" where
  "pthread_cond_destroy co = 0"

text \<open>\<open>cact_futex_wait\<close> is answered by the kernel: \<open>wait expected timeout\<close> is its return value, or
  \<open>None\<close> where it never returns.  The mutex is relocked in the state \<open>m'\<close> in which the other
  threads leave it.\<close>

definition pthread_cond_wait ::
  "(int \<Rightarrow> int \<Rightarrow> int option) \<Rightarrow> (pthread_mutex_t option \<Rightarrow> pthread_mutex_t option) \<Rightarrow> nat \<Rightarrow>
   pthread_cond_t option \<Rightarrow> pthread_mutex_t option \<Rightarrow> (pthread_mutex_t option outcome \<times> int) option" where
  "pthread_cond_wait wait others me co mo =
     (case co of None \<Rightarrow> Some (Returned mo EINVAL, EINVAL)
      | Some c \<Rightarrow>
        if mo = None then Some (Returned mo EINVAL, EINVAL)
        else let (m1, _, _) = pthread_mutex_unlock me mo
             in case wait (cseq c) (-1) of
                  None \<Rightarrow> None
                | Some r \<Rightarrow> Some (pthread_mutex_lock me (others m1), if r = - EINTR then EINTR else 0))"

definition deadline_ms :: "timespec \<Rightarrow> timespec \<Rightarrow> int" where
  "deadline_ms abstime now =
     s32 (s32 (s32 (tv_sec abstime - tv_sec now) * 1000) + s32 (tv_nsec abstime - tv_nsec now) sdiv 1000000)"

definition pthread_cond_timedwait ::
  "(int \<Rightarrow> int \<Rightarrow> int option) \<Rightarrow> (pthread_mutex_t option \<Rightarrow> pthread_mutex_t option) \<Rightarrow> nat \<Rightarrow> timespec \<Rightarrow>
   pthread_cond_t option \<Rightarrow> pthread_mutex_t option \<Rightarrow> timespec option \<Rightarrow>
   (pthread_mutex_t option outcome \<times> int) option" where
  "pthread_cond_timedwait wait others me now co mo abstime =
     (case (co, mo, abstime) of
        (Some c, Some m, Some t) \<Rightarrow>
          let ms = deadline_ms t now;
              timeout = (if ms \<le> 0 then 0 else ms);
              (m1, _, _) = pthread_mutex_unlock me mo
          in (case wait (cseq c) timeout of
                None \<Rightarrow> None
              | Some r \<Rightarrow> Some (pthread_mutex_lock me (others m1),
                  if r = - ETIMEDOUT \<or> timeout = 0 \<and> r = - EAGAIN then ETIMEDOUT else 0))
      | _ \<Rightarrow> Some (Returned mo EINVAL, EINVAL))"

text \<open>The number is how many waiters the kernel is asked to wake.\<close>

definition pthread_cond_signal :: "pthread_cond_t option \<Rightarrow> pthread_cond_t option \<times> int \<times> nat" where
  "pthread_cond_signal co = (case co of None \<Rightarrow> (None, EINVAL, 0)
     | Some c \<Rightarrow> (Some (c\<lparr>cseq := s32 (cseq c + 1)\<rparr>), 0, 1))"

definition pthread_cond_broadcast :: "pthread_cond_t option \<Rightarrow> pthread_cond_t option \<times> int \<times> nat" where
  "pthread_cond_broadcast co = (case co of None \<Rightarrow> (None, EINVAL, 0)
     | Some c \<Rightarrow> (Some (c\<lparr>cseq := s32 (cseq c + 1)\<rparr>), 0, 0x7fffffff))"

section \<open>Semaphores\<close>

record sem_t =
  scount :: int
  pshared :: int

text \<open>The results are the semaphore, the return value and \<open>errno\<close> where it is set.\<close>

definition sem_try_decr :: "sem_t \<Rightarrow> sem_t \<times> int" where
  "sem_try_decr s = (if scount s > 0 then (s\<lparr>scount := scount s - 1\<rparr>, 0) else (s, -1))"

definition sem_init :: "sem_t option \<Rightarrow> int \<Rightarrow> nat \<Rightarrow> sem_t option \<times> int \<times> int option" where
  "sem_init so sh v = (case so of None \<Rightarrow> (None, -1, Some EINVAL)
     | Some s \<Rightarrow> (Some (s\<lparr>scount := s32 (int v), pshared := (if sh \<noteq> 0 then 1 else 0)\<rparr>), 0, None))"

definition sem_destroy :: "sem_t option \<Rightarrow> int \<times> int option" where
  "sem_destroy so = (case so of None \<Rightarrow> (-1, Some EINVAL) | Some s \<Rightarrow> (0, None))"

definition sem_trywait :: "sem_t option \<Rightarrow> sem_t option \<times> int \<times> int option" where
  "sem_trywait so = (case so of None \<Rightarrow> (None, -1, Some EINVAL)
     | Some s \<Rightarrow> let (s', r) = sem_try_decr s in
         if r = 0 then (Some s', 0, None) else (Some s', -1, Some EAGAIN))"

definition sem_post :: "sem_t option \<Rightarrow> sem_t option \<times> int \<times> int option" where
  "sem_post so = (case so of None \<Rightarrow> (None, -1, Some EINVAL)
     | Some s \<Rightarrow> (Some (s\<lparr>scount := s32 (scount s + 1)\<rparr>), 0, None))"

definition sem_getvalue :: "sem_t option \<Rightarrow> bool \<Rightarrow> int option \<times> int \<times> int option" where
  "sem_getvalue so has_sval = (case so of None \<Rightarrow> (None, -1, Some EINVAL)
     | Some s \<Rightarrow> if has_sval then (Some (scount s), 0, None) else (None, -1, Some EINVAL))"

text \<open>The loops of \<open>sem_wait\<close> and \<open>sem_timedwait\<close>: each sleep is one answer of the kernel, with the count
  the other threads leave (and, for the deadline, the time it is then).  \<open>None\<close>: still asleep when
  the answers are used up.\<close>

fun sem_wait :: "(int \<times> int) list \<Rightarrow> sem_t \<Rightarrow> (sem_t \<times> int \<times> int option) option" where
  "sem_wait as s =
     (let (s', d) = sem_try_decr s in
      if d = 0 then Some (s', 0, None)
      else case as of
        [] \<Rightarrow> None
      | (r, c) # rest \<Rightarrow>
          let s1 = s'\<lparr>scount := c\<rparr> in
          if r = - EINTR then Some (s1, -1, Some EINTR)
          else if r < 0 \<and> r \<noteq> - EAGAIN then Some (s1, -1, Some EINVAL)
          else sem_wait rest s1)"

fun sem_timedwait :: "(timespec \<times> int \<times> int) list \<Rightarrow> timespec \<Rightarrow> sem_t \<Rightarrow> (sem_t \<times> int \<times> int option) option" where
  "sem_timedwait as abstime s =
     (let (s', d) = sem_try_decr s in
      if d = 0 then Some (s', 0, None)
      else case as of
        [] \<Rightarrow> None
      | (now, r, c) # rest \<Rightarrow>
          if deadline_ms abstime now \<le> 0 then Some (s', -1, Some ETIMEDOUT)
          else let s1 = s'\<lparr>scount := c\<rparr> in
            if r = - ETIMEDOUT then Some (s1, -1, Some ETIMEDOUT)
            else if r = - EINTR then Some (s1, -1, Some EINTR)
            else if r < 0 \<and> r \<noteq> - EAGAIN then Some (s1, -1, Some EINVAL)
            else sem_timedwait rest abstime s1)"

declare sem_wait.simps [simp del] sem_timedwait.simps [simp del]

section \<open>Scheduling attributes\<close>

record pthread_attr_t =
  policy :: int
  inheritsched :: int
  sched_priority :: int

definition SCHED_OTHER :: int where "SCHED_OTHER = 0"
definition PTHREAD_INHERIT_SCHED :: int where "PTHREAD_INHERIT_SCHED = 0"
definition PTHREAD_EXPLICIT_SCHED :: int where "PTHREAD_EXPLICIT_SCHED = 1"
definition PTHREAD_SCOPE_SYSTEM :: int where "PTHREAD_SCOPE_SYSTEM = 0"

definition pthread_attr_init :: "pthread_attr_t option \<Rightarrow> pthread_attr_t option \<times> int" where
  "pthread_attr_init ao = (case ao of None \<Rightarrow> (None, EINVAL)
     | Some a \<Rightarrow> (Some (a\<lparr>policy := SCHED_OTHER, inheritsched := PTHREAD_INHERIT_SCHED, sched_priority := 0\<rparr>), 0))"

definition pthread_attr_destroy :: "pthread_attr_t option \<Rightarrow> int" where
  "pthread_attr_destroy ao = 0"

definition pthread_attr_setinheritsched :: "pthread_attr_t option \<Rightarrow> int \<Rightarrow> pthread_attr_t option \<times> int" where
  "pthread_attr_setinheritsched ao v = (case ao of None \<Rightarrow> (None, EINVAL)
     | Some a \<Rightarrow> if v \<noteq> PTHREAD_INHERIT_SCHED \<and> v \<noteq> PTHREAD_EXPLICIT_SCHED then (ao, EINVAL)
                else (Some (a\<lparr>inheritsched := v\<rparr>), 0))"

definition pthread_attr_setschedpolicy :: "pthread_attr_t option \<Rightarrow> int \<Rightarrow> pthread_attr_t option \<times> int" where
  "pthread_attr_setschedpolicy ao v = (case ao of None \<Rightarrow> (None, EINVAL)
     | Some a \<Rightarrow> (Some (a\<lparr>policy := v\<rparr>), 0))"

definition pthread_attr_setschedparam :: "pthread_attr_t option \<Rightarrow> int option \<Rightarrow> pthread_attr_t option \<times> int" where
  "pthread_attr_setschedparam ao po = (case (ao, po) of
     (Some a, Some v) \<Rightarrow> (Some (a\<lparr>sched_priority := v\<rparr>), 0) | _ \<Rightarrow> (ao, EINVAL))"

definition pthread_attr_setscope :: "pthread_attr_t option \<Rightarrow> int \<Rightarrow> int" where
  "pthread_attr_setscope ao scope = (case ao of None \<Rightarrow> EINVAL
     | Some a \<Rightarrow> if scope = PTHREAD_SCOPE_SYSTEM then 0 else EINVAL)"

text \<open>The four readers write the value through a pointer that may be null.\<close>

definition attr_get :: "(pthread_attr_t \<Rightarrow> int) \<Rightarrow> pthread_attr_t option \<Rightarrow> bool \<Rightarrow> int option \<times> int" where
  "attr_get f ao out = (case ao of None \<Rightarrow> (None, EINVAL)
     | Some a \<Rightarrow> if out then (Some (f a), 0) else (None, EINVAL))"

definition pthread_attr_getinheritsched :: "pthread_attr_t option \<Rightarrow> bool \<Rightarrow> int option \<times> int" where
  "pthread_attr_getinheritsched = attr_get inheritsched"

definition pthread_attr_getschedpolicy :: "pthread_attr_t option \<Rightarrow> bool \<Rightarrow> int option \<times> int" where
  "pthread_attr_getschedpolicy = attr_get policy"

definition pthread_attr_getschedparam :: "pthread_attr_t option \<Rightarrow> bool \<Rightarrow> int option \<times> int" where
  "pthread_attr_getschedparam = attr_get sched_priority"

definition pthread_attr_getscope :: "pthread_attr_t option \<Rightarrow> bool \<Rightarrow> int option \<times> int" where
  "pthread_attr_getscope = attr_get (\<lambda>_. PTHREAD_SCOPE_SYSTEM)"

section \<open>Lemmas\<close>

lemmas mutex_defs = pthread_mutex_lock_def pthread_mutex_trylock_def pthread_mutex_unlock_def
  take_ownership_def mutex_lock_slow_def PTHREAD_MUTEX_NORMAL_def PTHREAD_MUTEX_RECURSIVE_def
  PTHREAD_MUTEX_ERRORCHECK_def

text \<open>A recursive mutex as its owner holds it at depth \<open>n\<close>.\<close>

definition held_at :: "nat \<Rightarrow> nat \<Rightarrow> pthread_mutex_t" where
  "held_at me n = (if n = 0 then \<lparr>mstate = 0, mtype = PTHREAD_MUTEX_RECURSIVE, mcount = 0, mowner = 0\<rparr>
     else \<lparr>mstate = 1, mtype = PTHREAD_MUTEX_RECURSIVE, mcount = int n, mowner = int me\<rparr>)"

lemma recursive_lock:
  assumes "0 < me" "me < 2147483648" "n < 2147483647"
  shows "pthread_mutex_lock me (Some (held_at me n)) = Returned (Some (held_at me (Suc n))) 0"
    "pthread_mutex_trylock me (Some (held_at me n)) = (Some (held_at me (Suc n)), 0)"
    "pthread_mutex_unlock me (Some (held_at me (Suc n))) = (Some (held_at me n), 0, False)"
  using assms by (auto simp: mutex_defs held_at_def)

lemma recursive_stranger:
  assumes "0 < me" "me < 2147483648" "0 < other" "other < 2147483648" "me \<noteq> other" "0 < n"
  shows "pthread_mutex_lock other (Some (held_at me n)) = Blocked (Some (held_at me n\<lparr>mstate := 2\<rparr>))"
    "pthread_mutex_trylock other (Some (held_at me n)) = (Some (held_at me n), EBUSY)"
    "pthread_mutex_unlock other (Some (held_at me n)) = (Some (held_at me n), EPERM, False)"
  using assms by (auto simp: mutex_defs held_at_def)

text \<open>A run of lock and unlock calls of one thread.\<close>

datatype mutex_call = Lock | Unlock

fun mutex_run :: "nat \<Rightarrow> mutex_call list \<Rightarrow> pthread_mutex_t option \<Rightarrow> pthread_mutex_t option option" where
  "mutex_run me [] m = Some m"
| "mutex_run me (Lock # cs) m = (case pthread_mutex_lock me m of
     Returned m' r \<Rightarrow> if r = 0 then mutex_run me cs m' else None | Blocked m' \<Rightarrow> None)"
| "mutex_run me (Unlock # cs) m = (case pthread_mutex_unlock me m of
     (m', r, wake) \<Rightarrow> if r = 0 then mutex_run me cs m' else None)"

lemma mutex_run_append:
  "mutex_run me (xs @ ys) m = (case mutex_run me xs m of None \<Rightarrow> None | Some m' \<Rightarrow> mutex_run me ys m')"
  by (induction me xs m rule: mutex_run.induct) (auto split: outcome.splits prod.splits)

lemma mutex_run_locks:
  "0 < me \<Longrightarrow> me < 2147483648 \<Longrightarrow> n + k < 2147483648 \<Longrightarrow>
   mutex_run me (replicate k Lock) (Some (held_at me n)) = Some (Some (held_at me (n + k)))"
  by (induction k arbitrary: n) (simp_all add: recursive_lock)

lemma mutex_run_unlocks:
  "0 < me \<Longrightarrow> me < 2147483648 \<Longrightarrow> n + k < 2147483648 \<Longrightarrow>
   mutex_run me (replicate k Unlock) (Some (held_at me (n + k))) = Some (Some (held_at me n))"
  by (induction k) (simp_all add: recursive_lock)

text \<open>An error-checking mutex: no call of \<open>pthread_mutex_lock\<close> records the owner, so the thread that
  holds it blocks on itself.\<close>

lemma errorcheck_self_deadlock:
  assumes "mtype m = PTHREAD_MUTEX_ERRORCHECK" "mowner m = 0" "mstate m = 0" "0 < me" "me < 2147483648"
  shows "pthread_mutex_lock me (Some m) = Returned (Some (m\<lparr>mstate := 1\<rparr>)) 0 \<and>
    pthread_mutex_lock me (Some (m\<lparr>mstate := 1\<rparr>)) = Blocked (Some (m\<lparr>mstate := 2\<rparr>))"
  using assms by (auto simp: mutex_defs)

lemma deadline_past:
  assumes "tv_sec t \<le> tv_sec now" "tv_nsec t \<le> tv_nsec now" "tv_sec now - tv_sec t < 2000000"
    "0 \<le> tv_nsec t" "tv_nsec now < 1000000000"
  shows "deadline_ms t now \<le> 0"
proof -
  define d where "d = tv_sec now - tv_sec t"
  define e where "e = tv_nsec now - tv_nsec t"
  have "d \<ge> 0" "d < 2000000" "e \<ge> 0" "e < 1000000000" using assms by (auto simp: d_def e_def)
  moreover have "deadline_ms t now = s32 (s32 (s32 (- d) * 1000) + s32 (- e) sdiv 1000000)"
    by (simp add: deadline_ms_def d_def e_def)
  moreover have "- e sdiv 1000000 = - (e div 1000000)"
    using \<open>e \<ge> 0\<close> by (simp add: signed_divide_int_def sgn_if)
  moreover have "0 \<le> e div 1000000" "e div 1000000 \<le> 1000" using \<open>e \<ge> 0\<close> \<open>e < 1000000000\<close> by auto
  ultimately show ?thesis by simp
qed

text \<open>The semaphore's count as a call sequence sees it: the value stays in range and a wait that
  succeeds takes exactly one.\<close>

lemma sem_try_decr_count:
  "snd (sem_try_decr s) = 0 \<longleftrightarrow> 0 < scount s"
  "0 \<le> scount s \<Longrightarrow> 0 \<le> scount (fst (sem_try_decr s))"
  by (auto simp: sem_try_decr_def)

lemma sem_wait_now: "0 < scount s \<Longrightarrow> sem_wait as s = Some (s\<lparr>scount := scount s - 1\<rparr>, 0, None)"
  by (subst sem_wait.simps) (simp add: sem_try_decr_def)

lemma sem_wait_woken:
  assumes "scount s = 0" "\<forall>a \<in> set as. a = (- EAGAIN, 0) \<or> a = (0, 0)" "r = 0 \<or> r = - EAGAIN" "0 < c"
  shows "sem_wait (as @ (r, c) # bs) s = Some (s\<lparr>scount := c - 1\<rparr>, 0, None)"
  using assms(1,2)
proof (induction as arbitrary: s)
  case Nil
  then show ?case using assms(3,4) sem_wait_now [of "s\<lparr>scount := c\<rparr>" bs]
    by (subst sem_wait.simps) (auto simp: sem_try_decr_def errno_defs)
next
  case (Cons a as)
  have "sem_wait ((a # as) @ (r, c) # bs) s = sem_wait (as @ (r, c) # bs) (s\<lparr>scount := 0\<rparr>)"
    using Cons.prems by (subst sem_wait.simps) (auto simp: sem_try_decr_def errno_defs)
  then show ?case using Cons.IH [of "s\<lparr>scount := 0\<rparr>"] Cons.prems by simp
qed

lemma sem_timedwait_expired:
  "scount s \<le> 0 \<Longrightarrow> deadline_ms t now \<le> 0 \<Longrightarrow>
   sem_timedwait ((now, r, c) # as) t s = Some (s, -1, Some ETIMEDOUT)"
  by (subst sem_timedwait.simps) (simp add: sem_try_decr_def)

end
