(* ===== verification/Cact_Pthread_Registry.thy ===== *)
theory Cact_Pthread_Registry
  imports Cact_Pthread
begin

text \<open>
  The thread registry of \<open>src/pthread.c\<close>: descriptors, thread-specific data, creation, exit, join
  and detach.  The state holds the heap (inside the TLS state), the list of descriptors in the order
  of the links \<open>next\<close>, the key table, and the stack table of \<open>Cact_Thread_Local\<close>.  A descriptor is
  known by its address.  \<open>None\<close>: the calling thread waits for \<open>g_lock\<close> or in the allocator.
\<close>

unbundle bit_operations_syntax

section \<open>State\<close>

definition PTHREAD_KEYS_MAX :: nat where "PTHREAD_KEYS_MAX = 64"
definition PTHREAD_DESTRUCTOR_ITERATIONS :: nat where "PTHREAD_DESTRUCTOR_ITERATIONS = 4"
definition DEFAULT_STACK_SIZE :: nat where "DEFAULT_STACK_SIZE = 1048576"

text \<open>\<open>sizeof (cact_thread_t)\<close>, and where the fields \<open>id\<close>, \<open>clr\<close> and \<open>tls\<close> are in it.\<close>

definition THREAD_SIZE :: nat where "THREAD_SIZE = 436"
definition ID_AT :: nat where "ID_AT = 4"
definition CLR_AT :: nat where "CLR_AT = 8"
definition TLS_AT :: nat where "TLS_AT = 12"

record cact_thread =
  self :: nat
  tid :: nat
  clr :: nat
  detached :: bool
  has_result :: bool
  retval :: nat
  start :: nat
  arg :: nat
  stack :: nat
  stack_size :: nat
  keys :: "nat list"

definition blank_thread :: "nat \<Rightarrow> cact_thread" where
  "blank_thread p = \<lparr>self = p, tid = 0, clr = 0, detached = False, has_result = False, retval = 0,
     start = 0, arg = 0, stack = 0, stack_size = 0, keys = replicate PTHREAD_KEYS_MAX 0\<rparr>"

record 'k pthreads =
  tls :: "'k tls_state"
  g_lock :: pthread_mutex_t
  g_threads :: "cact_thread list"
  g_key_used :: "bool list"
  g_key_destructors :: "nat list"
  table :: thread_table
  pid_cache :: nat

abbreviation heap_of :: "'k pthreads \<Rightarrow> 'k heap" where
  "heap_of s \<equiv> heap (tls s)"

definition with_heap :: "'k heap \<Rightarrow> 'k pthreads \<Rightarrow> 'k pthreads" where
  "with_heap h s = s\<lparr>tls := (tls s)\<lparr>heap := h\<rparr>\<rparr>"

section \<open>The registry\<close>

definition g_acquire :: "nat \<Rightarrow> 'k pthreads \<Rightarrow> 'k pthreads option" where
  "g_acquire me s = (case pthread_mutex_lock me (Some (g_lock s)) of
     Returned (Some m) r \<Rightarrow> Some (s\<lparr>g_lock := m\<rparr>) | _ \<Rightarrow> None)"

definition g_release :: "nat \<Rightarrow> 'k pthreads \<Rightarrow> 'k pthreads" where
  "g_release me s = (case pthread_mutex_unlock me (Some (g_lock s)) of
     (Some m, r, wake) \<Rightarrow> s\<lparr>g_lock := m\<rparr> | _ \<Rightarrow> s)"

definition find_by_id_locked :: "nat \<Rightarrow> 'k pthreads \<Rightarrow> cact_thread option" where
  "find_by_id_locked i s = find (\<lambda>t. tid t = i) (g_threads s)"

definition thread_self_desc :: "'k kernel \<Rightarrow> nat \<Rightarrow> 'k pthreads \<Rightarrow> ('k pthreads \<times> nat) option" where
  "thread_self_desc K me s = do {
     s1 \<leftarrow> g_acquire me s;
     case find_by_id_locked me s1 of
       Some t \<Rightarrow> Some (g_release me s1, self t)
     | None \<Rightarrow> do {
         (h, p) \<leftarrow> calloc K 1 THREAD_SIZE (heap_of s1);
         let s2 = with_heap h s1;
         let s3 = (if p \<noteq> 0 then s2\<lparr>g_threads := (blank_thread p)\<lparr>tid := me, clr := me\<rparr> # g_threads s2\<rparr> else s2);
         Some (g_release me s3, p)
       }
   }"

definition update_thread :: "nat \<Rightarrow> (cact_thread \<Rightarrow> cact_thread) \<Rightarrow> 'k pthreads \<Rightarrow> 'k pthreads" where
  "update_thread p f s = s\<lparr>g_threads := map (\<lambda>t. if self t = p then f t else t) (g_threads s)\<rparr>"

text \<open>The unlinking loop: the first descriptor with the address is taken out.\<close>

fun unlink_thread :: "nat \<Rightarrow> cact_thread list \<Rightarrow> cact_thread list" where
  "unlink_thread p [] = []"
| "unlink_thread p (t # ts) = (if self t = p then ts else t # unlink_thread p ts)"

section \<open>Thread-specific data\<close>

fun first_unused :: "bool list \<Rightarrow> nat \<Rightarrow> nat option" where
  "first_unused [] i = None"
| "first_unused (u # us) i = (if u then first_unused us (Suc i) else Some i)"

definition pthread_key_create :: "nat \<Rightarrow> bool \<Rightarrow> nat \<Rightarrow> 'k pthreads \<Rightarrow> ('k pthreads \<times> int \<times> nat option) option" where
  "pthread_key_create me has_key destructor s =
     (if \<not> has_key then Some (s, EINVAL, None)
      else do {
        s1 \<leftarrow> g_acquire me s;
        case first_unused (g_key_used s1) 0 of
          Some i \<Rightarrow> Some (g_release me (s1\<lparr>g_key_used := (g_key_used s1)[i := True],
                         g_key_destructors := (g_key_destructors s1)[i := destructor]\<rparr>), 0, Some i)
        | None \<Rightarrow> Some (g_release me s1, EAGAIN, None)
      })"

definition pthread_key_delete :: "nat \<Rightarrow> nat \<Rightarrow> 'k pthreads \<Rightarrow> ('k pthreads \<times> int) option" where
  "pthread_key_delete me key s =
     (if PTHREAD_KEYS_MAX \<le> key then Some (s, EINVAL)
      else do {
        s1 \<leftarrow> g_acquire me s;
        if \<not> g_key_used s1 ! key then Some (g_release me s1, EINVAL)
        else Some (g_release me (s1\<lparr>g_key_used := (g_key_used s1)[key := False],
               g_key_destructors := (g_key_destructors s1)[key := 0]\<rparr>), 0)
      })"

definition pthread_getspecific :: "'k kernel \<Rightarrow> nat \<Rightarrow> nat \<Rightarrow> 'k pthreads \<Rightarrow> ('k pthreads \<times> nat) option" where
  "pthread_getspecific K me key s =
     (if PTHREAD_KEYS_MAX \<le> key then Some (s, 0)
      else do {
        (s1, p) \<leftarrow> thread_self_desc K me s;
        case find (\<lambda>t. self t = p) (g_threads s1) of
          Some t \<Rightarrow> Some (s1, if p = 0 then 0 else keys t ! key)
        | None \<Rightarrow> Some (s1, 0)
      })"

definition pthread_setspecific :: "'k kernel \<Rightarrow> nat \<Rightarrow> nat \<Rightarrow> nat \<Rightarrow> 'k pthreads \<Rightarrow> ('k pthreads \<times> int) option" where
  "pthread_setspecific K me key v s =
     (if PTHREAD_KEYS_MAX \<le> key then Some (s, EINVAL)
      else if \<not> g_key_used s ! key then Some (s, EINVAL)
      else do {
        (s1, p) \<leftarrow> thread_self_desc K me s;
        if p = 0 then Some (s1, ENOMEM)
        else Some (update_thread p (\<lambda>t. t\<lparr>keys := (keys t)[key := v]\<rparr>) s1, 0)
      })"

section \<open>Identity and scheduling of a running thread\<close>

definition pthread_self :: "nat \<Rightarrow> nat" where
  "pthread_self me = me"

definition pthread_equal :: "nat \<Rightarrow> nat \<Rightarrow> bool" where
  "pthread_equal a b \<longleftrightarrow> a = b"

definition thread_known :: "nat \<Rightarrow> nat \<Rightarrow> 'k pthreads \<Rightarrow> ('k pthreads \<times> bool) option" where
  "thread_known me t s =
     (if t = 0 \<or> t = me then Some (s, True)
      else do {
        s1 \<leftarrow> g_acquire me s;
        Some (g_release me s1, find_by_id_locked t s1 \<noteq> None)
      })"

definition pthread_setschedparam :: "nat \<Rightarrow> nat \<Rightarrow> int \<Rightarrow> int option \<Rightarrow> 'k pthreads \<Rightarrow> ('k pthreads \<times> int) option" where
  "pthread_setschedparam me t pol param s =
     (if pol \<noteq> SCHED_OTHER then Some (s, EINVAL)
      else if param \<noteq> Some 0 then Some (s, EINVAL)
      else do { (s1, known) \<leftarrow> thread_known me t s; Some (s1, if known then 0 else ESRCH) })"

definition pthread_getschedparam ::
  "nat \<Rightarrow> nat \<Rightarrow> bool \<Rightarrow> bool \<Rightarrow> 'k pthreads \<Rightarrow> ('k pthreads \<times> int \<times> (int \<times> int) option) option" where
  "pthread_getschedparam me t has_policy has_param s =
     (if \<not> has_policy \<or> \<not> has_param then Some (s, EINVAL, None)
      else do {
        (s1, known) \<leftarrow> thread_known me t s;
        if known then Some (s1, 0, Some (SCHED_OTHER, 0)) else Some (s1, ESRCH, None)
      })"

definition pthread_setschedprio :: "nat \<Rightarrow> nat \<Rightarrow> int \<Rightarrow> 'k pthreads \<Rightarrow> ('k pthreads \<times> int) option" where
  "pthread_setschedprio me t prio s =
     (if prio \<noteq> 0 then Some (s, EINVAL)
      else do { (s1, known) \<leftarrow> thread_known me t s; Some (s1, if known then 0 else ESRCH) })"

section \<open>Creation, exit, join\<close>

record thread_create_arg =
  entry :: nat
  user_esp :: nat
  gs_base :: nat
  set_child_tid :: nat
  clear_child_tid :: nat

definition pid_init :: "nat \<Rightarrow> 'k pthreads \<Rightarrow> 'k pthreads" where
  "pid_init me s = (if pid_cache s = 0 then s\<lparr>pid_cache := me\<rparr> else s)"

text \<open>The first frame of a new stack: the argument and, below it, the return address.\<close>

definition first_frame :: "nat \<Rightarrow> nat \<Rightarrow> nat \<Rightarrow> mem \<Rightarrow> mem \<times> nat" where
  "first_frame stk stub a m =
     (let top = add32 stk DEFAULT_STACK_SIZE AND 0xFFFFFFF0
      in (store (store m (sub32 top 4) (le32 a)) (sub32 top 8) (le32 stub), sub32 top 8))"

definition refuses :: "pthread_attr_t option \<Rightarrow> bool" where
  "refuses attr = (case attr of None \<Rightarrow> False
     | Some a \<Rightarrow> inheritsched a = PTHREAD_EXPLICIT_SCHED \<and> (policy a \<noteq> SCHED_OTHER \<or> sched_priority a \<noteq> 0))"

text \<open>\<open>pthread_create\<close> in three parts.  \<open>thread_prepare\<close>: the stack, the descriptor, the TLS block and the
  registration, up to the request to the kernel; \<open>stub\<close> is the address of \<open>__cact_thread_exit_stub\<close>.
  Without stack or descriptor the second component is \<open>None\<close>.\<close>

definition thread_prepare ::
  "'k kernel \<Rightarrow> nat \<Rightarrow> nat \<Rightarrow> nat \<Rightarrow> nat \<Rightarrow> 'k pthreads \<Rightarrow> ('k pthreads \<times> (nat \<times> nat \<times> thread_create_arg) option) option" where
  "thread_prepare K stub me start_routine a s =
     (let (k1, stk) = sys_mmap K (kern (heap_of s)) DEFAULT_STACK_SIZE;
          s2 = with_heap ((heap_of s)\<lparr>kern := k1\<rparr>) s
      in if stk = UINTPTR_MAX then Some (s2, None)
         else do {
           (h3, p) \<leftarrow> calloc K 1 THREAD_SIZE (heap_of s2);
           if p = 0 then Some (with_heap (h3\<lparr>kern := sys_munmap K (kern h3) stk DEFAULT_STACK_SIZE\<rparr>) s2, None)
           else do {
             let td = (blank_thread p)\<lparr>start := start_routine, arg := a, stack := stk, stack_size := DEFAULT_STACK_SIZE\<rparr>;
             let (m4, sp) = first_frame stk stub a (dat h3);
             (t5, gs) \<leftarrow> cact_tls_block_new K ((tls s2)\<lparr>heap := h3\<lparr>dat := m4\<rparr>\<rparr>);
             let s6 = s2\<lparr>tls := t5, table := fst (cact_tlocal_register stk DEFAULT_STACK_SIZE (p + TLS_AT) (table s2))\<rparr>;
             s7 \<leftarrow> g_acquire me s6;
             Some (g_release me (s7\<lparr>g_threads := td # g_threads s7\<rparr>),
                   Some (p, stk, \<lparr>entry = start_routine, user_esp = sp, gs_base = gs,
                           set_child_tid = p + ID_AT, clear_child_tid = p + CLR_AT\<rparr>))
           }
         })"

text \<open>\<open>create\<close> is the kernel's \<open>CACT_PROCCTL_THREAD_CREATE\<close>: it answers with the tid, which it has also
  written to \<open>id\<close> and \<open>clr\<close>, or with a number that is not positive.\<close>

definition thread_launch ::
  "'k kernel \<Rightarrow> (thread_create_arg \<Rightarrow> 'k \<Rightarrow> 'k \<times> int) \<Rightarrow> nat \<Rightarrow> nat \<Rightarrow> nat \<Rightarrow> thread_create_arg \<Rightarrow> 'k pthreads \<Rightarrow>
   ('k pthreads \<times> int \<times> nat option) option" where
  "thread_launch K create me p stk ca s =
     (let (k1, t) = create ca (kern (heap_of s));
          s1 = with_heap ((heap_of s)\<lparr>kern := k1\<rparr>) s
      in if t \<le> 0 then do {
           s2 \<leftarrow> g_acquire me (s1\<lparr>table := cact_tlocal_unregister (p + TLS_AT) (table s1)\<rparr>);
           let s3 = g_release me (s2\<lparr>g_threads := unlink_thread p (g_threads s2)\<rparr>);
           h4 \<leftarrow> free K p ((heap_of s3)\<lparr>kern := sys_munmap K (kern (heap_of s3)) stk DEFAULT_STACK_SIZE\<rparr>);
           Some (with_heap h4 s3, EAGAIN, None)
         }
         else Some (update_thread p (\<lambda>x. x\<lparr>tid := nat t, clr := nat t\<rparr>) s1, 0, Some (nat t)))"

definition pthread_create ::
  "'k kernel \<Rightarrow> (thread_create_arg \<Rightarrow> 'k \<Rightarrow> 'k \<times> int) \<Rightarrow> nat \<Rightarrow> nat \<Rightarrow> bool \<Rightarrow> pthread_attr_t option \<Rightarrow> nat \<Rightarrow> nat \<Rightarrow>
   'k pthreads \<Rightarrow> ('k pthreads \<times> int \<times> nat option) option" where
  "pthread_create K create stub me has_thread attr start_routine a s =
     (if \<not> has_thread \<or> start_routine = 0 \<or> refuses attr then Some (s, EINVAL, None)
      else do {
        (s1, r) \<leftarrow> thread_prepare K stub me start_routine a (pid_init me s);
        case r of
          None \<Rightarrow> Some (s1, EAGAIN, None)
        | Some (p, stk, ca) \<Rightarrow> thread_launch K create me p stk ca s1
      })"

text \<open>The destructors at exit.  \<open>run d v ks\<close> is what the destructor \<open>d\<close>, called with \<open>v\<close>, leaves of the
  thread's values.  Besides the values, the calls made are collected.\<close>

fun destructor_pass :: "(nat \<Rightarrow> nat \<Rightarrow> nat list \<Rightarrow> nat list) \<Rightarrow> nat list \<Rightarrow> nat \<Rightarrow> nat list \<Rightarrow> nat list \<times> (nat \<times> nat) list" where
  "destructor_pass run [] k ks = (ks, [])"
| "destructor_pass run (d # ds) k ks =
     (if d \<noteq> 0 \<and> ks ! k \<noteq> 0
      then let (ks', calls) = destructor_pass run ds (Suc k) (run d (ks ! k) (ks[k := 0])) in (ks', (d, ks ! k) # calls)
      else destructor_pass run ds (Suc k) ks)"

fun destructor_passes :: "(nat \<Rightarrow> nat \<Rightarrow> nat list \<Rightarrow> nat list) \<Rightarrow> nat list \<Rightarrow> nat \<Rightarrow> nat list \<Rightarrow> nat list \<times> (nat \<times> nat) list" where
  "destructor_passes run ds 0 ks = (ks, [])"
| "destructor_passes run ds (Suc n) ks =
     (let (ks1, c1) = destructor_pass run ds 0 ks in
      if c1 = [] then (ks1, []) else let (ks2, c2) = destructor_passes run ds n ks1 in (ks2, c1 @ c2))"

text \<open>\<open>__cact_thread_exit_body\<close> up to the kernel's \<open>THREAD_EXIT\<close>, which does not return.\<close>

definition thread_exit_body ::
  "'k kernel \<Rightarrow> (nat \<Rightarrow> nat \<Rightarrow> nat list \<Rightarrow> nat list) \<Rightarrow> nat \<Rightarrow> nat \<Rightarrow> 'k pthreads \<Rightarrow> ('k pthreads \<times> (nat \<times> nat) list) option" where
  "thread_exit_body K run me v s = do {
     (s1, p) \<leftarrow> thread_self_desc K me s;
     case find (\<lambda>t. self t = p) (g_threads s1) of
       None \<Rightarrow> Some (s1, [])
     | Some t \<Rightarrow>
         let (ks, calls) = destructor_passes run (g_key_destructors s1) PTHREAD_DESTRUCTOR_ITERATIONS (keys t);
             s2 = update_thread p (\<lambda>t. t\<lparr>retval := v, has_result := True, keys := ks\<rparr>) s1
         in Some (s2\<lparr>table := cact_tlocal_unregister (p + TLS_AT) (table s2)\<rparr>, calls)
   }"

text \<open>The waiting loop of \<open>pthread_join\<close>: each answer of the kernel comes with the join word as it is then.
  \<open>None\<close>: still asleep when the answers are used up.\<close>

fun join_wait :: "(int \<times> nat) list \<Rightarrow> nat \<Rightarrow> int option" where
  "join_wait as c = (if c = 0 then Some 0
     else case as of [] \<Rightarrow> None
     | (r, c') # rest \<Rightarrow> if r = - EINTR then Some EINTR else join_wait rest c')"

declare join_wait.simps [simp del]

definition pthread_join ::
  "'k kernel \<Rightarrow> (int \<times> nat) list \<Rightarrow> nat \<Rightarrow> nat \<Rightarrow> 'k pthreads \<Rightarrow> ('k pthreads \<times> int \<times> nat option) option" where
  "pthread_join K as me t s =
     (if t = 0 then Some (s, ESRCH, None)
      else do {
        s1 \<leftarrow> g_acquire me s;
        let s2 = g_release me s1;
        case find_by_id_locked t s1 of
          None \<Rightarrow> Some (s2, ESRCH, None)
        | Some td \<Rightarrow> do {
            w \<leftarrow> join_wait as (clr td);
            if w = EINTR then Some (s2, EINTR, None)
            else do {
              s3 \<leftarrow> g_acquire me s2;
              let s4 = g_release me (s3\<lparr>g_threads := unlink_thread (self td) (g_threads s3)\<rparr>);
              let s5 = s4\<lparr>table := cact_tlocal_unregister (self td + TLS_AT) (table s4)\<rparr>;
              h6 \<leftarrow> free K (self td) (heap_of s5);
              let h7 = (if stack td \<noteq> 0 then h6\<lparr>kern := sys_munmap K (kern h6) (stack td) (stack_size td)\<rparr> else h6);
              Some (with_heap h7 s5, 0, Some (retval td))
            }
          }
      })"

definition pthread_detach :: "nat \<Rightarrow> nat \<Rightarrow> 'k pthreads \<Rightarrow> ('k pthreads \<times> int) option" where
  "pthread_detach me t s = do {
     s1 \<leftarrow> g_acquire me s;
     case find_by_id_locked t s1 of
       None \<Rightarrow> Some (g_release me s1, ESRCH)
     | Some td \<Rightarrow> Some (g_release me (update_thread (self td) (\<lambda>x. x\<lparr>detached := True\<rparr>) s1), 0)
   }"

section \<open>Lemmas\<close>

text \<open>Between the calls nobody holds \<open>g_lock\<close>: a normal mutex in the state 0.\<close>

definition lock_free :: "'k pthreads \<Rightarrow> bool" where
  "lock_free s \<longleftrightarrow> g_lock s = PTHREAD_MUTEX_INITIALIZER"

definition locked_state :: "'k pthreads \<Rightarrow> 'k pthreads" where
  "locked_state s = s\<lparr>g_lock := PTHREAD_MUTEX_INITIALIZER\<lparr>mstate := 1\<rparr>\<rparr>"

lemma g_acquire_free [simp]: "lock_free s \<Longrightarrow> g_acquire me s = Some (locked_state s)"
  by (simp add: g_acquire_def lock_free_def locked_state_def mutex_defs PTHREAD_MUTEX_INITIALIZER_def)

lemma g_release_locked [simp]:
  "g_lock s = PTHREAD_MUTEX_INITIALIZER\<lparr>mstate := 1\<rparr> \<Longrightarrow> g_release me s = s\<lparr>g_lock := PTHREAD_MUTEX_INITIALIZER\<rparr>"
  by (simp add: g_release_def mutex_defs PTHREAD_MUTEX_INITIALIZER_def)

lemma locked_state_simps [simp]:
  "g_lock (locked_state s) = PTHREAD_MUTEX_INITIALIZER\<lparr>mstate := 1\<rparr>"
  "tls (locked_state s) = tls s" "g_threads (locked_state s) = g_threads s"
  "g_key_used (locked_state s) = g_key_used s" "g_key_destructors (locked_state s) = g_key_destructors s"
  "table (locked_state s) = table s" "pid_cache (locked_state s) = pid_cache s"
  by (simp_all add: locked_state_def)

lemma release_acquired [simp]:
  "lock_free s \<Longrightarrow> (locked_state s)\<lparr>g_lock := PTHREAD_MUTEX_INITIALIZER\<rparr> = s"
  by (simp add: locked_state_def lock_free_def)

lemma lock_free_simps [simp]: "lock_free (s\<lparr>g_lock := PTHREAD_MUTEX_INITIALIZER\<rparr>)"
  by (simp add: lock_free_def)

text \<open>A registered thread finds its own descriptor, and the state is as before.\<close>

lemma self_desc_registered:
  "lock_free s \<Longrightarrow> find_by_id_locked me s = Some t \<Longrightarrow> thread_self_desc K me s = Some (s, self t)"
  by (simp add: thread_self_desc_def find_by_id_locked_def)

text \<open>The invariant of the registry: the descriptors have different addresses and 64 values each, the
  key table has 64 entries.\<close>

definition registry_inv :: "'k pthreads \<Rightarrow> bool" where
  "registry_inv s \<longleftrightarrow> distinct (map self (g_threads s)) \<and>
     (\<forall>t \<in> set (g_threads s). self t \<noteq> 0 \<and> length (keys t) = PTHREAD_KEYS_MAX) \<and>
     length (g_key_used s) = PTHREAD_KEYS_MAX \<and> length (g_key_destructors s) = PTHREAD_KEYS_MAX"

lemma find_self:
  "distinct (map self ts) \<Longrightarrow> t \<in> set ts \<Longrightarrow> find (\<lambda>x. self x = self t) ts = Some t"
  by (induction ts) auto

lemma find_mem: "find P ts = Some t \<Longrightarrow> t \<in> set ts \<and> P t"
  by (induction ts) (auto split: if_splits)

lemma found: "find_by_id_locked i s = Some t \<Longrightarrow> t \<in> set (g_threads s) \<and> tid t = i"
  unfolding find_by_id_locked_def by (rule find_mem)

lemma find_update:
  assumes "distinct (map self ts)" "\<And>x. tid (f x) = tid x" "find (\<lambda>x. tid x = i) ts = Some t"
  shows "find (\<lambda>x. tid x = i) (map (\<lambda>x. if self x = p then f x else x) ts) = Some (if self t = p then f t else t)"
  using assms by (induction ts) (auto split: if_splits)

definition set_key :: "nat \<Rightarrow> nat \<Rightarrow> cact_thread \<Rightarrow> cact_thread" where
  "set_key key v t = t\<lparr>keys := (keys t)[key := v]\<rparr>"

lemma set_key_simps [simp]: "tid (set_key key v t) = tid t" "self (set_key key v t) = self t"
  by (simp_all add: set_key_def)

lemma update_thread_inv:
  "registry_inv s \<Longrightarrow> (\<And>x. self (f x) = self x) \<Longrightarrow> (\<And>x. length (keys (f x)) = length (keys x)) \<Longrightarrow>
   registry_inv (update_thread p f s)"
  by (auto simp: registry_inv_def update_thread_def o_def if_distrib cong: if_cong)

lemma setspecific_registered:
  assumes "lock_free s" "registry_inv s" "find_by_id_locked me s = Some t" "key < PTHREAD_KEYS_MAX" "g_key_used s ! key"
  shows "pthread_setspecific K me key v s = Some (update_thread (self t) (set_key key v) s, 0)"
proof -
  have "self t \<noteq> 0" using assms(2) found [OF assms(3)] by (auto simp: registry_inv_def)
  then show ?thesis
    using self_desc_registered [OF assms(1,3), of K] assms(4,5)
    by (simp add: pthread_setspecific_def set_key_def [abs_def])
qed

lemma getspecific_registered:
  assumes "lock_free s" "registry_inv s" "find_by_id_locked me s = Some t" "key < PTHREAD_KEYS_MAX"
  shows "pthread_getspecific K me key s = Some (s, keys t ! key)"
proof -
  have "t \<in> set (g_threads s)" "distinct (map self (g_threads s))" "self t \<noteq> 0"
    using assms(2) found [OF assms(3)] by (auto simp: registry_inv_def)
  then show ?thesis
    using self_desc_registered [OF assms(1,3), of K] assms(4) by (simp add: pthread_getspecific_def find_self)
qed

lemma update_thread_simps [simp]:
  "g_key_used (update_thread p f s) = g_key_used s" "lock_free (update_thread p f s) = lock_free s"
  "g_key_destructors (update_thread p f s) = g_key_destructors s"
  by (simp_all add: update_thread_def lock_free_def)

text \<open>What one thread stores under a key only it sees.\<close>

lemma specific_roundtrip:
  assumes "lock_free s" "registry_inv s" "find_by_id_locked me s = Some t" "find_by_id_locked other s = Some u"
    and "key < PTHREAD_KEYS_MAX" "g_key_used s ! key" "key' < PTHREAD_KEYS_MAX"
  shows "\<exists>s'. pthread_setspecific K me key v s = Some (s', 0) \<and> lock_free s' \<and> registry_inv s' \<and>
    pthread_getspecific K other key' s' =
      Some (s', if other = me \<and> key' = key then v else keys u ! key')"
proof -
  let ?s = "update_thread (self t) (set_key key v) s"
  have d: "distinct (map self (g_threads s))" "t \<in> set (g_threads s)" "u \<in> set (g_threads s)"
    "tid t = me" "tid u = other" "length (keys t) = PTHREAD_KEYS_MAX"
    using assms(2) found [OF assms(3)] found [OF assms(4)] by (auto simp: registry_inv_def)
  have same: "self u = self t \<longleftrightarrow> u = t" using d(1-3) by (auto simp: distinct_map inj_on_def)
  have ut: "other = me \<longleftrightarrow> u = t" using assms(3,4) d(4,5) by (metis option.inject)
  have inv: "registry_inv ?s" using assms(2) by (rule update_thread_inv) (simp_all add: set_key_def)
  have "find_by_id_locked other ?s = Some (if self u = self t then set_key key v u else u)"
    using find_update [OF d(1), of "set_key key v" other u "self t"] assms(4)
    by (simp add: find_by_id_locked_def update_thread_def)
  then have "pthread_getspecific K other key' ?s =
      Some (?s, keys (if self u = self t then set_key key v u else u) ! key')"
    using getspecific_registered [OF _ inv] assms(1,7) by simp
  then have "pthread_getspecific K other key' ?s =
      Some (?s, if other = me \<and> key' = key then v else keys u ! key')"
    using same ut d(6) assms(5) by (auto simp: set_key_def nth_list_update)
  then show ?thesis using setspecific_registered [OF assms(1-3,5,6)] inv assms(1) by auto
qed

text \<open>The key table.\<close>

lemma first_unused_Some:
  "first_unused us k = Some i \<Longrightarrow> k \<le> i \<and> i - k < length us \<and> \<not> us ! (i - k) \<and> (\<forall>j < i - k. us ! j)"
proof (induction us k rule: first_unused.induct)
  case (2 u us k)
  show ?case
  proof (cases u)
    case True
    then have *: "Suc k \<le> i \<and> i - Suc k < length us \<and> \<not> us ! (i - Suc k) \<and> (\<forall>j < i - Suc k. us ! j)"
      using 2 by simp
    then obtain d where "i = Suc (k + d)" by (metis add_Suc le_Suc_ex)
    then show ?thesis using * True by (auto simp: less_Suc_eq_0_disj)
  qed (use 2 in auto)
qed simp

lemma first_unused_None: "first_unused us k = None \<longleftrightarrow> (\<forall>u \<in> set us. u)"
  by (induction us k rule: first_unused.induct) auto

lemma key_create_spec:
  assumes "lock_free s" "registry_inv s"
  shows "(\<exists>s' i. pthread_key_create me True d s = Some (s', 0, Some i) \<and> i < PTHREAD_KEYS_MAX \<and>
      \<not> g_key_used s ! i \<and> g_key_used s' = (g_key_used s)[i := True] \<and>
      g_key_destructors s' = (g_key_destructors s)[i := d] \<and> g_threads s' = g_threads s \<and>
      lock_free s' \<and> registry_inv s') \<or>
    (\<forall>i < PTHREAD_KEYS_MAX. g_key_used s ! i) \<and> pthread_key_create me True d s = Some (s, EAGAIN, None)"
proof (cases "first_unused (g_key_used s) 0")
  case None
  then have "\<forall>u \<in> set (g_key_used s). u" by (simp add: first_unused_None)
  then show ?thesis using assms None by (auto simp: pthread_key_create_def registry_inv_def)
next
  case (Some i)
  then have "i < PTHREAD_KEYS_MAX" "\<not> g_key_used s ! i"
    using first_unused_Some [OF Some] assms(2) by (auto simp: registry_inv_def)
  then show ?thesis using assms Some by (simp add: pthread_key_create_def registry_inv_def)
qed

text \<open>A key that is deleted and created again gives each thread the value it had under the old key.\<close>

lemma key_reuse_stale:
  assumes "lock_free s" "registry_inv s" "find_by_id_locked me s = Some t" "key < PTHREAD_KEYS_MAX"
    and "\<forall>j \<le> key. g_key_used s ! j"
  shows "\<exists>s1 s2. pthread_key_delete me key s = Some (s1, 0) \<and> pthread_key_create me True d s1 = Some (s2, 0, Some key) \<and>
    pthread_getspecific K me key s2 = Some (s2, keys t ! key)"
proof -
  define s1 where "s1 = s\<lparr>g_key_used := (g_key_used s)[key := False], g_key_destructors := (g_key_destructors s)[key := 0]\<rparr>"
  have del: "pthread_key_delete me key s = Some (s1, 0)"
    using assms(1,4,5) by (simp add: pthread_key_delete_def s1_def locked_state_def lock_free_def)
  have s1: "lock_free s1" "registry_inv s1" "g_threads s1 = g_threads s"
    using assms(1,2) by (simp_all add: s1_def registry_inv_def lock_free_def)
  have fu: "first_unused us k = Some (k + n)" if "n < length us" "\<forall>j < n. us ! j" "\<not> us ! n" for us k n
    using that
  proof (induction us k arbitrary: n rule: first_unused.induct)
    case (2 u us k)
    show ?case
    proof (cases n)
      case (Suc m)
      then show ?thesis using "2.prems" "2.IH" [of m] by (auto simp: nth_Cons split: nat.splits)
    qed (use 2 in auto)
  qed simp
  have "first_unused (g_key_used s1) 0 = Some key"
    using fu [of key "g_key_used s1" 0] assms(2,4,5) by (simp add: s1_def registry_inv_def)
  then obtain s2 where s2: "pthread_key_create me True d s1 = Some (s2, 0, Some key)"
    "lock_free s2" "registry_inv s2" "g_threads s2 = g_threads s"
    using s1 by (auto simp: pthread_key_create_def registry_inv_def)
  then have "find_by_id_locked me s2 = Some t" using assms(3) by (simp add: find_by_id_locked_def)
  then show ?thesis using del s2 getspecific_registered [OF s2(2,3)] assms(4) by blast
qed

section \<open>Destructors at exit\<close>

lemma destructor_pass_quiet:
  "length ds = length ks \<Longrightarrow> destructor_pass (\<lambda>d v ks. ks) ds (length pre) (pre @ ks) =
     (pre @ map2 (\<lambda>d v. if d \<noteq> 0 then 0 else v) ds ks, filter (\<lambda>(d, v). d \<noteq> 0 \<and> v \<noteq> 0) (zip ds ks))"
proof (induction ds ks arbitrary: pre rule: list_induct2)
  case (Cons d ds v ks)
  then show ?case using Cons.IH [of "pre @ [0]"] Cons.IH [of "pre @ [v]"]
    by (auto simp: list_update_append)
qed simp

lemma filter_quiet:
  "length ds = length ks \<Longrightarrow>
   filter (\<lambda>(d, v). d \<noteq> 0 \<and> v \<noteq> (0 :: nat)) (zip ds (map2 (\<lambda>d v. if d \<noteq> 0 then 0 else v) ds ks)) = []"
  by (induction ds ks rule: list_induct2) auto

lemma quiet_twice:
  "length ds = length ks \<Longrightarrow> map2 (\<lambda>d v. if d \<noteq> 0 then 0 else v) ds (map2 (\<lambda>d v. if d \<noteq> 0 then 0 else v) ds ks) =
     map2 (\<lambda>d v. if d \<noteq> (0 :: nat) then (0 :: nat) else v) ds ks"
  by (induction ds ks rule: list_induct2) auto

lemma destructors_once:
  assumes "length ds = length ks"
  shows "destructor_passes (\<lambda>d v ks. ks) ds (Suc (Suc n)) ks =
    (map2 (\<lambda>d v. if d \<noteq> 0 then 0 else v) ds ks, filter (\<lambda>(d, v). d \<noteq> 0 \<and> v \<noteq> 0) (zip ds ks))"
  using destructor_pass_quiet [OF assms, of "[]"]
    destructor_pass_quiet [of ds "map2 (\<lambda>d v. if d \<noteq> 0 then 0 else v) ds ks" "[]"]
    filter_quiet [OF assms] quiet_twice [OF assms] assms
  by (auto simp: Let_def)

lemma destructor_pass_bound: "length (snd (destructor_pass run ds k ks)) \<le> length ds"
  by (induction run ds k ks rule: destructor_pass.induct) (auto simp: Let_def split: prod.splits)

lemma destructor_passes_bound: "length (snd (destructor_passes run ds n ks)) \<le> n * length ds"
proof (induction run ds n ks rule: destructor_passes.induct)
  case (2 run ds n ks)
  obtain ks1 c1 where c1: "destructor_pass run ds 0 ks = (ks1, c1)" by force
  obtain ks2 c2 where c2: "destructor_passes run ds n ks1 = (ks2, c2)" by force
  have "length c1 \<le> length ds" using destructor_pass_bound [of run ds 0 ks] c1 by simp
  moreover have "c1 \<noteq> [] \<Longrightarrow> length c2 \<le> n * length ds" using 2 [of "(ks1, c1)" ks1 c1] c1 c2 by simp
  ultimately show ?case using c1 c2 by (auto simp: Let_def)
qed simp

section \<open>The life of a thread\<close>

text \<open>The invariant between the calls: \<open>g_lock\<close> is free, the heap is well formed, every descriptor is a
  live block of it, and every stack in the table belongs to a descriptor.\<close>

definition proc_inv :: "('k \<Rightarrow> nat) \<Rightarrow> 'k pthreads \<Rightarrow> blk list \<Rightarrow> bool" where
  "proc_inv brk_of s bs \<longleftrightarrow> lock_free s \<and> registry_inv s \<and> heap_rel brk_of (heap_of s) bs \<and> table_inv (table s) \<and>
     (\<forall>t \<in> set (g_threads s). \<exists>n. (self t, n) \<in> live bs) \<and>
     (\<forall>(l, h, b) \<in> ranges (table s). \<exists>t \<in> set (g_threads s). b = self t + TLS_AT)"

text \<open>What the libc relies on: mapping memory and starting a thread do not move the break.\<close>

definition spares_brk :: "'k kernel \<Rightarrow> (thread_create_arg \<Rightarrow> 'k \<Rightarrow> 'k \<times> int) \<Rightarrow> ('k \<Rightarrow> nat) \<Rightarrow> bool" where
  "spares_brk K create brk_of \<longleftrightarrow> (\<forall>k n. brk_of (fst (sys_mmap K k n)) = brk_of k) \<and>
     (\<forall>k a n. brk_of (sys_munmap K k a n) = brk_of k) \<and> (\<forall>a k. brk_of (fst (create a k)) = brk_of k)"

lemma heap_rel_kern:
  "brk_of k = brk_of (kern h) \<Longrightarrow> heap_rel brk_of (h\<lparr>kern := k\<rparr>) bs = heap_rel brk_of h bs"
  by (simp add: heap_rel_def chain_rel_def)

lemma with_heap_simps [simp]:
  "heap_of (with_heap h s) = h" "g_lock (with_heap h s) = g_lock s" "g_threads (with_heap h s) = g_threads s"
  "g_key_used (with_heap h s) = g_key_used s" "g_key_destructors (with_heap h s) = g_key_destructors s"
  "table (with_heap h s) = table s" "layout (tls (with_heap h s)) = layout (tls s)"
  "lock_free (with_heap h s) = lock_free s" "registry_inv (with_heap h s) = registry_inv s"
  by (simp_all add: with_heap_def lock_free_def registry_inv_def)

lemma block_new_spec:
  assumes rel: "heap_rel brk_of (heap t) bs" and law: "brk_law K brk_of" and size: "total_size (layout t) \<le> 2147483648"
  shows "\<exists>t' gs bs'. cact_tls_block_new K t = Some (t', gs) \<and> heap_rel brk_of (heap t') bs' \<and> live bs \<subseteq> live bs' \<and>
    brk_of (kern (heap t')) < 4294967296"
proof -
  let ?n = "add32 (add32 (total_size (layout t)) CACT_TLS_TCB_SIZE) 16"
  have "?n \<le> 4294967248" using size by (simp add: add32_id CACT_TLS_TCB_SIZE_def)
  then obtain h p bs' where h: "malloc K ?n (heap t) = Some (h, p)" "heap_rel brk_of h bs'" "live bs \<subseteq> live bs'"
    using malloc_spec [OF rel law] unfolding gives_def by (metis order_refl subset_insertI)
  have b: "brk_of (kern h) < 4294967296" "brk_of (kern (heap t)) < 4294967296"
    using h(2) rel by (simp_all add: heap_rel_def chain_rel_def)
  show ?thesis
    using rel h b
    by (auto simp: cact_tls_block_new_def cact_tls_alloc_def tls_block_register_def Let_def split: prod.splits)
qed

lemma unregister_absent:
  assumes "\<And>l h p. (l, h, p) \<in> ranges s \<Longrightarrow> p \<noteq> b" "b \<noteq> 0"
  shows "cact_tlocal_unregister b s = s"
proof -
  have "\<forall>x \<in> set (slots s). blk x \<noteq> b" using assms unfolding ranges_def by fastforce
  then show ?thesis by (simp add: cact_tlocal_unregister_def scan_None [THEN iffD2])
qed

text \<open>Registering a new stack: it is in the table, or the table is full and stays as it is.\<close>

lemma register_cases:
  assumes inv: "table_inv s" and args: "b \<noteq> 0" "base \<noteq> 0" "len \<noteq> 0" "base + len < 2 ^ 32"
    and new: "\<And>l h p. (l, h, p) \<in> ranges s \<Longrightarrow> p \<noteq> b \<and> {l..<h} \<inter> {base..<base + len} = {}"
  shows "table_inv (fst (cact_tlocal_register base len b s)) \<and>
    (ranges (fst (cact_tlocal_register base len b s)) = ranges s \<or>
     ranges (fst (cact_tlocal_register base len b s)) = insert (base, base + len, b) (ranges s))"
proof (cases "\<forall>x \<in> set (slots s). blk x \<noteq> 0")
  case True
  then show ?thesis using inv register_full [OF True] by simp
next
  case False
  then obtain i where i: "i < CACT_TLS_MAX_THREADS" "blk (slots s ! i) = 0"
    using inv by (auto simp: table_inv_def in_set_conv_nth)
  then have "{i. i < CACT_TLS_MAX_THREADS \<and> blk (slots s ! i) \<noteq> 0} \<subseteq> {..<CACT_TLS_MAX_THREADS} - {i}" by auto
  then have "card {i. i < CACT_TLS_MAX_THREADS \<and> blk (slots s ! i) \<noteq> 0} \<le> card ({..<CACT_TLS_MAX_THREADS} - {i})"
    by (intro card_mono) auto
  also have "\<dots> < CACT_TLS_MAX_THREADS" using i by (simp add: card_Diff_singleton)
  finally show ?thesis using register_spec [OF inv args new] by blast
qed

text \<open>The state in which the kernel is asked to start the thread.\<close>

definition prepared :: "('k \<Rightarrow> nat) \<Rightarrow> 'k pthreads \<Rightarrow> blk list \<Rightarrow> 'k pthreads \<Rightarrow> blk list \<Rightarrow> nat \<Rightarrow> nat \<Rightarrow> bool" where
  "prepared brk_of s bs s' bs' p stk \<longleftrightarrow> p \<noteq> 0 \<and> lock_free s' \<and> heap_rel brk_of (heap_of s') bs' \<and> live bs \<subseteq> live bs' \<and>
     (\<exists>n. (p, n) \<in> live bs') \<and> (\<forall>n. (p, n) \<notin> live bs) \<and> table_inv (table s') \<and>
     (ranges (table s') = ranges (table s) \<or>
      ranges (table s') = insert (stk, stk + DEFAULT_STACK_SIZE, p + TLS_AT) (ranges (table s))) \<and>
     g_key_used s' = g_key_used s \<and> g_key_destructors s' = g_key_destructors s \<and>
     (\<exists>t. self t = p \<and> stack t = stk \<and> stack_size t = DEFAULT_STACK_SIZE \<and> length (keys t) = PTHREAD_KEYS_MAX \<and>
        g_threads s' = t # g_threads s)"

lemma thread_prepare_spec:
  assumes inv: "proc_inv brk_of s bs" and law: "brk_law K brk_of" and spare: "spares_brk K create brk_of"
    and size: "total_size (layout (tls s)) \<le> 2147483648"
    and stk: "sys_mmap K (kern (heap_of s)) DEFAULT_STACK_SIZE = (k1, stk)" "stk \<noteq> 0"
      "stk = UINTPTR_MAX \<or> stk + DEFAULT_STACK_SIZE < 2 ^ 32"
    and new: "\<forall>(l, h, b) \<in> ranges (table s). {l..<h} \<inter> {stk..<stk + DEFAULT_STACK_SIZE} = {}"
  shows "\<exists>s' r bs'. thread_prepare K stub me start_routine a s = Some (s', r) \<and>
    (r = None \<and> proc_inv brk_of s' bs' \<and> live bs' = live bs \<and> g_threads s' = g_threads s \<and> table s' = table s \<or>
     (\<exists>p ca. r = Some (p, stk, ca) \<and> prepared brk_of s bs s' bs' p stk))"
proof -
  define s2 where "s2 = with_heap ((heap_of s)\<lparr>kern := k1\<rparr>) s"
  have brk: "brk_of k1 = brk_of (kern (heap_of s))" using spare stk(1) unfolding spares_brk_def by (metis fst_conv)
  have s2: "proc_inv brk_of s2 bs" "g_threads s2 = g_threads s" "table s2 = table s" "layout (tls s2) = layout (tls s)"
    using inv brk by (simp_all add: proc_inv_def s2_def heap_rel_kern)
  have sz: "1 * THREAD_SIZE \<le> 4294967248" by (simp add: THREAD_SIZE_def)
  obtain h3 p bs3 where c: "calloc K 1 THREAD_SIZE (heap_of s2) = Some (h3, p)" "heap_rel brk_of h3 bs3"
    "p = 0 \<and> live bs3 = live bs \<or> (\<exists>n. p \<noteq> 0 \<and> live bs3 = insert (p, n) (live bs) \<and> (\<forall>m. (p, m) \<notin> live bs))"
    using calloc_spec [OF _ law sz, of "heap_of s2" bs] s2(1) unfolding proc_inv_def by blast
  consider "stk = UINTPTR_MAX" | "stk \<noteq> UINTPTR_MAX" "p = 0" | "stk \<noteq> UINTPTR_MAX" "p \<noteq> 0" by blast
  then show ?thesis
  proof cases
    case 1
    then have "thread_prepare K stub me start_routine a s = Some (s2, None)"
      using stk(1) by (simp add: thread_prepare_def s2_def)
    then show ?thesis using s2 by blast
  next
    case 2
    define s' where "s' = with_heap (h3\<lparr>kern := sys_munmap K (kern h3) stk DEFAULT_STACK_SIZE\<rparr>) s2"
    have "thread_prepare K stub me start_routine a s = Some (s', None)"
      using stk(1) 2 c(1) by (simp add: thread_prepare_def s2_def s'_def)
    moreover have "proc_inv brk_of s' bs3" "live bs3 = live bs" "g_threads s' = g_threads s" "table s' = table s"
      using s2 c 2 spare by (auto simp: proc_inv_def s'_def spares_brk_def heap_rel_kern)
    ultimately show ?thesis by blast
  next
    case 3
    obtain m4 sp where fr: "first_frame stk stub a (dat h3) = (m4, sp)" by force
    obtain t5 gs bs5 where t5: "cact_tls_block_new K ((tls s2)\<lparr>heap := h3\<lparr>dat := m4\<rparr>\<rparr>) = Some (t5, gs)"
      "heap_rel brk_of (heap t5) bs5" "live bs3 \<subseteq> live bs5"
      using block_new_spec [of brk_of "(tls s2)\<lparr>heap := h3\<lparr>dat := m4\<rparr>\<rparr>" bs3 K] c(2) law size s2(4) by auto
    define td where "td = (blank_thread p)\<lparr>start := start_routine, arg := a, stack := stk, stack_size := DEFAULT_STACK_SIZE\<rparr>"
    define s' where "s' = s2\<lparr>tls := t5, g_threads := td # g_threads s,
      table := fst (cact_tlocal_register stk DEFAULT_STACK_SIZE (p + TLS_AT) (table s))\<rparr>"
    have lf: "lock_free s" "g_lock s2 = g_lock s" using inv by (simp_all add: proc_inv_def s2_def)
    then have eq: "thread_prepare K stub me start_routine a s = Some (s', Some (p, stk, \<lparr>entry = start_routine, user_esp = sp,
        gs_base = gs, set_child_tid = p + ID_AT, clear_child_tid = p + CLR_AT\<rparr>))"
      using stk(1) 3 c(1) fr t5(1) s2
      by (simp add: thread_prepare_def s2_def [symmetric] Let_def td_def s'_def proc_inv_def lock_free_def locked_state_def)
    have p: "\<forall>n. (p, n) \<notin> live bs" "\<exists>n. (p, n) \<in> live bs3" using c(3) 3 by auto
    have tb: "table s' = fst (cact_tlocal_register stk DEFAULT_STACK_SIZE (p + TLS_AT) (table s))" by (simp add: s'_def)
    have reg: "table_inv (table s') \<and> (ranges (table s') = ranges (table s) \<or>
        ranges (table s') = insert (stk, stk + DEFAULT_STACK_SIZE, p + TLS_AT) (ranges (table s)))"
      unfolding tb
    proof (rule register_cases)
      fix l h q
      assume q: "(l, h, q) \<in> ranges (table s)"
      then obtain t where "t \<in> set (g_threads s)" "q = self t + TLS_AT" using inv by (auto simp: proc_inv_def)
      moreover then obtain n where "(self t, n) \<in> live bs" using inv by (auto simp: proc_inv_def)
      ultimately show "q \<noteq> p + TLS_AT \<and> {l..<h} \<inter> {stk..<stk + DEFAULT_STACK_SIZE} = {}" using p(1) bspec [OF new q] by auto
    qed (use inv 3 stk in \<open>auto simp: proc_inv_def DEFAULT_STACK_SIZE_def TLS_AT_def\<close>)
    have "prepared brk_of s bs s' bs5 p stk"
      using reg p t5 c(3) 3 lf s2
      by (auto simp: prepared_def s'_def td_def blank_thread_def lock_free_def s2_def)
    then show ?thesis using eq by blast
  qed
qed

lemma unregister_new:
  assumes "table_inv tb" "b \<noteq> 0" "ranges tb = R \<or> ranges tb = insert (x, y, b) R" "\<And>l h p. (l, h, p) \<in> R \<Longrightarrow> p \<noteq> b"
  shows "ranges (cact_tlocal_unregister b tb) = R" "table_inv (cact_tlocal_unregister b tb)"
  using unregister_spec [OF assms(1,2)] assms(3,4) by auto

text \<open>The kernel refuses: the thread is taken out again, the descriptor is freed, the stack unmapped.\<close>

lemma thread_launch_refused:
  assumes inv: "proc_inv brk_of s bs" and pre: "prepared brk_of s bs s1 bs1 p stk" and spare: "spares_brk K create brk_of"
    and no: "snd (create ca (kern (heap_of s1))) \<le> 0"
  shows "\<exists>s' bs'. thread_launch K create me p stk ca s1 = Some (s', EAGAIN, None) \<and> proc_inv brk_of s' bs' \<and>
    g_threads s' = g_threads s \<and> ranges (table s') = ranges (table s) \<and> live bs \<subseteq> live bs'"
proof -
  obtain k1 t where k1: "create ca (kern (heap_of s1)) = (k1, t)" by force
  have brk: "brk_of k1 = brk_of (kern (heap_of s1))" using spare k1 unfolding spares_brk_def by (metis fst_conv)
  define s3 where "s3 = with_heap ((heap_of s1)\<lparr>kern := k1\<rparr>) s1\<lparr>table := cact_tlocal_unregister (p + TLS_AT) (table s1), g_threads := g_threads s\<rparr>"
  define h3 where "h3 = (heap_of s3)\<lparr>kern := sys_munmap K (kern (heap_of s3)) stk DEFAULT_STACK_SIZE\<rparr>"
  obtain n where n: "(p, n) \<in> live bs1" "\<forall>m. (p, m) \<notin> live bs" using pre by (auto simp: prepared_def)
  have rel: "heap_rel brk_of h3 bs1"
    using pre brk spare by (simp add: h3_def s3_def prepared_def spares_brk_def heap_rel_kern with_heap_def)
  obtain h4 bs4 where h4: "free K p h3 = Some h4" "heap_rel brk_of h4 bs4" "live bs4 = live bs1 - {(p, n)}"
    using free_spec [OF rel n(1), of K] by blast
  have eq: "thread_launch K create me p stk ca s1 = Some (with_heap h4 s3, EAGAIN, None)"
    using pre k1 no h4(1)
    by (auto simp: thread_launch_def Let_def prepared_def h3_def s3_def lock_free_def locked_state_def with_heap_def)
  have old: "q \<noteq> p + TLS_AT" if "(l, h, q) \<in> ranges (table s)" for l h q
    using that inv n(2) by (fastforce simp: proc_inv_def)
  have tb: "ranges (table s3) = ranges (table s)" "table_inv (table s3)"
    using unregister_new [of "table s1" "p + TLS_AT" "ranges (table s)" stk "stk + DEFAULT_STACK_SIZE"] pre old
    by (auto simp: prepared_def s3_def TLS_AT_def)
  have "live bs \<subseteq> live bs4" using h4(3) pre n(2) by (auto simp: prepared_def)
  moreover have "proc_inv brk_of (with_heap h4 s3) bs4"
    using inv pre tb h4(2) calculation unfolding proc_inv_def
    by (auto simp: s3_def prepared_def registry_inv_def lock_free_def with_heap_def) blast+
  ultimately show ?thesis using eq tb by (auto simp: s3_def)
qed

text \<open>The kernel starts the thread.\<close>

lemma thread_launch_started:
  assumes inv: "proc_inv brk_of s bs" and pre: "prepared brk_of s bs s1 bs1 p stk" and spare: "spares_brk K create brk_of"
    and yes: "snd (create ca (kern (heap_of s1))) = int t" "0 < t"
  shows "\<exists>s' td. thread_launch K create me p stk ca s1 = Some (s', 0, Some t) \<and> proc_inv brk_of s' bs1 \<and>
    g_threads s' = td # g_threads s \<and> self td = p \<and> tid td = t \<and> clr td = t \<and> stack td = stk \<and>
    table s' = table s1"
proof -
  obtain k1 where k1: "create ca (kern (heap_of s1)) = (k1, int t)" using yes(1) by (metis prod.collapse)
  have brk: "brk_of k1 = brk_of (kern (heap_of s1))" using spare k1 unfolding spares_brk_def by (metis fst_conv)
  obtain td where td: "self td = p" "stack td = stk" "length (keys td) = PTHREAD_KEYS_MAX" "g_threads s1 = td # g_threads s"
    using pre by (auto simp: prepared_def)
  define td' where "td' = td\<lparr>tid := t, clr := t\<rparr>"
  define s' where "s' = with_heap ((heap_of s1)\<lparr>kern := k1\<rparr>) s1\<lparr>g_threads := td' # g_threads s\<rparr>"
  have other: "self x \<noteq> p" if "x \<in> set (g_threads s)" for x
    using that inv pre by (auto simp: proc_inv_def prepared_def)
  then have "map (\<lambda>x. if self x = p then x\<lparr>tid := t, clr := t\<rparr> else x) (g_threads s) = g_threads s"
    by (intro map_idI) auto
  then have eq: "thread_launch K create me p stk ca s1 = Some (s', 0, Some t)"
    using k1 yes(2) td(1,4) by (simp add: thread_launch_def update_thread_def s'_def td'_def)
  have "proc_inv brk_of s' bs1"
    using inv pre brk td other unfolding proc_inv_def
    by (auto simp: s'_def td'_def prepared_def registry_inv_def lock_free_def with_heap_def heap_rel_kern) blast+
  then show ?thesis using eq td by (auto simp: s'_def td'_def)
qed

lemma pid_init_simps [simp]:
  "tls (pid_init me s) = tls s" "g_threads (pid_init me s) = g_threads s" "table (pid_init me s) = table s"
  "proc_inv brk_of (pid_init me s) bs = proc_inv brk_of s bs"
  by (simp_all add: pid_init_def proc_inv_def lock_free_def registry_inv_def)

lemma prepared_pid_init [simp]: "prepared brk_of (pid_init me s) bs = prepared brk_of s bs"
  by (auto simp: prepared_def fun_eq_iff pid_init_def)

text \<open>The conditions under which \<open>pthread_create\<close> is called: a well-formed process, a kernel that keeps
  its laws, and a mapping (if one is given) that overlaps no stack in use.\<close>

definition create_ready ::
  "'k kernel \<Rightarrow> (thread_create_arg \<Rightarrow> 'k \<Rightarrow> 'k \<times> int) \<Rightarrow> ('k \<Rightarrow> nat) \<Rightarrow> 'k pthreads \<Rightarrow> blk list \<Rightarrow> bool" where
  "create_ready K create brk_of s bs \<longleftrightarrow> proc_inv brk_of s bs \<and> brk_law K brk_of \<and> spares_brk K create brk_of \<and>
     total_size (layout (tls s)) \<le> 2147483648 \<and>
     (let stk = snd (sys_mmap K (kern (heap_of s)) DEFAULT_STACK_SIZE)
      in stk \<noteq> 0 \<and> (stk = UINTPTR_MAX \<or> stk + DEFAULT_STACK_SIZE < 2 ^ 32) \<and>
         (\<forall>(l, h, b) \<in> ranges (table s). {l..<h} \<inter> {stk..<stk + DEFAULT_STACK_SIZE} = {}))"

lemma create_prepared:
  assumes "create_ready K create brk_of s bs" "start_routine \<noteq> 0" "\<not> refuses attr"
  obtains s1 bs1 where "pthread_create K create stub me True attr start_routine a s = Some (s1, EAGAIN, None)"
    "proc_inv brk_of s1 bs1" "live bs1 = live bs" "g_threads s1 = g_threads s" "table s1 = table s"
  | s1 bs1 p stk ca where "prepared brk_of s bs s1 bs1 p stk"
    "pthread_create K create stub me True attr start_routine a s = thread_launch K create me p stk ca s1"
proof -
  obtain k1 stk where stk: "sys_mmap K (kern (heap_of s)) DEFAULT_STACK_SIZE = (k1, stk)" by force
  have r: "proc_inv brk_of (pid_init me s) bs" "brk_law K brk_of" "spares_brk K create brk_of"
    "total_size (layout (tls (pid_init me s))) \<le> 2147483648"
    "sys_mmap K (kern (heap_of (pid_init me s))) DEFAULT_STACK_SIZE = (k1, stk)" "stk \<noteq> 0"
    "stk = UINTPTR_MAX \<or> stk + DEFAULT_STACK_SIZE < 2 ^ 32"
    "\<forall>(l, h, b) \<in> ranges (table (pid_init me s)). {l..<h} \<inter> {stk..<stk + DEFAULT_STACK_SIZE} = {}"
    using assms(1) stk by (auto simp: create_ready_def Let_def)
  obtain s1 q bs1 where prep: "thread_prepare K stub me start_routine a (pid_init me s) = Some (s1, q)"
    and cs: "q = None \<and> proc_inv brk_of s1 bs1 \<and> live bs1 = live bs \<and> g_threads s1 = g_threads s \<and> table s1 = table s \<or>
     (\<exists>p ca. q = Some (p, stk, ca) \<and> prepared brk_of s bs s1 bs1 p stk)"
    using thread_prepare_spec [OF r, where ?stub = stub and ?me = me and ?start_routine = start_routine and ?a = a]
    by auto
  have eq: "pthread_create K create stub me True attr start_routine a s =
      (case q of None \<Rightarrow> Some (s1, EAGAIN, None) | Some (p, stk, ca) \<Rightarrow> thread_launch K create me p stk ca s1)"
    using assms(2,3) prep by (simp add: pthread_create_def)
  from cs show thesis
  proof
    assume "q = None \<and> proc_inv brk_of s1 bs1 \<and> live bs1 = live bs \<and> g_threads s1 = g_threads s \<and> table s1 = table s"
    then show thesis using eq that(1) [of s1 bs1] by simp
  next
    assume "\<exists>p ca. q = Some (p, stk, ca) \<and> prepared brk_of s bs s1 bs1 p stk"
    then show thesis using eq that(2) by auto
  qed
qed

lemma create_refused:
  assumes ready: "create_ready K create brk_of s bs" and args: "start_routine \<noteq> 0" "\<not> refuses attr"
    and no: "\<And>ca k. snd (create ca k) \<le> 0"
  shows "\<exists>s' bs'. pthread_create K create stub me True attr start_routine a s = Some (s', EAGAIN, None) \<and>
    proc_inv brk_of s' bs' \<and> g_threads s' = g_threads s \<and> ranges (table s') = ranges (table s) \<and> live bs \<subseteq> live bs'"
proof (rule create_prepared [OF ready args, of stub me a])
  fix s1 bs1 p stk ca
  assume *: "prepared brk_of s bs s1 bs1 p stk"
    "pthread_create K create stub me True attr start_routine a s = thread_launch K create me p stk ca s1"
  then show ?thesis
    using thread_launch_refused [OF _ *(1) _ no] ready by (simp add: create_ready_def)
qed auto

text \<open>A thread that has ended: its join word is 0 and its result is stored.\<close>

definition ended :: "nat \<Rightarrow> nat \<Rightarrow> 'k pthreads \<Rightarrow> 'k pthreads" where
  "ended p v s = update_thread p (\<lambda>t. t\<lparr>clr := 0, retval := v, has_result := True\<rparr>) s"

lemma join_ended:
  assumes inv: "proc_inv brk_of s bs" and t: "g_threads s = td # ts" "tid td = t" "0 < t" "clr td = 0"
    and spare: "spares_brk K create brk_of"
  shows "\<exists>s' bs'. pthread_join K as me t s = Some (s', 0, Some (retval td)) \<and> proc_inv brk_of s' bs' \<and> g_threads s' = ts \<and>
    ranges (table s') = {(l, h, b) \<in> ranges (table s). b \<noteq> self td + TLS_AT} \<and>
    (\<exists>n. live bs' = live bs - {(self td, n)})"
proof -
  define s5 where "s5 = s\<lparr>g_threads := ts, g_lock := PTHREAD_MUTEX_INITIALIZER, table := cact_tlocal_unregister (self td + TLS_AT) (table s)\<rparr>"
  obtain n where n: "(self td, n) \<in> live bs" using inv t(1) by (auto simp: proc_inv_def)
  have rel: "heap_rel brk_of (heap_of s5) bs" using inv by (simp add: proc_inv_def s5_def)
  obtain h6 bs6 where h6: "free K (self td) (heap_of s5) = Some h6" "heap_rel brk_of h6 bs6" "live bs6 = live bs - {(self td, n)}"
    using free_spec [OF rel n, of K] by blast
  define h7 where "h7 = (if stack td \<noteq> 0 then h6\<lparr>kern := sys_munmap K (kern h6) (stack td) (stack_size td)\<rparr> else h6)"
  have "join_wait as (clr td) = Some 0" using t(4) by (subst join_wait.simps) simp
  then have eq: "pthread_join K as me t s = Some (with_heap h7 s5, 0, Some (retval td))"
    using inv t h6(1)
    by (simp add: pthread_join_def find_by_id_locked_def proc_inv_def s5_def h7_def lock_free_def locked_state_def EINTR_def Let_def)
  have rel7: "heap_rel brk_of h7 bs6" using h6(2) spare by (simp add: h7_def spares_brk_def heap_rel_kern)
  have tb: "table_inv (table s5)" "ranges (table s5) = {(l, h, b) \<in> ranges (table s). b \<noteq> self td + TLS_AT}"
    using unregister_spec [of "table s" "self td + TLS_AT"] inv by (auto simp: proc_inv_def s5_def TLS_AT_def)
  have "self td \<notin> self ` set ts" using inv t(1) by (simp add: proc_inv_def registry_inv_def)
  then have other: "self x \<noteq> self td" if "x \<in> set ts" for x using that by (metis imageI)
  have lv: "\<exists>n. (self x, n) \<in> live bs6" if x: "x \<in> set ts" for x
  proof -
    obtain m where "(self x, m) \<in> live bs" using x inv t(1) by (auto simp: proc_inv_def)
    then show ?thesis using other [OF x] h6(3) by auto
  qed
  have own: "\<exists>x \<in> set ts. b = self x + TLS_AT" if "(l, h, b) \<in> ranges (table s5)" for l h b
    using that inv t(1) unfolding tb(2) by (auto simp: proc_inv_def)
  have "registry_inv s5" "lock_free s5" using inv t(1) by (auto simp: proc_inv_def registry_inv_def lock_free_def s5_def)
  moreover have "g_threads s5 = ts" by (simp add: s5_def)
  ultimately have "proc_inv brk_of (with_heap h7 s5) bs6"
    using rel7 tb(1) lv own unfolding proc_inv_def by auto
  then show ?thesis using eq tb h6(3) by (auto simp: s5_def)
qed

lemma create_join:
  assumes ready: "create_ready K create brk_of s bs" and args: "start_routine \<noteq> 0" "\<not> refuses attr"
    and yes: "\<And>ca k. snd (create ca k) = int t" "0 < t"
    and made: "pthread_create K create stub me True attr start_routine a s = Some (s1, 0, Some t')"
  shows "t' = t \<and> (\<exists>td. g_threads s1 = td # g_threads s \<and> tid td = t \<and> clr td = t \<and>
    (\<exists>s2 bs2. pthread_join K [] me t (ended (self td) v s1) = Some (s2, 0, Some v) \<and> proc_inv brk_of s2 bs2 \<and>
       g_threads s2 = g_threads s \<and> ranges (table s2) = ranges (table s) \<and> live bs \<subseteq> live bs2))"
proof (rule create_prepared [OF ready args, of stub me a])
  fix s1' bs1
  assume "pthread_create K create stub me True attr start_routine a s = Some (s1', EAGAIN, None)"
  then show ?thesis using made by simp
next
  fix s0 bs1 p stk ca
  assume pre: "prepared brk_of s bs s0 bs1 p stk"
    and eq: "pthread_create K create stub me True attr start_routine a s = thread_launch K create me p stk ca s0"
  have inv: "proc_inv brk_of s bs" and sp: "spares_brk K create brk_of" using ready by (simp_all add: create_ready_def)
  obtain td where l: "t' = t" "proc_inv brk_of s1 bs1" "g_threads s1 = td # g_threads s" "self td = p" "tid td = t"
    "clr td = t" "stack td = stk" "table s1 = table s0"
    using thread_launch_started [OF inv pre sp yes, where ?me = me and ?ca = ca] made eq by auto
  define td2 where "td2 = td\<lparr>clr := 0, retval := v, has_result := True\<rparr>"
  have "self x \<noteq> p" if "x \<in> set (g_threads s)" for x
    using that inv pre by (auto simp: proc_inv_def prepared_def)
  then have "map (\<lambda>x. if self x = p then x\<lparr>clr := 0, retval := v, has_result := True\<rparr> else x) (g_threads s) = g_threads s"
    by (intro map_idI) auto
  then have e: "ended (self td) v s1 = s1\<lparr>g_threads := td2 # g_threads s\<rparr>"
    using l(3,4) by (simp add: ended_def update_thread_def td2_def)
  have "proc_inv brk_of (ended (self td) v s1) bs1"
    using l(2,3) by (auto simp: proc_inv_def e td2_def registry_inv_def lock_free_def)
  from join_ended [OF this, of td2 "g_threads s" t K create "[]" me] obtain s2 bs2 n where
    j: "pthread_join K [] me t (ended (self td) v s1) = Some (s2, 0, Some v)" "proc_inv brk_of s2 bs2"
      "g_threads s2 = g_threads s" "ranges (table s2) = {(l, h, b) \<in> ranges (table s0). b \<noteq> p + TLS_AT}"
      "live bs2 = live bs1 - {(p, n)}"
    using l yes(2) sp by (auto simp: e td2_def)
  have "b \<noteq> p + TLS_AT" if "(x, h, b) \<in> ranges (table s)" for x h b
    using that inv pre by (fastforce simp: proc_inv_def prepared_def)
  then have "ranges (table s2) = ranges (table s)" using j(4) pre by (auto simp: prepared_def)
  moreover have "live bs \<subseteq> live bs2" using j(5) pre by (auto simp: prepared_def)
  ultimately show ?thesis using l j by blast
qed

text \<open>A kernel that starts the thread: the call succeeds, or there was no memory and nothing has changed.\<close>

lemma create_outcome:
  assumes ready: "create_ready K create brk_of s bs" and args: "start_routine \<noteq> 0" "\<not> refuses attr"
    and yes: "\<And>ca k. snd (create ca k) = int t" "0 < t"
  shows "\<exists>s1. pthread_create K create stub me True attr start_routine a s = Some (s1, EAGAIN, None) \<and>
      g_threads s1 = g_threads s \<and> table s1 = table s \<or>
    pthread_create K create stub me True attr start_routine a s = Some (s1, 0, Some t)"
proof (rule create_prepared [OF ready args, of stub me a])
  fix s0 bs1 p stk ca
  assume "pthread_create K create stub me True attr start_routine a s = thread_launch K create me p stk ca s0"
  moreover obtain k1 where "create ca (kern (heap_of s0)) = (k1, int t)" using yes(1) by (metis prod.collapse)
  then have "\<exists>s1. thread_launch K create me p stk ca s0 = Some (s1, 0, Some t)" using yes(2) by (simp add: thread_launch_def)
  ultimately show ?thesis by auto
next
  fix s1 bs1
  assume "pthread_create K create stub me True attr start_routine a s = Some (s1, EAGAIN, None)"
    "g_threads s1 = g_threads s" "table s1 = table s"
  then show ?thesis by auto
qed

end
