(* ===== verification/Cact_Env.thy ===== *)
theory Cact_Env
  imports Cact_Errno Cact_Allocator
begin

text \<open>
  The environment: \<open>src/env.c\<close> and \<open>getenv\<close> of \<open>src/stdlib.c\<close>.  The strings are in the byte
  memory of the heap; the pointer array at an address is a typed store, the list of the entries
  before its null.  The lemmas relate the operations to the list of the strings.
\<close>

section \<open>Operations\<close>

record 'k env =
  eheap :: "'k heap"
  environ :: nat
  arrays :: "nat \<Rightarrow> nat list"
  env_owned :: bool

abbreviation emem :: "'k env \<Rightarrow> mem" where
  "emem s \<equiv> dat (eheap s)"

definition cact_init_env :: "nat \<Rightarrow> 'k env \<Rightarrow> 'k env" where
  "cact_init_env envp s = (if envp \<noteq> 0 \<and> environ s = 0 then s\<lparr>environ := envp, env_owned := False\<rparr> else s)"

definition entries :: "'k env \<Rightarrow> nat list" where
  "entries s = (if environ s \<noteq> 0 then arrays s (environ s) else [])"

definition env_count :: "'k env \<Rightarrow> nat" where
  "env_count s = length (entries s)"

text \<open>\<open>environ[i]\<close> begins with the \<open>nlen\<close> bytes of the name and a \<open>=\<close> follows.\<close>

definition names :: "mem \<Rightarrow> nat \<Rightarrow> nat \<Rightarrow> nat \<Rightarrow> bool" where
  "names m name nlen e \<longleftrightarrow> strncmp m e name nlen = 0 \<and> m (e + nlen) = CHR ''=''"

fun env_find_loop :: "mem \<Rightarrow> nat \<Rightarrow> nat \<Rightarrow> nat list \<Rightarrow> nat \<Rightarrow> nat option" where
  "env_find_loop m name nlen [] i = None"
| "env_find_loop m name nlen (e # es) i =
     (if names m name nlen e then Some i else env_find_loop m name nlen es (Suc i))"

definition env_find :: "nat \<Rightarrow> nat \<Rightarrow> 'k env \<Rightarrow> nat option" where
  "env_find name nlen s = env_find_loop (emem s) name nlen (entries s) 0"

definition getenv :: "nat \<Rightarrow> 'k env \<Rightarrow> nat option" where
  "getenv name s =
     (if name = 0 \<or> emem s name = NUL then Some 0
      else do {
        n \<leftarrow> strlen (emem s) name;
        case env_find_loop (emem s) name n (entries s) 0 of
          Some i \<Rightarrow> Some (entries s ! i + n + 1)
        | None \<Rightarrow> Some 0
      })"

text \<open>The check that \<open>setenv\<close> and \<open>unsetenv\<close> begin with.\<close>

definition bad_name :: "mem \<Rightarrow> nat \<Rightarrow> bool option" where
  "bad_name m name =
     (if name = 0 then Some True
      else if m name = NUL then Some True
      else do { r \<leftarrow> strchr m name (uchar CHR ''=''); Some (r \<noteq> 0) })"

definition set_errno :: "int \<Rightarrow> 'k env \<Rightarrow> 'k env" where
  "set_errno e s = s\<lparr>eheap := (eheap s)\<lparr>errno := e\<rparr>\<rparr>"

text \<open>The shifting loop: the entry is taken out of the array.\<close>

definition env_remove :: "nat \<Rightarrow> 'k env \<Rightarrow> 'k env" where
  "env_remove i s = s\<lparr>arrays := (arrays s)(environ s := take i (entries s) @ drop (Suc i) (entries s))\<rparr>"

definition unsetenv :: "nat \<Rightarrow> 'k env \<Rightarrow> ('k env \<times> int) option" where
  "unsetenv name s = do {
     bad \<leftarrow> bad_name (emem s) name;
     if bad then Some (set_errno EINVAL s, -1)
     else do {
       nlen \<leftarrow> strlen (emem s) name;
       case env_find name nlen s of
         None \<Rightarrow> Some (s, 0)
       | Some i \<Rightarrow> Some (env_remove i s, 0)
     }
   }"

text \<open>A longer array with one more entry replaces the old one, which is freed if it was allocated
  here.  The result is \<open>False\<close> when there is no memory.\<close>

definition env_append :: "'k kernel \<Rightarrow> nat \<Rightarrow> 'k env \<Rightarrow> ('k env \<times> bool) option" where
  "env_append K e s = do {
     let n = env_count s;
     (h1, ne) \<leftarrow> malloc K (4 * (n + 2)) (eheap s);
     if ne = 0 then Some (s\<lparr>eheap := h1\<rparr>, False)
     else do {
       h2 \<leftarrow> (if env_owned s \<and> environ s \<noteq> 0 then free K (environ s) h1 else Some h1);
       Some (s\<lparr>eheap := h2, arrays := (arrays s)(ne := entries s @ [e]), environ := ne, env_owned := True\<rparr>, True)
     }
   }"

definition setenv :: "'k kernel \<Rightarrow> nat \<Rightarrow> nat \<Rightarrow> bool \<Rightarrow> 'k env \<Rightarrow> ('k env \<times> int) option" where
  "setenv K name value overwrite s = do {
     bad \<leftarrow> bad_name (emem s) name;
     if bad then Some (set_errno EINVAL s, -1)
     else do {
       nlen \<leftarrow> strlen (emem s) name;
       let i = env_find name nlen s;
       if i \<noteq> None \<and> \<not> overwrite then Some (s, 0)
       else do {
         vlen \<leftarrow> (if value = 0 then Some 0 else strlen (emem s) value);
         (h1, e) \<leftarrow> malloc K (nlen + vlen + 2) (eheap s);
         if e = 0 then Some (set_errno ENOMEM (s\<lparr>eheap := h1\<rparr>), -1)
         else do {
           let m1 = memcpy (dat h1) e name nlen;
           let m2 = m1(e + nlen := CHR ''='');
           let m3 = (if value = 0 then store m2 (e + nlen + 1) [NUL] else memcpy m2 (e + nlen + 1) value (vlen + 1));
           let s1 = s\<lparr>eheap := h1\<lparr>dat := m3\<rparr>\<rparr>;
           case i of
             Some k \<Rightarrow> Some (s1\<lparr>arrays := (arrays s1)(environ s1 := (entries s1)[k := e])\<rparr>, 0)
           | None \<Rightarrow> do {
               (s2, ok) \<leftarrow> env_append K e s1;
               if ok then Some (s2, 0)
               else do {
                 h3 \<leftarrow> free K e (eheap s2);
                 Some (set_errno ENOMEM (s2\<lparr>eheap := h3\<rparr>), -1)
               }
             }
         }
       }
     }
   }"

definition putenv :: "'k kernel \<Rightarrow> nat \<Rightarrow> 'k env \<Rightarrow> ('k env \<times> int) option" where
  "putenv K str s =
     (if str = 0 then Some (set_errno EINVAL s, -1)
      else do {
        eq \<leftarrow> strchr (emem s) str (uchar CHR ''='');
        if eq = 0 then do {
          nlen \<leftarrow> strlen (emem s) str;
          case env_find str nlen s of
            None \<Rightarrow> Some (s, 0)
          | Some i \<Rightarrow> Some (env_remove i s, 0)
        }
        else
          case env_find str (eq - str) s of
            Some i \<Rightarrow> Some (s\<lparr>arrays := (arrays s)(environ s := (entries s)[i := str])\<rparr>, 0)
          | None \<Rightarrow> do {
              (s1, ok) \<leftarrow> env_append K str s;
              if ok then Some (s1, 0) else Some (set_errno ENOMEM s1, -1)
            }
      })"

section \<open>The environment as a list of strings\<close>

definition binds :: "string \<Rightarrow> string \<Rightarrow> bool" where
  "binds n x \<longleftrightarrow> take (length n) x = n \<and> at x (length n) = CHR ''=''"

fun position :: "('a \<Rightarrow> bool) \<Rightarrow> 'a list \<Rightarrow> nat \<Rightarrow> nat option" where
  "position P [] i = None"
| "position P (x # xs) i = (if P x then Some i else position P xs (Suc i))"

definition env_lookup :: "string \<Rightarrow> string list \<Rightarrow> string option" where
  "env_lookup n xs = map_option (\<lambda>x. drop (Suc (length n)) x) (find (binds n) xs)"

definition env_assign :: "string \<Rightarrow> string \<Rightarrow> string list \<Rightarrow> string list" where
  "env_assign n v xs = (case position (binds n) xs 0 of
     Some i \<Rightarrow> xs[i := n @ CHR ''='' # v] | None \<Rightarrow> xs @ [n @ CHR ''='' # v])"

definition env_erase :: "string \<Rightarrow> string list \<Rightarrow> string list" where
  "env_erase n xs = (case position (binds n) xs 0 of Some i \<Rightarrow> take i xs @ drop (Suc i) xs | None \<Rightarrow> xs)"

text \<open>The laws of the list: assignment is what lookup sees, other names are not affected.\<close>

definition env_name :: "string \<Rightarrow> bool" where
  "env_name n \<longleftrightarrow> n \<noteq> [] \<and> CHR ''='' \<notin> set n \<and> NUL \<notin> set n"

lemma binds_new: "binds n (n @ CHR ''='' # v)"
  by (simp add: binds_def at_def nth_append)

lemma take_eq_prefix: "take (length n) x = n \<Longrightarrow> \<exists>y. x = n @ y"
  by (metis append_take_drop_id)

lemma binds_iff: "binds n x \<longleftrightarrow> (\<exists>v. x = n @ CHR ''='' # v)"
proof
  assume b: "binds n x"
  then obtain y where x: "x = n @ y" using take_eq_prefix by (auto simp: binds_def)
  then show "\<exists>v. x = n @ CHR ''='' # v" using b by (cases y) (auto simp: binds_def at_def nth_append split: if_splits)
qed (auto simp: binds_new)

lemma binds_unique:
  assumes "binds n x" "binds n' x" "CHR ''='' \<notin> set n" "CHR ''='' \<notin> set n'"
  shows "n = n'"
proof -
  have tw: "takeWhile (\<lambda>c. c \<noteq> CHR ''='') (m @ CHR ''='' # v) = m" if "CHR ''='' \<notin> set m" for m v
    using that by (subst takeWhile_append2) auto
  obtain v where v: "x = n @ CHR ''='' # v" using assms(1) by (auto simp: binds_iff)
  obtain v' where v': "x = n' @ CHR ''='' # v'" using assms(2) by (auto simp: binds_iff)
  show ?thesis using tw [OF assms(3), of v] tw [OF assms(4), of v'] unfolding v [symmetric] v' [symmetric] by simp
qed

lemma position_find:
  "position P xs k = Some i \<Longrightarrow> k \<le> i \<and> i - k < length xs \<and> P (xs ! (i - k)) \<and> (\<forall>j < i - k. \<not> P (xs ! j)) \<and>
     find P xs = Some (xs ! (i - k))"
proof (induction P xs k rule: position.induct)
  case (2 P x xs k)
  show ?case
  proof (cases "P x")
    case False
    then have *: "Suc k \<le> i \<and> i - Suc k < length xs \<and> P (xs ! (i - Suc k)) \<and> (\<forall>j < i - Suc k. \<not> P (xs ! j)) \<and>
        find P xs = Some (xs ! (i - Suc k))" using 2 by simp
    then obtain d where "i = Suc (k + d)" by (metis add_Suc le_Suc_ex)
    then show ?thesis using * False by (auto simp: less_Suc_eq_0_disj)
  qed (use 2 in auto)
qed simp

lemma position_None: "position P xs k = None \<longleftrightarrow> (\<forall>x \<in> set xs. \<not> P x)"
  by (induction P xs k rule: position.induct) auto

lemma find_first: "i < length xs \<Longrightarrow> P (xs ! i) \<Longrightarrow> \<forall>j < i. \<not> P (xs ! j) \<Longrightarrow> find P xs = Some (xs ! i)"
proof (induction xs arbitrary: i)
  case (Cons x xs)
  then show ?case by (cases i) fastforce+
qed simp

lemma find_append_None: "find P xs = None \<Longrightarrow> find P (xs @ ys) = find P ys"
  by (induction xs) (auto split: if_splits)

lemma env_lookup_assign:
  assumes "CHR ''='' \<notin> set n"
  shows "env_lookup n (env_assign n v xs) = Some v"
proof (cases "position (binds n) xs 0")
  case None
  then have "find (binds n) xs = None" by (simp add: position_None find_None_iff)
  then show ?thesis using None by (simp add: env_lookup_def env_assign_def find_append_None binds_new)
next
  case (Some i)
  then have i: "i < length xs" "\<forall>j < i. \<not> binds n (xs ! j)" using position_find [OF Some] by auto
  have "find (binds n) (xs[i := n @ CHR ''='' # v]) = Some (xs[i := n @ CHR ''='' # v] ! i)"
    using i binds_new by (intro find_first) auto
  then show ?thesis using Some i(1) by (simp add: env_lookup_def env_assign_def)
qed

lemma find_update_other:
  "i < length xs \<Longrightarrow> \<not> P (xs ! i) \<Longrightarrow> \<not> P y \<Longrightarrow> find P (xs[i := y]) = find P xs"
proof (induction xs arbitrary: i)
  case (Cons x xs)
  then show ?case by (cases i) auto
qed simp

lemma find_remove_other:
  "i < length xs \<Longrightarrow> \<not> P (xs ! i) \<Longrightarrow> find P (take i xs @ drop (Suc i) xs) = find P xs"
proof (induction xs arbitrary: i)
  case (Cons x xs)
  then show ?case by (cases i) auto
qed simp

lemma env_lookup_assign_other:
  assumes "n \<noteq> n'" "CHR ''='' \<notin> set n" "CHR ''='' \<notin> set n'"
  shows "env_lookup n' (env_assign n v xs) = env_lookup n' xs"
proof (cases "position (binds n) xs 0")
  case None
  have "\<not> binds n' (n @ CHR ''='' # v)" using binds_unique binds_new assms by blast
  then have "find (binds n') (xs @ [n @ CHR ''='' # v]) = find (binds n') xs" by (induction xs) auto
  then show ?thesis using None by (simp add: env_lookup_def env_assign_def)
next
  case (Some i)
  have "\<not> binds n' (xs ! i)" "\<not> binds n' (n @ CHR ''='' # v)"
    using position_find [OF Some] binds_unique [of n _ n'] binds_new assms by force+
  then show ?thesis using Some position_find [OF Some] by (simp add: env_lookup_def env_assign_def find_update_other)
qed

lemma env_lookup_erase_other:
  assumes "n \<noteq> n'" "CHR ''='' \<notin> set n" "CHR ''='' \<notin> set n'"
  shows "env_lookup n' (env_erase n xs) = env_lookup n' xs"
proof (cases "position (binds n) xs 0")
  case (Some i)
  have "\<not> binds n' (xs ! i)" using position_find [OF Some] binds_unique assms by auto
  then show ?thesis using Some position_find [OF Some] by (simp add: env_lookup_def env_erase_def find_remove_other)
qed (simp add: env_erase_def)

text \<open>Where a name is bound once, erasing it makes it unbound.\<close>

lemma env_lookup_erase:
  assumes "length (filter (binds n) xs) \<le> 1"
  shows "env_lookup n (env_erase n xs) = None"
proof (cases "position (binds n) xs 0")
  case None
  then have "find (binds n) xs = None" by (simp add: position_None find_None_iff)
  then show ?thesis using None by (simp add: env_erase_def env_lookup_def)
next
  case (Some i)
  note i = position_find [OF Some]
  have "xs = take i xs @ xs ! i # drop (Suc i) xs" using i by (simp add: id_take_nth_drop)
  then have "length (filter (binds n) (take i xs)) + length (filter (binds n) (xs ! i # drop (Suc i) xs)) \<le> 1"
    using assms by (metis filter_append length_append)
  then have "filter (binds n) (take i xs @ drop (Suc i) xs) = []" using i by auto
  then have "find (binds n) (take i xs @ drop (Suc i) xs) = None" unfolding find_None_iff filter_empty_conv by blast
  then show ?thesis using Some by (simp add: env_erase_def env_lookup_def)
qed

section \<open>The operations refine the list\<close>

text \<open>The environment of the state is the list of strings.  Each string lies in a block of the program
  other than the array itself, or beyond the heap (on the exec stack), where the allocator never
  writes.\<close>

definition kept :: "(nat \<times> nat) set \<Rightarrow> nat \<Rightarrow> nat set" where
  "kept L lim = area L \<union> {lim..}"

definition string_blocks :: "'k env \<Rightarrow> blk list \<Rightarrow> (nat \<times> nat) set" where
  "string_blocks s bs = (if env_owned s then {(p, n) \<in> live bs. p \<noteq> environ s} else live bs)"

definition env_rel :: "('k \<Rightarrow> nat) \<Rightarrow> nat \<Rightarrow> 'k env \<Rightarrow> blk list \<Rightarrow> string list \<Rightarrow> bool" where
  "env_rel brk_of lim s bs xs \<longleftrightarrow> heap_rel brk_of (eheap s) bs \<and> list_all2 (cstr (emem s)) (entries s) xs \<and>
     (\<forall>(e, x) \<in> set (zip (entries s) xs). {e..e + length x} \<subseteq> kept (string_blocks s bs) lim) \<and>
     (env_owned s \<and> environ s \<noteq> 0 \<longrightarrow> (\<exists>n. (environ s, n) \<in> live bs))"

lemma names_binds:
  assumes "cstr m e x" "cstr m name y" "take (length n) y = n"
  shows "names m name (length n) e \<longleftrightarrow> binds n x"
proof -
  have nn: "NUL \<notin> set (take (length n) x)" "NUL \<notin> set n"
    using cstr_no_NUL [OF assms(1)] cstr_no_NUL [OF assms(2)] assms(3) by (auto dest: in_set_takeD) (metis in_set_takeD)
  have "strncmp m e name (length n) = 0 \<longleftrightarrow> take (length n) x = n"
    using strncmp_str [OF assms(1,2), of "length n"] str_cmp_eq_0 [OF nn] assms(3) by simp
  moreover have "m (e + length n) = at x (length n)" if "take (length n) x = n"
  proof -
    have "length n \<le> length x" using that by (metis length_take min.cobounded1)
    then show ?thesis by (rule cstr_at [OF assms(1)])
  qed
  ultimately show ?thesis by (auto simp: names_def binds_def)
qed

lemma env_find_prefix:
  "list_all2 (cstr m) es xs \<Longrightarrow> cstr m name y \<Longrightarrow> take (length n) y = n \<Longrightarrow>
   env_find_loop m name (length n) es k = position (binds n) xs k"
  by (induction es xs arbitrary: k rule: list_all2_induct) (auto simp: names_binds)

lemma env_find_position:
  "list_all2 (cstr m) es xs \<Longrightarrow> cstr m name n \<Longrightarrow> env_find_loop m name (length n) es k = position (binds n) xs k"
  using env_find_prefix [of m es xs name n n k] by simp

lemma getenv_lookup:
  assumes rel: "env_rel brk_of lim s bs xs" and name: "cstr (emem s) name n" "name \<noteq> 0" "env_name n"
  shows "\<exists>r. getenv name s = Some r \<and>
    (case env_lookup n xs of None \<Rightarrow> r = 0 | Some v \<Rightarrow> cstr (emem s) r v)"
proof -
  have es: "list_all2 (cstr (emem s)) (entries s) xs" using rel by (simp add: env_rel_def)
  have ne: "emem s name \<noteq> NUL" using name by (cases n) (auto simp: env_name_def)
  note f = env_find_position [OF es name(1), of 0]
  show ?thesis
  proof (cases "position (binds n) xs 0")
    case None
    then have "find (binds n) xs = None" by (simp add: position_None find_None_iff)
    then show ?thesis using None f name ne by (simp add: getenv_def env_lookup_def)
  next
    case (Some i)
    have i: "i < length xs" "binds n (xs ! i)" "find (binds n) xs = Some (xs ! i)" using position_find [OF Some] by auto
    have c: "cstr (emem s) (entries s ! i) (xs ! i)" using es i(1) by (simp add: list_all2_conv_all_nth)
    have "Suc (length n) \<le> length (xs ! i)" using i(2) by (auto simp: binds_iff)
    then have "cstr (emem s) (entries s ! i + Suc (length n)) (drop (Suc (length n)) (xs ! i))" by (rule cstr_drop [OF c])
    then show ?thesis using Some f name ne i(3) by (simp add: getenv_def env_lookup_def)
  qed
qed

lemma bad_name_ok:
  assumes "cstr m name n" "name \<noteq> 0" "env_name n"
  shows "bad_name m name = Some False"
proof -
  have "m name \<noteq> NUL" using assms by (cases n) (auto simp: env_name_def)
  moreover have "char_of (uchar CHR ''='') = CHR ''=''" "uchar CHR ''='' \<noteq> 0" by simp_all
  ultimately show ?thesis using assms by (simp add: bad_name_def strchr_str env_name_def)
qed

lemma entries_kept:
  assumes "list_all2 (cstr m) es xs" "\<forall>(e, x) \<in> set (zip es xs). {e..e + length x} \<subseteq> W" "unchanged W m m'"
  shows "list_all2 (cstr m') es xs"
  using assms
proof (induction es xs rule: list_all2_induct)
  case (Cons e es x xs)
  then show ?case using cstr_cong [OF unchanged_mono [OF assms(3)], of e x] by auto
qed simp

lemma unsetenv_erase:
  assumes rel: "env_rel brk_of lim s bs xs" and name: "cstr (emem s) name n" "name \<noteq> 0" "env_name n"
  shows "\<exists>s'. unsetenv name s = Some (s', 0) \<and> env_rel brk_of lim s' bs (env_erase n xs)"
proof -
  have es: "list_all2 (cstr (emem s)) (entries s) xs" using rel by (simp add: env_rel_def)
  note f = env_find_position [OF es name(1), of 0]
  show ?thesis
  proof (cases "position (binds n) xs 0")
    case None
    then show ?thesis using rel f bad_name_ok [OF name] name(1) by (auto simp: unsetenv_def env_find_def env_erase_def)
  next
    case (Some i)
    define s' where "s' = env_remove i s"
    have i: "i < length (entries s)" using position_find [OF Some] es by (simp add: list_all2_lengthD)
    then have "environ s \<noteq> 0" by (auto simp: entries_def split: if_splits)
    then have e': "entries s' = take i (entries s) @ drop (Suc i) (entries s)"
      by (simp add: s'_def env_remove_def entries_def)
    have z: "set (zip (entries s') (take i xs @ drop (Suc i) xs)) \<subseteq> set (zip (entries s) xs)"
      using list_all2_lengthD [OF es] unfolding e'
      by (auto simp: zip_append take_zip [symmetric] drop_zip [symmetric] dest: in_set_takeD in_set_dropD)
    have "list_all2 (cstr (emem s)) (entries s') (take i xs @ drop (Suc i) xs)"
      unfolding e' using es by (intro list_all2_appendI list_all2_takeI list_all2_dropI)
    moreover have "eheap s' = eheap s" "string_blocks s' bs = string_blocks s bs" "env_owned s' = env_owned s"
      "environ s' = environ s"
      by (simp_all add: s'_def env_remove_def string_blocks_def)
    ultimately have "env_rel brk_of lim s' bs (env_erase n xs)"
      using rel z Some unfolding env_rel_def env_erase_def by (simp, blast)
    then show ?thesis using Some f bad_name_ok [OF name] name(1) by (auto simp: unsetenv_def env_find_def s'_def)
  qed
qed

text \<open>A new block lies apart from everything that is kept.\<close>

lemma malloc_kept:
  assumes rel: "heap_rel brk_of h bs" and law: "brk_law K brk_of" and sz: "sz \<le> 4294967248" and lim: "\<And>k. brk_of k \<le> lim"
  obtains h' p bs' where "malloc K sz h = Some (h', p)" "dat h' = dat h" "heap_rel brk_of h' bs'"
    "p = 0 \<Longrightarrow> live bs' = live bs"
    "p \<noteq> 0 \<Longrightarrow> \<exists>n. sz \<le> n \<and> kept (live bs) lim \<inter> {p..<p + n} = {} \<and> live bs' = insert (p, n) (live bs) \<and> (\<forall>m. (p, m) \<notin> live bs)"
proof -
  obtain h' p where m: "malloc K sz h = Some (h', p)" "gives brk_of h bs sz h' p" using malloc_spec [OF rel law sz] by blast
  then obtain bs' where bs': "heap_rel brk_of h' bs'" "dat h' = dat h"
    and cs: "p = 0 \<and> live bs' = live bs \<or>
      (\<exists>n. p \<noteq> 0 \<and> sz \<le> n \<and> 8 dvd p \<and> live bs' = insert (p, n) (live bs) \<and> (\<forall>m. (p, m) \<notin> live bs))"
    unfolding gives_def by blast
  show thesis
  proof (rule that [OF m(1) bs'(2,1)])
    assume "p \<noteq> 0"
    then obtain n where n: "sz \<le> n" "live bs' = insert (p, n) (live bs)" "\<forall>m. (p, m) \<notin> live bs" using cs by auto
    obtain s where s: "tiled s bs' (brk_of (kern h'))" using bs'(1) by (auto elim: heap_relD)
    have "p + n \<le> lim" using live_in_heap [OF s, of p n] n(2) lim [of "kern h'"] by auto
    moreover have "area (live bs) \<inter> {p..<p + n} = {}"
      using n(2,3) by (intro area_disjoint [OF bs'(1)]) auto
    ultimately show "\<exists>n. sz \<le> n \<and> kept (live bs) lim \<inter> {p..<p + n} = {} \<and> live bs' = insert (p, n) (live bs) \<and> (\<forall>m. (p, m) \<notin> live bs)"
      using n by (auto simp: kept_def)
  qed (use cs in auto)
qed

lemma kept_mono: "L \<subseteq> M \<Longrightarrow> kept L lim \<subseteq> kept M lim"
  by (auto simp: kept_def area_def)

lemma string_blocks_live: "string_blocks s bs \<subseteq> live bs"
  by (auto simp: string_blocks_def)

text \<open>The new string \<open>NAME=value\<close>.\<close>

lemma new_string:
  assumes n: "cstr m name n" and v: "cstr m value v"
    and apart: "W \<inter> {e..<e + length n + length v + 2} = {}" "{name..name + length n} \<subseteq> W" "{value..value + length v} \<subseteq> W"
  shows "memcpy ((memcpy m e name (length n))(e + length n := CHR ''='')) (e + length n + 1) value (length v + 1) =
    store m e (n @ CHR ''='' # v @ [NUL])"
proof -
  have "e \<notin> W" "e + length n + 1 \<notin> W" using apart(1) by auto
  then have "e \<notin> {name..name + length n}" "e + length n + 1 \<notin> {value..value + length v}" using apart(2,3) by blast+
  then have d: "e \<le> name \<or> name + length n \<le> e" "e + length n + 1 \<le> value \<or> value + (length v + 1) \<le> e + length n + 1"
    by auto
  have b1: "memcpy m e name (length n) = store m e n"
    using d(1) n by (intro memcpy_bytes) (auto simp: cstr_iff)
  have eq: "(store m e n)(e + length n := CHR ''='') = store m e (n @ [CHR ''=''])" by (simp add: store_snoc')
  have "unchanged {value..value + length v} m (store m e (n @ [CHR ''='']))"
    using apart by (intro unchanged_store) auto
  then have "cstr (store m e (n @ [CHR ''=''])) value v" using v cstr_cong by blast
  then have "bytes (store m e (n @ [CHR ''=''])) value (v @ [NUL])" by (rule cstr_bytes)
  then have "memcpy (store m e (n @ [CHR ''=''])) (e + length n + 1) value (length (v @ [NUL])) =
      store (store m e (n @ [CHR ''=''])) (e + length n + 1) (v @ [NUL])"
    using d(2) by (intro memcpy_bytes) auto
  also have "\<dots> = store m e ((n @ [CHR ''='']) @ (v @ [NUL]))" by (simp add: store_append del: append_assoc)
  finally show ?thesis unfolding b1 eq by simp
qed

lemma env_append_spec:
  assumes rel: "env_rel brk_of lim s bs xs" and law: "brk_law K brk_of" and lim: "\<And>k. brk_of k \<le> lim"
    and e: "cstr (emem s) e x" "{e..e + length x} \<subseteq> kept (string_blocks s bs) lim" and sz: "length xs < 2 ^ 29"
  obtains s' bs' where "env_append K e s = Some (s', True)" "env_rel brk_of lim s' bs' (xs @ [x])" "emem s' = emem s"
  | s' bs' where "env_append K e s = Some (s', False)" "env_rel brk_of lim s' bs' xs" "live bs' = live bs" "emem s' = emem s"
    "environ s' = environ s" "env_owned s' = env_owned s" "arrays s' = arrays s"
proof -
  have hr: "heap_rel brk_of (eheap s) bs" and es: "list_all2 (cstr (emem s)) (entries s) xs" using rel by (auto simp: env_rel_def)
  have len: "env_count s = length xs" using es by (simp add: env_count_def list_all2_lengthD)
  have "4 * (env_count s + 2) \<le> 4294967248" using sz len by simp
  then obtain h1 ne bs1 where m: "malloc K (4 * (env_count s + 2)) (eheap s) = Some (h1, ne)" "dat h1 = emem s" "heap_rel brk_of h1 bs1"
    and no: "ne = 0 \<Longrightarrow> live bs1 = live bs"
    and yes: "ne \<noteq> 0 \<Longrightarrow> \<exists>n. 4 * (env_count s + 2) \<le> n \<and> kept (live bs) lim \<inter> {ne..<ne + n} = {} \<and>
      live bs1 = insert (ne, n) (live bs) \<and> (\<forall>m. (ne, m) \<notin> live bs)"
    using malloc_kept [OF hr law _ lim] by blast
  show thesis
  proof (cases "ne = 0")
    case True
    define s' where "s' = s\<lparr>eheap := h1\<rparr>"
    have "entries s' = entries s" "string_blocks s' bs1 = string_blocks s bs"
      using no [OF True] by (simp_all add: s'_def entries_def string_blocks_def)
    then have "env_rel brk_of lim s' bs1 xs" using rel m no [OF True] by (simp add: env_rel_def s'_def)
    then show thesis using that(2) [of s' bs1] m True no [OF True] by (simp add: env_append_def s'_def Let_def)
  next
    case False
    obtain n where n: "live bs1 = insert (ne, n) (live bs)" "\<forall>m. (ne, m) \<notin> live bs" using yes [OF False] by blast
    define old where "old \<longleftrightarrow> env_owned s \<and> environ s \<noteq> 0"
    obtain h2 bs2 where h2: "(if old then free K (environ s) h1 else Some h1) = Some h2" "heap_rel brk_of h2 bs2" "dat h2 = emem s"
      and l2: "live bs2 = (if old then {(p, n) \<in> live bs1. p \<noteq> environ s} else live bs1)"
    proof (cases old)
      case True
      then obtain k where k: "(environ s, k) \<in> live bs1" using rel n(1) by (auto simp: env_rel_def old_def)
      obtain h2 bs2 where f: "free K (environ s) h1 = Some h2" "heap_rel brk_of h2 bs2" "live bs2 = live bs1 - {(environ s, k)}" "dat h2 = dat h1"
        using free_spec [OF m(3) k, of K] by blast
      obtain t where t: "tiled t bs1 (brk_of (kern h1))" using m(3) by (auto elim: heap_relD)
      have uniq: "j = k" if j: "(environ s, j) \<in> live bs1" for j
      proof (rule ccontr)
        assume "j \<noteq> k"
        then show False using live_disjoint [OF t j k] by auto
      qed
      have "live bs2 = {(p, n) \<in> live bs1. p \<noteq> environ s}" unfolding f(3) using uniq by blast
      then show ?thesis using that [of h2 bs2] f m(2) True by simp
    next
      case False
      then show ?thesis using that [of h1 bs1] m by simp
    qed
    define s' where "s' = s\<lparr>eheap := h2, arrays := (arrays s)(ne := entries s @ [e]), environ := ne, env_owned := True\<rparr>"
    have "string_blocks s bs \<subseteq> string_blocks s' bs2"
      using l2 n by (auto simp: string_blocks_def s'_def old_def split: if_splits)
    then have sub: "kept (string_blocks s bs) lim \<subseteq> kept (string_blocks s' bs2) lim" by (rule kept_mono)
    have "ne \<noteq> environ s" if old using that rel n(2) by (auto simp: env_rel_def old_def)
    then have own: "(ne, n) \<in> live bs2" using l2 n(1) by auto
    have en: "entries s' = entries s @ [e]" using False by (simp add: s'_def entries_def)
    have "list_all2 (cstr (emem s')) (entries s') (xs @ [x])"
      unfolding en using es e(1) h2(3) by (simp add: s'_def list_all2_appendI)
    moreover have "\<forall>(d, y) \<in> set (zip (entries s') (xs @ [x])). {d..d + length y} \<subseteq> kept (string_blocks s' bs2) lim"
      unfolding en using rel e(2) sub list_all2_lengthD [OF es] by (fastforce simp: env_rel_def)
    ultimately have "env_rel brk_of lim s' bs2 (xs @ [x])"
      using h2(2) own by (auto simp: env_rel_def s'_def)
    then show thesis using that(1) [of s' bs2] m False h2(1,3) by (simp add: env_append_def s'_def Let_def old_def)
  qed
qed

text \<open>\<open>set_errno\<close> and a new heap do not touch the environment.\<close>

lemma env_rel_heap:
  assumes "env_rel brk_of lim s bs xs" "heap_rel brk_of h bs'" "dat h = emem s" "live bs' = live bs"
  shows "env_rel brk_of lim (s\<lparr>eheap := h\<rparr>) bs' xs" "env_rel brk_of lim (set_errno c (s\<lparr>eheap := h\<rparr>)) bs' xs"
proof -
  have e: "entries (s\<lparr>eheap := h\<rparr>) = entries s" "string_blocks (s\<lparr>eheap := h\<rparr>) bs' = string_blocks s bs"
    using assms(4) by (simp_all add: entries_def string_blocks_def)
  show r: "env_rel brk_of lim (s\<lparr>eheap := h\<rparr>) bs' xs" using assms e by (simp add: env_rel_def)
  have "heap_rel brk_of (h\<lparr>errno := c\<rparr>) bs'" using assms(2) by (simp add: heap_rel_def chain_rel_def)
  moreover have "entries (s\<lparr>eheap := h\<lparr>errno := c\<rparr>\<rparr>) = entries s"
    "string_blocks (s\<lparr>eheap := h\<lparr>errno := c\<rparr>\<rparr>) bs' = string_blocks s bs"
    using assms(4) by (simp_all add: entries_def string_blocks_def)
  ultimately show "env_rel brk_of lim (set_errno c (s\<lparr>eheap := h\<rparr>)) bs' xs"
    using assms by (simp add: env_rel_def set_errno_def)
qed

text \<open>An entry replaced by another string.\<close>

lemma env_rel_replace:
  assumes rel: "env_rel brk_of lim s bs xs" and i: "i < length xs"
    and e: "cstr (emem s) e x" "{e..e + length x} \<subseteq> kept (string_blocks s bs) lim"
  shows "env_rel brk_of lim (s\<lparr>arrays := (arrays s)(environ s := (entries s)[i := e])\<rparr>) bs (xs[i := x])"
proof -
  define s' where "s' = s\<lparr>arrays := (arrays s)(environ s := (entries s)[i := e])\<rparr>"
  have es: "list_all2 (cstr (emem s)) (entries s) xs" using rel by (simp add: env_rel_def)
  then have i': "i < length (entries s)" using i by (simp add: list_all2_lengthD)
  then have "environ s \<noteq> 0" by (auto simp: entries_def split: if_splits)
  then have en: "entries s' = (entries s)[i := e]" by (simp add: s'_def entries_def)
  have "list_all2 (cstr (emem s)) (entries s') (xs[i := x])" unfolding en using es e(1) by (rule list_all2_update_cong)
  moreover have "set (zip (entries s') (xs[i := x])) \<subseteq> insert (e, x) (set (zip (entries s) xs))"
    unfolding en using set_update_subset_insert [of "zip (entries s) xs" i "(e, x)"] by (simp add: update_zip)
  moreover have "eheap s' = eheap s" "string_blocks s' bs = string_blocks s bs" "env_owned s' = env_owned s" "environ s' = environ s"
    by (simp_all add: s'_def string_blocks_def)
  ultimately have "env_rel brk_of lim s' bs (xs[i := x])"
    using rel e(2) unfolding env_rel_def by (simp, blast)
  then show ?thesis by (simp add: s'_def)
qed

text \<open>\<open>setenv\<close> with a value: the assignment, or an error and the old environment.\<close>

lemma setenv_assign:
  assumes rel: "env_rel brk_of lim s bs xs" and law: "brk_law K brk_of" and lim: "\<And>k. brk_of k \<le> lim"
    and name: "cstr (emem s) name n" "name \<noteq> 0" "env_name n" and vl: "cstr (emem s) value v" "value \<noteq> 0"
    and src: "{name..name + length n} \<subseteq> kept (live bs) lim" "{value..value + length v} \<subseteq> kept (live bs) lim"
    and sz: "length n + length v < 2 ^ 31" "length xs < 2 ^ 29"
    and new: "overwrite \<or> env_lookup n xs = None"
  shows "\<exists>s' bs' r. setenv K name value overwrite s = Some (s', r) \<and>
    (r = 0 \<and> env_rel brk_of lim s' bs' (env_assign n v xs) \<or> r = -1 \<and> env_rel brk_of lim s' bs' xs)"
proof -
  have hr: "heap_rel brk_of (eheap s) bs" and es: "list_all2 (cstr (emem s)) (entries s) xs" using rel by (auto simp: env_rel_def)
  define pos where "pos = position (binds n) xs 0"
  have f: "env_find name (length n) s = pos" using env_find_position [OF es name(1)] by (simp add: env_find_def pos_def)
  have ow: "\<not> (pos \<noteq> None \<and> \<not> overwrite)"
    using new by (auto simp: env_lookup_def find_None_iff pos_def position_None)
  let ?x = "n @ CHR ''='' # v" and ?sz = "length n + length v + 2"
  have "?sz \<le> 4294967248" using sz by simp
  then obtain h1 e bs1 where m: "malloc K ?sz (eheap s) = Some (h1, e)" "dat h1 = emem s" "heap_rel brk_of h1 bs1"
    and no: "e = 0 \<Longrightarrow> live bs1 = live bs"
    and yes: "e \<noteq> 0 \<Longrightarrow> \<exists>k. ?sz \<le> k \<and> kept (live bs) lim \<inter> {e..<e + k} = {} \<and> live bs1 = insert (e, k) (live bs) \<and> (\<forall>m. (e, m) \<notin> live bs)"
    using malloc_kept [OF hr law _ lim] by blast
  show ?thesis
  proof (cases "e = 0")
    case True
    have "setenv K name value overwrite s = Some (set_errno ENOMEM (s\<lparr>eheap := h1\<rparr>), -1)"
      using bad_name_ok [OF name] name(1) vl f ow m(1) True by (simp add: setenv_def Let_def)
    moreover have "env_rel brk_of lim (set_errno ENOMEM (s\<lparr>eheap := h1\<rparr>)) bs1 xs"
      by (rule env_rel_heap(2) [OF rel m(3,2) no [OF True]])
    ultimately show ?thesis by blast
  next
    case False
    obtain k where k: "?sz \<le> k" "kept (live bs) lim \<inter> {e..<e + k} = {}" "live bs1 = insert (e, k) (live bs)" "\<forall>m. (e, m) \<notin> live bs"
      using yes [OF False] by blast
    have ap: "kept (live bs) lim \<inter> {e..<e + ?sz} = {}" using k(1,2) by auto
    define m3 where "m3 = store (emem s) e (?x @ [NUL])"
    define s1 where "s1 = s\<lparr>eheap := h1\<lparr>dat := m3\<rparr>\<rparr>"
    have m3: "memcpy ((memcpy (emem s) e name (length n))(e + length n := CHR ''='')) (e + length n + 1) value (length v + 1) = m3"
      using new_string [OF name(1) vl(1) _ src, of e] ap by (simp add: m3_def add.assoc)
    have un: "unchanged (kept (live bs) lim) (emem s) m3" unfolding m3_def using ap by (intro unchanged_store) (simp add: add.assoc)
    have sb: "string_blocks s1 bs1 = insert (e, k) (string_blocks s bs)"
      using k(3,4) rel False by (auto simp: string_blocks_def s1_def env_rel_def)
    have sub: "kept (string_blocks s bs) lim \<subseteq> kept (string_blocks s1 bs1) lim" unfolding sb by (intro kept_mono) blast
    have "kept (string_blocks s bs) lim \<subseteq> kept (live bs) lim" by (intro kept_mono string_blocks_live)
    then have c3: "list_all2 (cstr m3) (entries s) xs"
      using rel un by (intro entries_kept [OF es, of "kept (string_blocks s bs) lim"]) (auto simp: env_rel_def intro: unchanged_mono)
    have "entries s1 = entries s" "eheap s1 = h1\<lparr>dat := m3\<rparr>" "environ s1 = environ s" "env_owned s1 = env_owned s"
      by (simp_all add: s1_def entries_def)
    then have r1: "env_rel brk_of lim s1 bs1 xs"
      using rel c3 m(3) sub k(3) unfolding env_rel_def by (simp, blast)
    have "NUL \<notin> set ?x" using cstr_no_NUL [OF name(1)] cstr_no_NUL [OF vl(1)] by auto
    then have ce: "cstr (emem s1) e ?x" using cstr_store [of ?x "emem s" e] by (simp add: s1_def m3_def)
    have ke: "{e..e + length ?x} \<subseteq> kept (string_blocks s1 bs1) lim"
      using k(1) unfolding sb by (auto simp: kept_def area_def)
    show ?thesis
    proof (cases pos)
      case (Some i)
      have "setenv K name value overwrite s = Some (s1\<lparr>arrays := (arrays s1)(environ s1 := (entries s1)[i := e])\<rparr>, 0)"
        using bad_name_ok [OF name] name(1) vl f ow m False m3 Some by (simp add: setenv_def Let_def s1_def)
      moreover have "i < length xs" using position_find Some unfolding pos_def by fastforce
      then have "env_rel brk_of lim (s1\<lparr>arrays := (arrays s1)(environ s1 := (entries s1)[i := e])\<rparr>) bs1 (xs[i := ?x])"
        by (rule env_rel_replace [OF r1 _ ce ke])
      ultimately show ?thesis using Some by (auto simp: env_assign_def pos_def)
    next
      case None
      then have as: "env_assign n v xs = xs @ [?x]" by (simp add: env_assign_def pos_def)
      have se: "setenv K name value overwrite s = Option.bind (env_append K e s1)
          (\<lambda>(s2, ok). if ok then Some (s2, 0) else Option.bind (free K e (eheap s2))
             (\<lambda>h3. Some (set_errno ENOMEM (s2\<lparr>eheap := h3\<rparr>), -1)))"
        using bad_name_ok [OF name] name(1) vl f ow m False m3 None by (simp add: setenv_def Let_def s1_def)
      show ?thesis
      proof (rule env_append_spec [OF r1 law lim ce ke sz(2)])
        fix s' bs'
        assume "env_append K e s1 = Some (s', True)" "env_rel brk_of lim s' bs' (xs @ [?x])"
        then show ?thesis using se as by auto
      next
        fix s2 bs2
        assume a: "env_append K e s1 = Some (s2, False)" "env_rel brk_of lim s2 bs2 xs" "live bs2 = live bs1" "emem s2 = emem s1"
          "environ s2 = environ s1" "env_owned s2 = env_owned s1" "arrays s2 = arrays s1"
        have h2: "heap_rel brk_of (eheap s2) bs2" "(e, k) \<in> live bs2" using a k(3) by (auto simp: env_rel_def)
        obtain h3 bs3 where h3: "free K e (eheap s2) = Some h3" "heap_rel brk_of h3 bs3" "live bs3 = live bs2 - {(e, k)}" "dat h3 = emem s2"
          using free_spec [OF h2, of K] by blast
        let ?s3 = "set_errno ENOMEM (s2\<lparr>eheap := h3\<rparr>)"
        have l3: "live bs3 = live bs" using h3(3) a(3) k(3,4) by auto
        have "entries ?s3 = entries s" "string_blocks ?s3 bs3 = string_blocks s bs" "emem ?s3 = m3"
          using a l3 h3(4) by (auto simp: entries_def string_blocks_def set_errno_def s1_def)
        moreover have "heap_rel brk_of (eheap ?s3) bs3" using h3(2) by (simp add: set_errno_def heap_rel_def chain_rel_def)
        ultimately have "env_rel brk_of lim ?s3 bs3 xs"
          using rel c3 a l3 by (auto simp: env_rel_def set_errno_def s1_def)
        then show ?thesis using se a(1) h3(1) by auto
      qed
    qed
  qed
qed

text \<open>\<open>putenv\<close> of a string \<open>NAME=value\<close>: the string itself becomes the entry.\<close>

lemma putenv_assign:
  assumes rel: "env_rel brk_of lim s bs xs" and law: "brk_law K brk_of" and lim: "\<And>k. brk_of k \<le> lim"
    and str: "cstr (emem s) str (n @ CHR ''='' # v)" "str \<noteq> 0" "CHR ''='' \<notin> set n"
    and src: "{str..str + length (n @ CHR ''='' # v)} \<subseteq> kept (string_blocks s bs) lim" and sz: "length xs < 2 ^ 29"
  shows "\<exists>s' bs' r. putenv K str s = Some (s', r) \<and>
    (r = 0 \<and> env_rel brk_of lim s' bs' (env_assign n v xs) \<or> r = -1 \<and> env_rel brk_of lim s' bs' xs)"
proof -
  let ?x = "n @ CHR ''='' # v"
  have es: "list_all2 (cstr (emem s)) (entries s) xs" using rel by (simp add: env_rel_def)
  have tw: "takeWhile (\<lambda>c. c \<noteq> CHR ''='') ?x = n" using str(3) by (subst takeWhile_append2) auto
  have "char_of (uchar CHR ''='') = CHR ''=''" by simp
  then have eq: "strchr (emem s) str (uchar CHR ''='') = Some (str + length n)"
    using strchr_str [OF str(1), of "uchar CHR ''=''"] tw by simp
  define pos where "pos = position (binds n) xs 0"
  have f: "env_find str (length n) s = pos" using env_find_prefix [OF es str(1), of n] by (simp add: env_find_def pos_def)
  show ?thesis
  proof (cases pos)
    case (Some i)
    then have "i < length xs" using position_find unfolding pos_def by fastforce
    then have "env_rel brk_of lim (s\<lparr>arrays := (arrays s)(environ s := (entries s)[i := str])\<rparr>) bs (xs[i := ?x])"
      by (rule env_rel_replace [OF rel _ str(1) src])
    moreover have "putenv K str s = Some (s\<lparr>arrays := (arrays s)(environ s := (entries s)[i := str])\<rparr>, 0)"
      using eq f Some str(2) by (simp add: putenv_def)
    ultimately show ?thesis using Some by (auto simp: env_assign_def pos_def)
  next
    case None
    then have as: "env_assign n v xs = xs @ [?x]" by (simp add: env_assign_def pos_def)
    have pe: "putenv K str s = Option.bind (env_append K str s)
        (\<lambda>(s1, ok). if ok then Some (s1, 0) else Some (set_errno ENOMEM s1, -1))"
      using eq f None str(2) by (simp add: putenv_def)
    show ?thesis
    proof (rule env_append_spec [OF rel law lim str(1) src sz])
      fix s' bs'
      assume "env_append K str s = Some (s', True)" "env_rel brk_of lim s' bs' (xs @ [?x])"
      then show ?thesis using pe as by auto
    next
      fix s2 bs2
      assume "env_append K str s = Some (s2, False)" "env_rel brk_of lim s2 bs2 xs"
      moreover from this have "env_rel brk_of lim (set_errno ENOMEM s2) bs2 xs"
        using env_rel_heap(2) [of brk_of lim s2 bs2 xs "eheap s2" bs2] by (simp add: env_rel_def)
      ultimately show ?thesis using pe by auto
    qed
  qed
qed

end
