(* ===== verification/Cact_Samples.thy ===== *)
theory Cact_Samples
  imports Cact_Pthread_Registry Cact_Env
begin

text \<open>
  Concrete states: a kernel that keeps the laws the libc relies on, a heap with one live block, a
  process with two threads, an environment and a thread-local layout.  They show that the states the
  properties speak of exist.
\<close>

section \<open>A kernel and a heap\<close>

text \<open>The state of the kernel is the break, which it moves up to 2 GB; every mapping is at 1 GB.\<close>

definition flat_brk :: "nat \<Rightarrow> nat" where
  "flat_brk k = min k 2147483648"

definition flat_kernel :: "nat kernel" where
  "flat_kernel = \<lparr>
     sys_brk = (\<lambda>k a. if a = 0 then (k, flat_brk k) else if a \<le> 2147483648 then (a, a) else (k, UINTPTR_MAX)),
     sys_mmap = (\<lambda>k n. (k, 1073741824)),
     sys_munmap = (\<lambda>k a n. k)\<rparr>"

lemma flat_kernel_law: "brk_law flat_kernel flat_brk"
  by (auto simp: brk_law_def flat_kernel_def flat_brk_def UINTPTR_MAX_def)

text \<open>One block of 512 bytes at 65536, in use, then the break.\<close>

definition sample_blocks :: "blk list" where
  "sample_blocks = [(65536, 512, False)]"

definition sample_mem :: mem where
  "sample_mem = store (\<lambda>a. NUL) 65560 (''HOME=/root'' @ [NUL] @ ''HOME'' @ [NUL] @ ''a=b'' @ [NUL])"

definition sample_heap :: "nat heap" where
  "sample_heap = \<lparr>hdr = (\<lambda>a. \<lparr>magic = BLOCK_MAGIC, bsize = 512, is_free = 0, next_block = 0, mbase = 0, mlen = 0\<rparr>),
     free_list = 65536, heap_initialized = True, malloc_lock = False, dat = sample_mem, kern = 66072, errno = 0\<rparr>"

lemma sample_heap_rel: "heap_rel flat_brk sample_heap sample_blocks"
  by (simp add: heap_rel_def chain_rel_def sample_heap_def sample_blocks_def flat_brk_def)

lemma sample_live: "live sample_blocks = {(65560, 512)}"
  by (simp add: sample_blocks_def)

section \<open>Threads\<close>

definition sample_layout :: tls_layout where
  "sample_layout = \<lparr>total_size = 0, spare = 0, spare_used = 0, next_id = 1,
     mods = [\<lparr>tls_id = 0, off = 0, vaddr = 4096, filesz = 4, memsz = 8, align = 4\<rparr>,
             \<lparr>tls_id = 0, off = 0, vaddr = 8192, filesz = 16, memsz = 20, align = 16\<rparr>]\<rparr>"

lemma sample_places:
  "place_module \<lparr>tls_id = 0, off = 0, vaddr = 8192, filesz = 16, memsz = 20, align = 16\<rparr> 0 =
     (\<lparr>tls_id = 0, off = 0, vaddr = 8192, filesz = 16, memsz = 20, align = 16\<rparr>, 20)"
  "place_module \<lparr>tls_id = 0, off = 0, vaddr = 4096, filesz = 4, memsz = 8, align = 4\<rparr> 20 =
     (\<lparr>tls_id = 0, off = 20, vaddr = 4096, filesz = 4, memsz = 8, align = 4\<rparr>, 28)"
  by (simp_all add: place_module_def round_to_def eff_align_def add32_def sub32_def Let_def)

lemma sample_inline:
  "cact_tls_plan_inline sample_layout 2 = sample_layout\<lparr>total_size := 28, next_id := 3,
     mods := [\<lparr>tls_id = 1, off = 20, vaddr = 4096, filesz = 4, memsz = 8, align = 4\<rparr>,
              \<lparr>tls_id = 2, off = 0, vaddr = 8192, filesz = 16, memsz = 20, align = 16\<rparr>]\<rparr>"
  by (simp add: cact_tls_plan_inline_def sample_layout_def Let_def CACT_TLS_MAX_MODULES_def sample_places upt_rec numeral_2_eq_2)

lemma sample_plan:
  "mods (cact_tls_plan_reserved sample_layout 2 1024) =
     [\<lparr>tls_id = 1, off = 1044, vaddr = 4096, filesz = 4, memsz = 8, align = 4\<rparr>,
      \<lparr>tls_id = 2, off = 1024, vaddr = 8192, filesz = 16, memsz = 20, align = 16\<rparr>]"
  "total_size (cact_tls_plan_reserved sample_layout 2 1024) = 1052"
  by (simp_all add: cact_tls_plan_reserved_def cact_tls_reserve_def sample_inline add32_def Let_def)

lemma sample_plan_inv: "lay_inv (cact_tls_plan_reserved sample_layout 2 1024)"
  by (rule planned_inv) (simp_all add: sample_layout_def cost_def eff_align_def)

definition sample_thread :: "nat \<Rightarrow> nat \<Rightarrow> cact_thread" where
  "sample_thread p i = (blank_thread p)\<lparr>tid := i, clr := i\<rparr>"

definition sample_process :: "nat pthreads" where
  "sample_process = \<lparr>tls = \<lparr>heap = sample_heap, layout = sample_layout, blocks = []\<rparr>, g_lock = PTHREAD_MUTEX_INITIALIZER,
     g_threads = [sample_thread 65560 7], g_key_used = True # replicate 63 False,
     g_key_destructors = replicate 64 0, table = thread_table_init 4096, pid_cache = 7\<rparr>"

lemma ranges_init: "ranges (thread_table_init l) = {}"
  by (auto simp: ranges_def thread_table_init_def)

lemma card_init: "card {i. i < CACT_TLS_MAX_THREADS \<and> blk (slots (thread_table_init l) ! i) \<noteq> 0} < CACT_TLS_MAX_THREADS"
proof -
  have "{i. i < CACT_TLS_MAX_THREADS \<and> blk (slots (thread_table_init l) ! i) \<noteq> 0} = {}"
    by (auto simp: thread_table_init_def)
  from arg_cong [OF this, of card] show ?thesis by (simp only: card.empty) (simp add: CACT_TLS_MAX_THREADS_def)
qed

lemma sample_process_inv: "proc_inv flat_brk sample_process sample_blocks"
  using sample_heap_rel table_inv_init [of 4096] ranges_init [of 4096]
  by (simp add: proc_inv_def sample_process_def lock_free_def registry_inv_def sample_thread_def blank_thread_def
      PTHREAD_KEYS_MAX_def sample_live)

definition sample_create :: "int \<Rightarrow> thread_create_arg \<Rightarrow> nat \<Rightarrow> nat \<times> int" where
  "sample_create r ca k = (k, r)"

lemma sample_spares: "spares_brk flat_kernel (sample_create r) flat_brk"
  by (simp add: spares_brk_def flat_kernel_def sample_create_def)

lemma sample_ready: "create_ready flat_kernel (sample_create r) flat_brk sample_process sample_blocks"
  using sample_process_inv flat_kernel_law sample_spares [of r] ranges_init [of 4096]
  by (simp add: create_ready_def Let_def sample_process_def sample_layout_def flat_kernel_def DEFAULT_STACK_SIZE_def)

section \<open>The environment\<close>

definition sample_env :: "nat env" where
  "sample_env = \<lparr>eheap = sample_heap, environ = 3000000000, arrays = (\<lambda>a. [65560]), env_owned = False\<rparr>"

lemma all_nat_less: "(\<forall>i < Suc n. P i) \<longleftrightarrow> P 0 \<and> (\<forall>i < n. P (Suc i))"
  by (auto simp: less_Suc_eq_0_disj)

lemma sample_strings:
  "cstr sample_mem 65560 ''HOME=/root''" "cstr sample_mem 65571 ''HOME''" "cstr sample_mem 65576 ''a=b''"
  "cstr sample_mem 65578 ''b''"
  by (simp_all add: cstr_iff bytes_nth all_nat_less sample_mem_def store_def)

lemma sample_env_rel: "env_rel flat_brk 2147483648 sample_env sample_blocks [''HOME=/root'']"
  using sample_heap_rel sample_strings
  by (auto simp: env_rel_def sample_env_def entries_def sample_heap_def string_blocks_def kept_def area_def sample_live)

end
