(* ===== verification/Spec2Isabelle.thy ===== *)
theory Spec2Isabelle
  imports Cact_Div64 Cact_Token Cact_Strto Cact_Qsort Cact_Tls Cact_Mutex Cact_Ctype Cact_Fnmatch Cact_Getopt
    Cact_Path Cact_Process Cact_Tz_Lemmas Cact_Tz_Files Cact_Strftime_Lemmas Cact_Regex_Match Cact_Samples
begin

text \<open>
  A verification library for CactLibc, the freestanding C library of CactOS on i686.  The library is a set of C files over
  a small system call layer: the heap and the string functions at the bottom, on top of them the environment, sorting,
  parsing and formatting, the time zone engine, and the threads with their locks and their thread-local storage.  The
  theories follow the files; this one holds the properties that describe the library to a caller.

  \<^bold>\<open>Conventions.\<close>  A C \<open>char\<close> is an Isabelle \<open>char\<close>, read signed (\<open>schar\<close>) where the source uses a plain \<open>char\<close> and unsigned
  (\<open>uchar\<close>) behind a cast.  An address is a natural number, 0 is the null pointer, and memory is a function from addresses to
  bytes.  \<open>int\<close> and \<open>long\<close> are 32 bits: where a result can leave the range it is reduced by \<open>s32\<close>, \<open>u32\<close>, \<open>add32\<close> and the like;
  the 64-bit division uses words.  Components that only parse text take strings as lists without the terminator, and a pointer into
  such a text is the rest of the list.  An operation takes the state and returns it updated.  An error is a value.

  \<^bold>\<open>The theories and the sources.\<close>
  \<^item> \<open>Cact_Prelude\<close>: bytes, wrap-around, memory, decimal notation; shared by all.
  \<^item> \<open>Cact_String\<close>, \<open>Cact_String_Lemmas\<close>, \<open>Cact_Strnum\<close>, \<open>Cact_Token\<close>: \<open>src/string.c\<close>.  Every function is compared with a definition
    on lists, overlapping buffers included.
  \<^item> \<open>Cact_Heap\<close>, \<open>Cact_Heap_Lemmas\<close>, \<open>Cact_Malloc\<close>: \<open>malloc\<close>, \<open>free\<close>, \<open>calloc\<close>, \<open>realloc\<close> and the aligned allocators of \<open>src/stdlib.c\<close>.
    The chain of headers is shown to be a list of blocks that tiles the heap.  \<open>Cact_Allocator\<close> states the contract of an allocator
    as a locale, discharges it for this heap, and proves \<open>strdup\<close> and \<open>strndup\<close> against it.
  \<^item> \<open>Cact_Strto\<close>, \<open>Cact_Qsort\<close>, \<open>Cact_Path\<close>, \<open>Cact_Process\<close>: the rest of \<open>src/stdlib.c\<close> without floating point, and \<open>src/libgen.c\<close>,
    \<open>src/atfork.c\<close>, \<open>src/locale.c\<close>, \<open>src/sched.c\<close>.  \<open>qsort\<close> is a locale over the comparison, interpreted for \<open>strcmp\<close> and \<open>memcmp\<close>;
    the two handler tables are instances of one registry.
  \<^item> \<open>Cact_Div64\<close>: \<open>src/udivdi3.c\<close>.  \<open>Cact_Ctype\<close>: \<open>src/ctype.c\<close>.  \<open>Cact_Errno\<close>: error numbers and \<open>nio_map\<close> of \<open>src/nodeio.c\<close>.
  \<^item> \<open>Cact_Env\<close>: \<open>src/env.c\<close> and \<open>getenv\<close>, a refinement of an association list.
  \<^item> \<open>Cact_Fnmatch\<close>: \<open>src/fnmatch.c\<close>.  \<open>Cact_Getopt\<close>: \<open>src/getopt.c\<close>.
  \<^item> \<open>Cact_Regex\<close>, \<open>Cact_Regex_Lemmas\<close>, \<open>Cact_Regex_Match\<close>: \<open>src/regex.c\<close>, the compiler and the matcher with continuations against
    the relation a program denotes.
  \<^item> \<open>Cact_Tls\<close>: \<open>include/tls_layout.h\<close> and \<open>src/tls_static.c\<close>.  \<open>Cact_Thread_Local\<close>: \<open>src/thread_local.c\<close>.
  \<^item> \<open>Cact_Pthread\<close>, \<open>Cact_Pthread_Registry\<close>: \<open>src/pthread.c\<close> and \<open>src/semaphore.c\<close> call by call.  \<open>Cact_Mutex\<close>: the same lock words under
    interleaving, as inductive steps on the word and the multiset of the threads' program counters.
  \<^item> \<open>Cact_Calendar\<close>, \<open>Cact_Tz\<close>, \<open>Cact_Tz_Lemmas\<close>, \<open>Cact_Tz_Files\<close>, \<open>Cact_Time\<close>: \<open>src/time.c\<close> and \<open>src/tz.c\<close>.  \<open>Cact_Strftime\<close>,
    \<open>Cact_Strftime_Lemmas\<close>: \<open>src/strftime.c\<close>.
  \<^item> \<open>Cact_Samples\<close>: concrete states that satisfy the invariants.

  \<^bold>\<open>What is shown.\<close>  Heap: live blocks never overlap over any sequence of calls, and contents survive \<open>realloc\<close>.  Locks: mutual
  exclusion, no sleeper left without a holder or a waker, semaphore counts, \<open>pthread_once\<close> at most once.  Threads: creation and join,
  cleanup after a failed creation, private data, disjoint thread-local areas, one \<open>errno\<close> per thread.  Algorithms: sorting, searching,
  division, pattern matching, regular expressions, option permutation, path resolution.  Text: tokenisers, search, conversions.
  Time: the calendar, zone strings and zone files, formatting and its inverse.  Where the code departs from its documentation or from
  what it means to do, a lemma of the component exhibits the behaviour.

  \<^bold>\<open>Parameters.\<close>  The kernel is not part of the sources.  The break (with the law that a grant extends the previous one), the futex, thread
  creation, the clocks, the file system answers of \<open>realpath\<close> and the bytes of a zone file are arguments.  \<open>Cact_Samples\<close> has
  a kernel that keeps the laws.

  \<^bold>\<open>Loops and fuel.\<close>  A loop to a terminator is a \<open>partial_function (option)\<close> and is proved to return on terminated strings.  Counted loops
  have a measure.  The regular expression compiler gets fuel for three calls per character of the pattern and three more, a
  repetition of the matcher one unit per position left and one more; both are proved sufficient.  The limit of
  four million steps in \<open>m_node\<close> is part of the model, and completeness of a search is claimed below it only.

  \<^bold>\<open>Not modelled.\<close>  \<open>src/math.c\<close> and the floating-point conversions of \<open>strtod\<close>, \<open>printf\<close> and \<open>scanf\<close>: no floating-point model is used.
  \<open>src/stdio.c\<close> and \<open>src/scanf.c\<close>: variadic arguments and buffering over system calls.  \<open>ldso/ldso.c\<close> and \<open>src/dlfcn.c\<close>: relocation of machine
  code.  \<open>src/tls.c\<close>, \<open>src/crypto.c\<close>: a network protocol over primitives of the kernel.  \<open>src/glob.c\<close>, \<open>src/wordexp.c\<close>,
  \<open>src/mqueue.c\<close>, \<open>src/dns.c\<close>: directory walks, child processes, shared memory and sockets.  The remaining files are wrappers of one system call.
  \<open>regfree\<close>, \<open>localeconv\<close> and the assembly files are left out.  Memory ordering weaker than interleaving and stack depth are not considered.
\<close>

section \<open>The heap\<close>









section \<open>Locks\<close>

text \<open>C5. In every interleaving of threads that lock and unlock a mutex, at most one holds it, and the word
  is 0 exactly when none does.\<close>

theorem mutex_exclusive:
  assumes "mutex_reachable (w, T)"
  shows "count T MHeld \<le> 1 \<and> (w = 0 \<longleftrightarrow> count T MHeld = 0) \<and> w \<le> 2"
  using mutex_reachable_inv [OF assms] by (auto simp: mutex_excl_def)

theorem mutex_exclusive_witness:
  "count {#MHeld, MLoad#} MHeld \<le> 1 \<and> ((1 :: nat) = 0 \<longleftrightarrow> count {#MHeld, MLoad#} MHeld = 0) \<and> (1 :: nat) \<le> 2"
proof (rule mutex_exclusive)
  have "mutex_reachable (0, {#MOut, MOut#})" using mutex_reachable.start [of 2] by (simp add: numeral_2_eq_2)
  then have "mutex_reachable (0, {#MLoad, MOut#})" by (rule mutex_reachable.step) (rule mutex_step.lock)
  then have "mutex_reachable (0, {#MCas 0, MOut#})" by (rule mutex_reachable.step) (rule mutex_step.load)
  then have "mutex_reachable (1, {#MHeld, MOut#})" by (rule mutex_reachable.step) (rule mutex_step.fast_yes)
  then have "mutex_reachable (1, {#MOut, MHeld#})" by (simp add: add_mset_commute)
  then have "mutex_reachable (1, {#MLoad, MHeld#})" by (rule mutex_reachable.step) (rule mutex_step.lock)
  then show "mutex_reachable (1, {#MHeld, MLoad#})" by (simp add: add_mset_commute)
qed

text \<open>C6. No wake-up is lost: whenever a thread sleeps on a mutex, some other thread holds it or is on its
  way through a call, so the sleeper is not alone with no one left to wake it.\<close>

theorem mutex_sleeper_not_alone:
  assumes "mutex_reachable (w, T)" "MAsleep \<in># T"
  shows "\<exists>x. x \<in># T \<and> x \<noteq> MAsleep \<and> x \<noteq> MOut"
proof -
  have "MHeld \<in># T" if "w = 2"
    using mutex_reachable_inv [OF assms(1)] that by (simp add: mutex_excl_def flip: count_greater_zero_iff)
  then show ?thesis using mutex_reachable_inv [OF assms(1)] assms(2) by (auto simp: mutex_awake_def)
qed

theorem mutex_sleeper_not_alone_witness:
  "\<exists>x. x \<in># {#MAsleep, MHeld#} \<and> x \<noteq> MAsleep \<and> x \<noteq> MOut"
proof (rule mutex_sleeper_not_alone)
  have "mutex_reachable (0, {#MOut, MOut#})" using mutex_reachable.start [of 2] by (simp add: numeral_2_eq_2)
  then have "mutex_reachable (0, {#MLoad, MOut#})" by (rule mutex_reachable.step) (rule mutex_step.lock)
  then have "mutex_reachable (0, {#MCas 0, MOut#})" by (rule mutex_reachable.step) (rule mutex_step.load)
  then have "mutex_reachable (1, {#MHeld, MOut#})" by (rule mutex_reachable.step) (rule mutex_step.fast_yes)
  then have "mutex_reachable (1, {#MOut, MHeld#})" by (simp add: add_mset_commute)
  then have "mutex_reachable (1, {#MLoad, MHeld#})" by (rule mutex_reachable.step) (rule mutex_step.lock)
  then have "mutex_reachable (1, {#MCas 1, MHeld#})" by (rule mutex_reachable.step) (rule mutex_step.load)
  then have "mutex_reachable (1, {#MSlow, MHeld#})" by (rule mutex_reachable.step) (rule mutex_step.fast_no, simp)
  then have "mutex_reachable (1, {#MPromote, MHeld#})"
    using mutex_step.slow_no [of 1 "{#MHeld#}"] mutex_reachable.step by force
  then have "mutex_reachable (2, {#MWait, MHeld#})"
    using mutex_step.promote [of 1 "{#MHeld#}"] mutex_reachable.step by force
  then show "mutex_reachable (2, {#MAsleep, MHeld#})" by (rule mutex_reachable.step) (rule mutex_step.wait_sleep)
qed simp



text \<open>C8. \<open>pthread_once\<close>: in every interleaving the routine is entered at most once, and a caller has
  returned only if it was entered and has finished.\<close>

theorem once_runs_once:
  assumes "once_reachable (w, n, T)"
  shows "n \<le> 1 \<and> (ODone \<in># T \<longrightarrow> n = 1 \<and> ORun \<notin># T \<and> OStore \<notin># T)"
proof -
  have i: "count T ORun + count T OStore = of_bool (w = 1)" "n = of_bool (w = 2) + count T OStore" "ODone \<in># T \<Longrightarrow> w = 2"
    using once_reachable_inv [OF assms] by (auto simp: once_inv_def)
  then have "n \<le> 1" by (auto simp: of_bool_def split: if_splits)
  moreover have "n = 1 \<and> ORun \<notin># T \<and> OStore \<notin># T" if "ODone \<in># T"
    using i that by (simp flip: count_eq_zero_iff)
  ultimately show ?thesis by blast
qed

theorem once_runs_once_witness:
  "(1 :: nat) \<le> 1 \<and> ORun \<notin># {#ODone#} \<and> OStore \<notin># {#ODone#}"
proof -
  have "once_reachable (0, 0, {#OOut#})" using once_reachable.start [of 1] by simp
  then have "once_reachable (0, 0, {#OLoad#})" by (rule once_reachable.step) (rule once_step.call)
  then have "once_reachable (0, 0, {#OCas#})" using once_step.load [of 0 0 "{#}"] once_reachable.step by force
  then have "once_reachable (1, 0, {#ORun#})" using once_step.cas [of 0 0 "{#}"] once_reachable.step by force
  then have "once_reachable (1, 1, {#OStore#})" using once_step.run [of 1 0 "{#}"] once_reachable.step by force
  then have "once_reachable (2, 1, {#OWakeAll#})" by (rule once_reachable.step) (rule once_step.store)
  then have "once_reachable (2, 1, {#ODone#})" using once_step.wake [of 2 1 "{#}"] once_reachable.step by force
  from once_runs_once [OF this] show ?thesis by simp
qed

section \<open>Sorting and arithmetic\<close>

text \<open>C9. \<open>qsort\<close> with any comparison function that orders the elements leaves a sorted permutation of the
  array and changes nothing outside it.\<close>

theorem qsort_sorts:
  assumes "compares compar cmp sz" "comparator {xs. length xs = sz} cmp"
  shows "ascending cmp (elems (qsort compar m arr n sz) arr sz n) \<and>
    mset (elems (qsort compar m arr n sz) arr sz n) = mset (elems m arr sz n) \<and>
    unchanged (- {arr..<arr + n * sz}) m (qsort compar m arr n sz)"
proof -
  have "set (elems m arr sz n) \<subseteq> {xs. length xs = sz}" by (auto simp: elems_def rd_def)
  then show ?thesis
    using qsort_r_refines [OF assms(1)] comparator.list_qsort_ascending [OF assms(2)] mset_list_qsort
    unfolding qsort_def by metis
qed

theorem qsort_sorts_witness:
  "ascending mem_cmp (elems (qsort (\<lambda>m p q. memcmp m p q 2) (store (\<lambda>a. NUL) 100 ''dcba'') 100 2 2) 100 2 2) \<and>
    mset (elems (qsort (\<lambda>m p q. memcmp m p q 2) (store (\<lambda>a. NUL) 100 ''dcba'') 100 2 2) 100 2 2) =
      mset (elems (store (\<lambda>a. NUL) 100 ''dcba'') 100 2 2) \<and>
    unchanged (- {100..<100 + 2 * 2}) (store (\<lambda>a. NUL) 100 ''dcba'')
      (qsort (\<lambda>m p q. memcmp m p q 2) (store (\<lambda>a. NUL) 100 ''dcba'') 100 2 2)"
  by (rule qsort_sorts [OF compares_memcmp memcmp_order.comparator_axioms])

text \<open>C10. \<open>bsearch\<close> in a sorted array returns null exactly when no element compares equal to the key, and
  otherwise the address of one that does.\<close>

theorem bsearch_finds:
  assumes "compares compar cmp sz" "comparator {xs. length xs = sz} cmp" "ascending cmp (elems m p sz n)" "0 < p"
  shows "(bsearch compar m key p n sz = 0 \<longleftrightarrow> (\<forall>i < n. cmp (rd m key sz) (elems m p sz n ! i) \<noteq> 0)) \<and>
    (bsearch compar m key p n sz \<noteq> 0 \<longrightarrow> (\<exists>i < n. bsearch compar m key p n sz = p + i * sz \<and>
      cmp (rd m key sz) (elems m p sz n ! i) = 0))"
proof -
  let ?f = "cmp (rd m key sz)" and ?xs = "elems m p sz n"
  have A: "set ?xs \<subseteq> {xs. length xs = sz}" "rd m key sz \<in> {xs. length xs = sz}" by (auto simp: elems_def rd_def)
  have b: "bsearch compar m key p n sz = (case list_bsearch ?f ?xs 0 n of None \<Rightarrow> 0 | Some i \<Rightarrow> p + i * sz)"
    unfolding bsearch_def using assms(1) by (intro bsearch_refines) (auto simp: compares_def)
  show ?thesis
  proof (cases "list_bsearch ?f ?xs 0 n")
    case None
    then show ?thesis
      using comparator.list_bsearch_complete [OF assms(2,3) A, of 0 _ n] b by auto
  next
    case (Some i)
    then show ?thesis using comparator.list_bsearch_sound [OF assms(2) Some] b assms(4) by auto
  qed
qed

theorem bsearch_finds_witness:
  "let m = store (\<lambda>a. NUL) 100 ''bdfd'' in
   \<exists>i < 3. bsearch (\<lambda>m p q. memcmp m p q 1) m 103 100 3 1 = 100 + i * 1 \<and> mem_cmp (rd m 103 1) (elems m 100 1 3 ! i) = 0"
proof -
  let ?m = "store (\<lambda>a. NUL) 100 ''bdfd''"
  have e: "elems ?m 100 1 3 = [''b'', ''d'', ''f'']" "rd ?m 103 1 = ''d''" by (simp_all add: elems_def rd_def store_def upt_rec)
  have asc: "ascending mem_cmp (elems ?m 100 1 3)" unfolding e by (simp add: ascending_def uchar_def)
  have "\<not> (\<forall>i < 3. mem_cmp (rd ?m 103 1) (elems ?m 100 1 3 ! i) \<noteq> 0)" unfolding e by (auto intro!: exI [of _ 1])
  then show ?thesis
    using bsearch_finds [OF compares_memcmp memcmp_order.comparator_axioms asc, of 103] unfolding Let_def by (meson zero_less_numeral)
qed

text \<open>C11. The software 64-bit division returns for every pair of operands, and the four helpers
  compute the quotient and the remainder of C: rounding towards zero, modulo \<open>2 ^ 64\<close>.\<close>

theorem div64_correct:
  "udivdi3 a b = Some (a div b) \<and> umoddi3 a b = Some (if b = 0 then 0 else a mod b) \<and>
   divdi3 a b = Some (word_of_int (sint a sdiv sint b)) \<and>
   moddi3 a b = Some (word_of_int (sint a smod sint b))"
  by (simp add: udivdi3_div umoddi3_mod divdi3_div moddi3_mod)

section \<open>Thread-local storage\<close>



text \<open>C13. The addresses \<open>__tls_get_addr\<close> answers for one thread are different for different bytes of
  different modules.\<close>

theorem tls_addresses_distinct:
  assumes "lay_inv lay" "m1 \<in> set (mods lay)" "m2 \<in> set (mods lay)" "o1 < memsz m1" "o2 < memsz m2"
    and "total_size lay \<le> tp" "tp < 2147483648"
    and "cact_tls_addr lay (tls_id m1) o1 tp = cact_tls_addr lay (tls_id m2) o2 tp"
  shows "m1 = m2 \<and> o1 = o2"
  using assms by (rule tls_addr_distinct)

theorem tls_addresses_distinct_witness:
  "cact_tls_addr (cact_tls_plan_reserved sample_layout 2 1024) 1 3 70000 \<noteq>
   cact_tls_addr (cact_tls_plan_reserved sample_layout 2 1024) 2 5 70000"
proof
  let ?lay = "cact_tls_plan_reserved sample_layout 2 1024"
  assume eq: "cact_tls_addr ?lay 1 3 70000 = cact_tls_addr ?lay 2 5 70000"
  have "mods ?lay ! 0 = mods ?lay ! 1 \<and> (3 :: nat) = 5"
    by (rule tls_addresses_distinct [OF sample_plan_inv, of _ _ _ _ 70000]) (use eq in \<open>simp_all add: sample_plan\<close>)
  then show False by simp
qed

text \<open>C14. A new thread's block starts as the images of the modules followed by zeros, and the thread
  pointer at its end holds its own address.\<close>

theorem tls_block_filled:
  assumes "lay_inv lay" "\<forall>t \<in> set (mods lay). image_outside base (total_size lay) t"
    and "cact_tls_fill base lay m = (m', tcb)"
  shows "tcb = base + total_size lay \<and> bytes m' tcb (le32 tcb) \<and>
    (\<forall>t \<in> set (mods lay). \<forall>i < memsz t. m' (base + off t + i) = (if i < filesz t then m (vaddr t + i) else NUL))"
  using tls_fill_spec [OF assms] by simp

theorem tls_block_filled_witness:
  "let lay = cact_tls_plan_reserved sample_layout 2 1024;
       m' = fst (cact_tls_fill 100000 lay sample_mem);
       tcb = snd (cact_tls_fill 100000 lay sample_mem)
   in tcb = 100000 + total_size lay \<and> bytes m' tcb (le32 tcb) \<and>
      (\<forall>t \<in> set (mods lay). \<forall>i < memsz t. m' (100000 + off t + i) = (if i < filesz t then sample_mem (vaddr t + i) else NUL))"
  unfolding Let_def by (rule tls_block_filled [OF sample_plan_inv]) (simp_all add: sample_plan image_outside_def)

text \<open>C15. \<open>errno\<close> is per thread: after a thread's stack is registered with its block, the table answers a
  stack pointer in that range with that block, and one in any range registered before with the block it
  had, whatever the hint.\<close>

theorem errno_per_thread:
  assumes "table_inv s" "b \<noteq> 0" "base \<noteq> 0" "len \<noteq> 0" "base + len < 2 ^ 32"
    and "\<forall>(l, h, p) \<in> ranges s. p \<noteq> b \<and> {l..<h} \<inter> {base..<base + len} = {}"
    and "card {i. i < CACT_TLS_MAX_THREADS \<and> blk (slots s ! i) \<noteq> 0} < CACT_TLS_MAX_THREADS"
  defines "s' \<equiv> fst (cact_tlocal_register base len b s)"
  shows "(\<forall>sp \<in> {base..<base + len}. snd (errno_location sp s') = b) \<and>
    (\<forall>(l, h, p) \<in> ranges s. \<forall>sp \<in> {l..<h}. snd (errno_location sp s') = p)"
proof -
  have inv: "table_inv s'" and r: "ranges s' = insert (base, base + len, b) (ranges s)"
    unfolding s'_def using register_spec [OF assms(1-5) _ assms(7)] assms(6) by fastforce+
  show ?thesis using self_owner [OF inv] r by (fastforce simp: errno_location_def)
qed

theorem errno_per_thread_witness:
  "let s' = fst (cact_tlocal_register 1073741824 4096 65572 (thread_table_init 4096)) in
   (\<forall>sp \<in> {1073741824..<1073741824 + 4096}. snd (errno_location sp s') = 65572) \<and>
    (\<forall>(l, h, p) \<in> ranges (thread_table_init 4096). \<forall>sp \<in> {l..<h}. snd (errno_location sp s') = p)"
  unfolding Let_def
  by (rule errno_per_thread [OF table_inv_init])
    (simp_all add: ranges_init card_init [simplified])

section \<open>Threads\<close>





text \<open>C18. What a thread stores under a key is what it reads back, and no other thread and no other key is
  affected.\<close>

theorem specific_data_private:
  assumes "lock_free s" "registry_inv s" "find_by_id_locked me s = Some t" "find_by_id_locked other s = Some u"
    and "key < PTHREAD_KEYS_MAX" "g_key_used s ! key" "key' < PTHREAD_KEYS_MAX"
  shows "\<exists>s'. pthread_setspecific K me key v s = Some (s', 0) \<and> lock_free s' \<and> registry_inv s' \<and>
    pthread_getspecific K other key' s' =
      Some (s', if other = me \<and> key' = key then v else keys u ! key')"
  using assms by (rule specific_roundtrip)

theorem specific_data_private_witness:
  "\<exists>s'. pthread_setspecific flat_kernel 7 0 99 sample_process = Some (s', 0) \<and> lock_free s' \<and> registry_inv s' \<and>
    pthread_getspecific flat_kernel 7 0 s' =
      Some (s', if (7 :: nat) = 7 \<and> (0 :: nat) = 0 then 99 else keys (sample_thread 65560 7) ! 0)"
  by (rule specific_data_private)
    (use sample_process_inv in \<open>simp_all add: proc_inv_def find_by_id_locked_def sample_process_def sample_thread_def PTHREAD_KEYS_MAX_def\<close>)



section \<open>Patterns, options, the environment and paths\<close>

text \<open>C20. Without \<open>FNM_PERIOD\<close>, \<open>fnmatch\<close> decides the language of the pattern: it returns 0 exactly for the
  strings that split into matches of the pattern's items, under the other flags.\<close>

theorem fnmatch_decides_language:
  assumes "\<not> flag flags FNM_PERIOD" "NUL \<notin> set p"
  shows "fnmatch (Some p) (Some s) flags = (if accepts flags (toks flags p) s then 0 else FNM_NOMATCH)"
  using fnmatch_inner_lang [OF assms] by (simp add: fnmatch_def)

theorem fnmatch_decides_language_witness:
  "fnmatch (Some ''a*[b-d]?'') (Some ''axxcz'') 0 = (if accepts 0 (toks 0 ''a*[b-d]?'') ''axxcz'' then 0 else FNM_NOMATCH)"
  by (rule fnmatch_decides_language) (simp_all add: flag_def FNM_PERIOD_def)

text \<open>C21. \<open>regexec\<close> on a program without back references, whose repetitions of a body that may be empty ask for at most
  one iteration, finds the leftmost match and the longest one there, unless a start runs into the step limit;
  it reports \<open>REG_NOMATCH\<close> exactly when the language of the program has no span in the range.\<close>

theorem regexec_leftmost_longest:
  assumes "plain_program prog" "simple_program prog" "match_range efl s (Some (m # ms)) = (so, eo)" "0 \<le> so" "so \<le> eo"
    and "\<forall>i\<le>nat eo. in_limit prog (match_env prog s eo efl) i"
  shows "let L = spans prog (match_env prog s eo efl) in
    if \<exists>i j. nat so \<le> i \<and> i \<le> nat eo \<and> (i, j) \<in> L
    then \<exists>a b ms'. regexec (Some prog) (Some s) (Some (m # ms)) efl = Some (0, Some ((int a, int b) # ms')) \<and>
      nat so \<le> a \<and> (a, b) \<in> L \<and> (\<forall>i j. nat so \<le> i \<and> i \<le> nat eo \<and> (i, j) \<in> L \<longrightarrow> a \<le> i) \<and> (\<forall>j. (a, j) \<in> L \<longrightarrow> j \<le> b)
    else regexec (Some prog) (Some s) (Some (m # ms)) efl = Some (REG_NOMATCH, Some (m # ms))"
proof -
  define e where "e = match_env prog s eo efl"
  have e: "slen e = nat eo" by (simp add: e_def match_env_def)
  have lim: "\<forall>i\<le>(slen e). in_limit prog e i" using assms(6) by (simp add: e flip: e_def)
  note out = regexec_of_search [OF assms(3-5), of prog, folded e_def, folded e]
  show ?thesis
  proof (rule search_leftmost_longest [OF assms(1,2) lim, of "nat so"], goal_cases found missing)
    case (found a t)
    obtain ms' where r: "regexec (Some prog) (Some s) (Some (m # ms)) efl = Some (0, Some ((int a, int (nat (best_end t))) # ms'))"
      using out(1) [OF found(1,4)] by blast
    have "\<exists>i j. nat so \<le> i \<and> i \<le> nat eo \<and> (i, j) \<in> spans prog e"
      using found(2,3,5) e by auto
    then show ?thesis
      unfolding Let_def e_def [symmetric] e [symmetric] using r found(2,4-7)
      by (auto intro!: exI [of _ "nat (best_end t)"])
  next
    case missing
    then show ?thesis using out(2) by (auto simp: Let_def e simp flip: e_def simp del: upt_Suc)
  qed
qed

theorem regexec_leftmost_longest_witness:
  "let L = spans sample_program (match_env sample_program ''xabbc'' 5 0) in
    if \<exists>i j. nat 0 \<le> i \<and> i \<le> nat 5 \<and> (i, j) \<in> L
    then \<exists>a b ms'. regexec (Some sample_program) (Some ''xabbc'') (Some ((0, 0) # [(0, 0)])) 0 = Some (0, Some ((int a, int b) # ms')) \<and>
      nat 0 \<le> a \<and> (a, b) \<in> L \<and> (\<forall>i j. nat 0 \<le> i \<and> i \<le> nat 5 \<and> (i, j) \<in> L \<longrightarrow> a \<le> i) \<and> (\<forall>j. (a, j) \<in> L \<longrightarrow> j \<le> b)
    else regexec (Some sample_program) (Some ''xabbc'') (Some ((0, 0) # [(0, 0)])) 0 = Some (REG_NOMATCH, Some ((0, 0) # [(0, 0)]))"
proof (rule regexec_leftmost_longest)
  show "plain_program sample_program" "simple_program sample_program"
    "match_range 0 ''xabbc'' (Some ((0, 0) # [(0, 0)])) = (0, 5)" by code_simp+
  show "\<forall>i\<le>nat 5. in_limit sample_program (match_env sample_program ''xabbc'' 5 0) i"
    using sample_in_limit by (simp add: list_all_iff less_Suc_eq_le)
qed simp_all

text \<open>C22. Compiling and matching always return.  A pattern that compiles gives a program with fewer than 32 groups whose
  groups and back references are numbered within them and whose bracket expressions have 256 bits, so that the
  matcher indexes its arrays within bounds; otherwise the code is not 0.\<close>

theorem regex_total:
  "(case regcomp mem has_preg pattern fl of
      None \<Rightarrow> False | Some (Inl err) \<Rightarrow> err \<noteq> 0 | Some (Inr prog) \<Rightarrow> wf_program prog \<and> prog_cflags prog = fl) \<and>
   (\<exists>code pm. regexec preg str pmatch efl = Some (code, pm) \<and> code \<in> {0, REG_NOMATCH})"
  using regcomp_outcome [of mem has_preg pattern fl] regcomp_error [of mem has_preg pattern fl] regexec_returns
  by (auto split: sum.splits)









section \<open>Strings and numbers\<close>

text \<open>C27. \<open>memmove\<close> copies \<open>n\<close> bytes correctly for every overlap of source and destination: the
  result is the original memory with the original source bytes stored at the destination.\<close>

theorem memmove_any_overlap:
  "memmove m d s n = store m d (map m [s..<s + n])"
  by (rule memmove_store)

text \<open>C28. Calling \<open>strtok\<close> until it returns null yields exactly the maximal runs of characters that are no
  delimiters, each a terminated string in place, and no byte outside the string changes.\<close>

theorem strtok_yields_tokens:
  assumes "cstr m s xs" "cstr m delim ds" "delim \<noteq> 0" "s \<noteq> 0" "{s..s + length xs} \<inter> {delim..delim + length ds} = {}"
    and "length xs + 1 < fuel"
  shows "\<exists>m' ps. strtok_all fuel m s delim save = Some (m', ps) \<and>
     list_all2 (cstr m') ps (tokens (set ds) xs) \<and> unchanged (- {s..s + length xs}) m m'"
  using strtok_all_tokens [OF assms(1-4) _ assms(5,6), of s save] assms(4) by simp

theorem strtok_yields_tokens_witness:
  "let m = store (store (\<lambda>a. NUL) 100 ''ab,,c'') 200 '','' in
   \<exists>m' ps. strtok_all 10 m 100 200 0 = Some (m', ps) \<and>
     list_all2 (cstr m') ps (tokens (set '','') ''ab,,c'') \<and> unchanged (- {100..100 + length ''ab,,c''}) m m'"
  unfolding Let_def
  by (rule strtok_yields_tokens) (simp_all add: cstr_iff bytes_nth all_nat_less store_def)

text \<open>C29. \<open>strstr\<close> returns and finds the first occurrence of the needle, or null where there is none.\<close>

theorem strstr_first_occurrence:
  assumes "cstr m h xs" "cstr m n ys" "0 < h"
  shows "\<exists>r. strstr m h n = Some r \<and>
    (r = 0 \<and> (\<forall>us vs. xs \<noteq> us @ ys @ vs) \<or>
     (\<exists>us vs. r = h + length us \<and> xs = us @ ys @ vs \<and> (\<forall>us' vs'. xs = us' @ ys @ vs' \<longrightarrow> length us \<le> length us')))"
proof (cases "sub_index (=) ys xs")
  case None
  then have no: "\<forall>k \<le> length xs. take (length ys) (drop k xs) \<noteq> ys" by (simp add: sub_index_None list.rel_eq)
  have "xs \<noteq> us @ ys @ vs" for us vs using no [rule_format, of "length us"] by auto
  then show ?thesis using strstr_str [OF assms(1,2)] None by simp
next
  case (Some k)
  then have k: "k \<le> length xs" "take (length ys) (drop k xs) = ys" "\<forall>j < k. take (length ys) (drop j xs) \<noteq> ys"
    by (simp_all add: sub_index_Some list.rel_eq)
  have "xs = take k xs @ ys @ drop (length ys) (drop k xs)" using k(2) by (metis append_take_drop_id)
  moreover have "k \<le> length us" if "xs = us @ ys @ vs" for us vs using k(3) that by (auto simp: not_less [symmetric])
  moreover have "length (take k xs) = k" using k(1) by simp
  ultimately have "\<exists>us vs. h + k = h + length us \<and> xs = us @ ys @ vs \<and> (\<forall>us' vs'. xs = us' @ ys @ vs' \<longrightarrow> length us \<le> length us')"
    by (intro exI [of _ "take k xs"] exI [of _ "drop (length ys) (drop k xs)"]) simp
  then show ?thesis using strstr_str [OF assms(1,2)] Some by simp
qed

theorem strstr_first_occurrence_witness:
  "let m = store (store (\<lambda>a. NUL) 100 ''abcbc'') 200 ''bc'' in
   \<exists>r. strstr m 100 200 = Some r \<and>
    (r = 0 \<and> (\<forall>us vs. ''abcbc'' \<noteq> us @ ''bc'' @ vs) \<or>
     (\<exists>us vs. r = 100 + length us \<and> ''abcbc'' = us @ ''bc'' @ vs \<and> (\<forall>us' vs'. ''abcbc'' = us' @ ''bc'' @ vs' \<longrightarrow> length us \<le> length us')))"
  unfolding Let_def
  by (rule strstr_first_occurrence) (simp_all add: cstr_iff bytes_nth all_nat_less store_def)

text \<open>C30. A number printed by \<open>itoa\<close> is read back by \<open>atoi\<close>, except for \<open>INT_MIN\<close>, which \<open>itoa\<close> misprints.\<close>

theorem itoa_atoi:
  assumes "- 2147483648 < n" "n < 2147483648"
  shows "atoi (itoa m n str) str = Some n"
  using itoa_store [OF assms, of m str] atoi_sdec [OF cstr_store [of "sdec n" m str]] assms by simp

theorem itoa_atoi_witness: "atoi (itoa (\<lambda>a. NUL) (- 2147483647) 100) 100 = Some (- 2147483647)"
  by (rule itoa_atoi) simp_all

text \<open>C31. \<open>strtoll\<close> in base ten reads every 64-bit number from its decimal notation and stops at its end.\<close>

theorem strtoll_reads_decimal:
  assumes "cstr m p (sdec n)" "- (2 ^ 63) \<le> n" "n < 2 ^ 63"
  shows "strtoll m p 10 = Some (n, p + length (sdec n))"
  using assms by (rule strtoll_sdec)

theorem strtoll_reads_decimal_witness:
  "strtoll (store (\<lambda>a. NUL) 100 (sdec (- 9223372036854775808) @ [NUL])) 100 10 =
     Some (- 9223372036854775808, 100 + length (sdec (- 9223372036854775808)))"
  by (rule strtoll_reads_decimal [OF cstr_store]) simp_all

section \<open>Time\<close>

text \<open>C32. \<open>gmtime\<close> is right for every time, before the epoch included: the broken-down time is a valid date,
  its calendar day, hour, minute and second add up to the seconds it was made from, and the weekday and
  the day of the year are those of the calendar.\<close>

theorem gmtime_correct:
  "valid_tm (fill_gmtime t) \<and> tm_seconds (fill_gmtime t) = t \<and> on_calendar (fill_gmtime t) (t div 86400) \<and> tm_isdst (fill_gmtime t) = 0"
  using fill_gmtime_spec [of t] by (simp add: on_calendar_def)

text \<open>C33. \<open>mktime\<close> inverts \<open>localtime\<close> in every zone given by a POSIX string, through both sides of each
  change to and from summer time.\<close>

theorem mktime_inverts_localtime:
  assumes "refresh tz = tz" "posix_zone tz" "- 2147380000 \<le> t" "t < 2147380000"
  shows "mktime refresh (snd (localtime_r refresh t tz)) tz = (tz, t, snd (localtime_r refresh t tz))"
  by (rule mktime_localtime [where refresh = refresh, OF assms prod.collapse [symmetric]])

theorem mktime_inverts_localtime_witness:
  "let tz = parse_posix ''CET-1CEST,M3.5.0,M10.5.0/3'' zero_tz in
   mktime id (snd (localtime_r id 1700000000 tz)) tz = (tz, 1700000000, snd (localtime_r id 1700000000 tz))"
proof -
  have "posix_zone (parse_posix ''CET-1CEST,M3.5.0,M10.5.0/3'' zero_tz)" by code_simp
  then show ?thesis unfolding Let_def by (intro mktime_inverts_localtime) simp_all
qed

text \<open>C34. The parser of POSIX time zones reads back every zone with summer time that is written out in full:
  names, offsets and both rules.\<close>

theorem posix_zone_roundtrip:
  assumes "wf_name std" "wf_name dst" "\<bar>e1\<bar> < 2147483648" "\<bar>e2\<bar> < 2147483648" "wf_rule r1" "wf_rule r2"
    and "length (abbr (st tz)) = 12" "length (abbr (dt tz)) = 12"
  shows "let z = parse_posix (show_posix std e1 dst e2 r1 r2) tz in
    has_dst z \<and> east (st z) = e1 \<and> buf_str (abbr (st z)) = std \<and> east (dt z) = e2 \<and> buf_str (abbr (dt z)) = dst \<and>
    start_rule z = r1 \<and> end_rule z = r2"
  using parse_posix_show [OF assms] by (simp add: Let_def)

theorem posix_zone_roundtrip_witness:
  "let r1 = \<lparr>kind = RULE_MONTH, rule_n = 0, rule_m = 3, rule_w = 5, rule_d = 0, rule_time = 7200\<rparr>;
       r2 = \<lparr>kind = RULE_JULIAN, rule_n = 300, rule_m = 0, rule_w = 0, rule_d = 0, rule_time = - 3600\<rparr>;
       z = parse_posix (show_posix ''CET'' 3600 ''CEST'' 7200 r1 r2) zero_tz in
    has_dst z \<and> east (st z) = 3600 \<and> buf_str (abbr (st z)) = ''CET'' \<and> east (dt z) = 7200 \<and> buf_str (abbr (dt z)) = ''CEST'' \<and>
    start_rule z = r1 \<and> end_rule z = r2"
  unfolding Let_def
  by (rule posix_zone_roundtrip [unfolded Let_def])
    (simp_all add: wf_name_def is_alpha_def wf_rule_def zero_tz_def blank_zone_def schar_def uchar_def)

text \<open>C35. The zone state is always well formed: whatever \<open>TZ\<close> says and whatever a zone file holds, after
  \<open>tzset\<close> every abbreviation is terminated, the tables keep their sizes and the indices into them are in
  range.\<close>

theorem tzset_well_formed:
  assumes "tz_wf tz"
  shows "tz_wf (tzset fs junk tzenv tz)"
  using assms by (rule tzset_wf)

theorem tzset_well_formed_witness: "tz_wf (tzset (\<lambda>p. None) (\<lambda>i. NUL) (Some ''EST5EDT'') zero_tz)"
  by (rule tzset_well_formed) (simp add: tz_wf_def good_buf_def tz_tables_def zero_tz_def blank_zone_def TZ_MAXTRANS_def)





lemma gmtime_years:
  assumes "- 2147483648 \<le> t" "t < 2147483648"
  shows "1000 \<le> tm_year (fill_gmtime t) + 1900" "tm_year (fill_gmtime t) + 1900 < 10000"
proof -
  define y where "y = tm_year (fill_gmtime t) + 1900"
  have d: "days_from_civil y 1 1 \<le> t div 86400" "t div 86400 < days_from_civil (y + 1) 1 1"
    using fill_gmtime_spec [of t] days_next_year [of y] by (auto simp: y_def)
  define q where "q = t div 86400"
  have b: "- 24856 \<le> q" "q \<le> 24856" using assms by (auto simp: q_def)
  have "days_from_civil 1000 1 1 = - 354285" "days_from_civil 10000 1 1 = 2932897"
    by (simp_all add: days_from_civil_def signed_divide_int_def signed_modulo_int_def)
  then show "1000 \<le> tm_year (fill_gmtime t) + 1900" "tm_year (fill_gmtime t) + 1900 < 10000"
    using d b days_year_mono [of "y + 1" 1000] days_year_mono [of 10000 y] unfolding q_def [symmetric] y_def [symmetric]
    by linarith+
qed

text \<open>C38. The date of every 32-bit time, printed by \<open>strftime\<close> as year, month, day and time of day, is read
  back by \<open>strptime\<close> in full, with the weekday and the day of the year it was not given.\<close>

theorem strptime_reads_strftime:
  assumes "- 2147483648 \<le> t" "t < 2147483648"
  shows "\<exists>s. strftime 20 ''%Y-%m-%d %H:%M:%S'' (fill_gmtime t) tz = Some (19, s) \<and>
    strptime (s @ rest) ''%Y-%m-%d %H:%M:%S'' tm0 = ((fill_gmtime t)\<lparr>tm_isdst := tm_isdst tm0\<rparr>, Some rest)"
proof -
  have v: "valid_tm (fill_gmtime t)" "on_calendar (fill_gmtime t) (tm_day (fill_gmtime t))"
    using fill_gmtime_spec [of t] by (simp_all add: on_calendar_def fill_gmtime_day)
  have len: "length (timestamp (fill_gmtime t)) = 19" by (simp add: timestamp_def four_def two_def)
  have "text_of 5 (fill_gmtime t) tz ''%Y-%m-%d %H:%M:%S'' = Some (timestamp (fill_gmtime t))"
    using timestamp_text [OF v(1) gmtime_years [OF assms], of 4] by (simp add: eval_nat_numeral)
  from strftime_text [OF this, of 20] show ?thesis
    using strptime_timestamp [OF v(1) gmtime_years [OF assms] v(2)] len by auto
qed

theorem strptime_reads_strftime_witness:
  "\<exists>s. strftime 20 ''%Y-%m-%d %H:%M:%S'' (fill_gmtime (- 1)) zero_tz = Some (19, s) \<and>
    strptime (s @ '' UTC'') ''%Y-%m-%d %H:%M:%S'' (fill_gmtime 0) = ((fill_gmtime (- 1))\<lparr>tm_isdst := tm_isdst (fill_gmtime 0)\<rparr>, Some '' UTC'')"
  by (rule strptime_reads_strftime) simp_all



section \<open>Process exit\<close>

text \<open>C40. \<open>exit\<close> with handlers that register no others returns from every handler: it runs each registered
  handler exactly once, the last registered first.\<close>

theorem exit_runs_handlers:
  assumes "\<And>f s. atexit_handlers (run f s) = atexit_handlers s" "\<And>f s. eworld (run f s) = act f (eworld s)"
  shows "\<exists>s'. exit_loop run s = Some s' \<and> atexit_handlers s' = [] \<and>
    eworld s' = foldl (\<lambda>w f. act f w) (eworld s) (rev (atexit_handlers s))"
  using exit_loop_order [of run s, OF assms(1)] assms(2) by metis

theorem exit_runs_handlers_witness:
  "\<exists>s'. exit_loop (\<lambda>f s. s\<lparr>eworld := eworld s @ [f]\<rparr>) \<lparr>atexit_handlers = [1, 2, 3], eworld = [], eerrno = 0\<rparr> = Some s' \<and>
     atexit_handlers s' = [] \<and> eworld s' = foldl (\<lambda>w f. w @ [f]) [] (rev [1, 2, 3 :: nat])"
  using exit_runs_handlers [of "\<lambda>f s. s\<lparr>eworld := eworld s @ [f]\<rparr>" "\<lambda>f w. w @ [f]"
      "\<lparr>atexit_handlers = [1, 2, 3], eworld = [], eerrno = 0\<rparr>"] by simp

end
